(* ===== verification/Prelude.thy ===== *)
theory Prelude
  imports Main "HOL-Library.Word" "HOL-Library.Char_ord" "HOL-Library.List_Lexorder"
    "HOL-Library.Sublist"
begin

unbundle bit_operations_syntax

text \<open>
  The vocabulary the component theories share: byte strings, Go errors and their wrapping,
  results, little-endian integers, and the generic lemmas on lists and words that the component
  proofs use.

  Go values are modelled as follows. A \<open>[]byte\<close> is a list of 8-bit words; a Go \<open>string\<close>
  (a byte string, compared bytewise) is an Isabelle \<open>string\<close> under the lexicographic order of
  \<open>List_Lexorder\<close> and \<open>Char_ord\<close>; an \<open>error\<close> is a value of \<open>gerr\<close>; a result
  \<open>(T, error)\<close> is \<open>gerr + T\<close>.
\<close>

named_theorems bytes_simps \<open>rewriting of the byte-level encodings\<close>
named_theorems frame_simps \<open>lengths and shapes of RecordIO frames\<close>
named_theorems store_simps \<open>what the object store operations return and leave behind\<close>

type_synonym byte = "8 word"
type_synonym bytes = "8 word list"
type_synonym u16 = "16 word"
type_synonym u32 = "32 word"
type_synonym u64 = "64 word"

subsection \<open>Errors\<close>

text \<open>
  \<open>Sentinel n\<close> is a package-level \<open>var ErrX = errors.New(...)\<close>, named by its Go name;
  \<open>ErrMsg m\<close> is an error built in place by \<open>errors.New\<close> or \<open>fmt.Errorf\<close> without
  \<open>%w\<close>; \<open>Wrap m e\<close> is \<open>fmt.Errorf("... %w", e)\<close>. Messages keep the constant text of
  the format only. \<open>Panic m\<close> is not an error value but a run-time panic, kept as a result so
  that a path that panics is visible. \<open>errors_is\<close> is \<open>errors.Is\<close>: it looks through \<open>%w\<close> wrapping.
\<close>

datatype gerr = Sentinel string | ErrMsg string | Wrap string gerr | Panic string

fun errors_is :: "gerr \<Rightarrow> gerr \<Rightarrow> bool" where
  "errors_is (Wrap m e) t = (Wrap m e = t \<or> errors_is e t)"
| "errors_is e t = (e = t)"

abbreviation io_EOF :: gerr where "io_EOF \<equiv> Sentinel ''io.EOF''"
abbreviation io_ErrUnexpectedEOF :: gerr where
  "io_ErrUnexpectedEOF \<equiv> Sentinel ''io.ErrUnexpectedEOF''"
abbreviation io_ErrShortWrite :: gerr where "io_ErrShortWrite \<equiv> Sentinel ''io.ErrShortWrite''"
abbreviation os_ErrClosed :: gerr where "os_ErrClosed \<equiv> Sentinel ''os.ErrClosed''"
abbreviation context_Canceled :: gerr where "context_Canceled \<equiv> Sentinel ''context.Canceled''"
abbreviation context_DeadlineExceeded :: gerr where
  "context_DeadlineExceeded \<equiv> Sentinel ''context.DeadlineExceeded''"

type_synonym 'a result = "gerr + 'a"

lemma errors_is_refl [simp]: "errors_is e e"
  by (cases e) auto

lemma errors_is_Wrap_Sentinel [simp]:
  "errors_is (Wrap m e) (Sentinel s) = errors_is e (Sentinel s)"
  by simp

subsection \<open>Little-endian integers\<close>

text \<open>
  \<open>le_bytes n v\<close> is what \<open>binary.LittleEndian.PutUint32\<close> (\<open>n = 4\<close>) and \<open>PutUint64\<close>
  (\<open>n = 8\<close>) store; \<open>le_word\<close> is what \<open>Uint32\<close> and \<open>Uint64\<close> read.
\<close>

fun le_bytes :: "nat \<Rightarrow> 'a::len word \<Rightarrow> bytes" where
  "le_bytes 0 v = []"
| "le_bytes (Suc n) v = ucast v # le_bytes n (drop_bit 8 v)"

fun le_word :: "bytes \<Rightarrow> 'a::len word" where
  "le_word [] = 0"
| "le_word (b # bs) = ucast b OR push_bit 8 (le_word bs)"

lemma length_le_bytes [simp, bytes_simps]: "length (le_bytes n v) = n"
  by (induction n arbitrary: v) auto

lemma le_word_le_bytes: "le_word (le_bytes n v) = take_bit (8 * n) v"
proof (induction n arbitrary: v)
  case 0
  then show ?case by simp
next
  case (Suc n)
  show ?case
    by (rule bit_word_eqI)
      (auto simp: Suc bit_simps not_le)
qed

lemma bit_le_word_lt: "bit (le_word bs :: 'a::len word) n \<Longrightarrow> n < 8 * length bs"
proof (induction bs arbitrary: n)
  case Nil
  then show ?case by simp
next
  case (Cons b bs)
  show ?case
  proof (cases "8 \<le> n")
    case True
    with Cons.prems have "bit b n \<or> bit (le_word bs :: 'a word) (n - 8)"
      by (auto simp: bit_simps)
    moreover from True have "\<not> bit b n"
      by (auto dest: bit_imp_le_length)
    ultimately show ?thesis
      using Cons.IH [of "n - 8"] True by auto
  qed simp
qed

lemma le_bytes_le_word:
  assumes "8 * length bs \<le> LENGTH('a::len)"
  shows "le_bytes (length bs) (le_word bs :: 'a word) = bs"
  using assms
proof (induction bs)
  case Nil
  then show ?case by simp
next
  case (Cons b bs)
  have "ucast (ucast b OR push_bit 8 (le_word bs :: 'a word)) = b"
    using Cons.prems by (intro bit_word_eqI) (auto simp: bit_simps not_le)
  moreover have "drop_bit 8 (ucast b OR push_bit 8 (le_word bs :: 'a word)) = le_word bs"
  proof (rule bit_word_eqI)
    fix n
    assume "n < LENGTH('a)"
    have "8 + n < LENGTH('a)" if "bit (le_word bs :: 'a word) n"
      using bit_le_word_lt [OF that] Cons.prems by simp
    moreover have "\<not> bit b (8 + n)"
      by (auto dest: bit_imp_le_length)
    ultimately show "bit (drop_bit 8 (ucast b OR push_bit 8 (le_word bs :: 'a word))) n
        = bit (le_word bs :: 'a word) n"
      by (auto simp: bit_simps)
  qed
  ultimately show ?case
    using Cons by simp
qed

lemma le_bytes_inject:
  assumes "LENGTH('a::len) \<le> 8 * n"
  shows "le_bytes n (v :: 'a word) = le_bytes n w \<longleftrightarrow> v = w"
proof
  assume "le_bytes n v = le_bytes n w"
  then have "le_word (le_bytes n v) = (le_word (le_bytes n w) :: 'a word)" by simp
  then show "v = w"
    using assms by (simp add: le_word_le_bytes take_bit_word_eq_self)
qed simp

lemma le_word_le_bytes_64 [simp, bytes_simps]: "le_word (le_bytes 8 (v :: u64)) = v"
  by (simp add: le_word_le_bytes take_bit_word_eq_self)

lemma le_word_le_bytes_32 [simp, bytes_simps]: "le_word (le_bytes 4 (v :: u32)) = v"
  by (simp add: le_word_le_bytes take_bit_word_eq_self)

lemma le_bytes_le_word_64: "length bs = 8 \<Longrightarrow> le_bytes 8 (le_word bs :: u64) = bs"
  using le_bytes_le_word [where 'a = 64, of bs] by simp

lemma le_bytes_le_word_32: "length bs = 4 \<Longrightarrow> le_bytes 4 (le_word bs :: u32) = bs"
  using le_bytes_le_word [where 'a = 32, of bs] by simp

subsection \<open>Words\<close>

lemma xor_right_cancel [simp]: "(a :: 'a::len word) XOR c = b XOR c \<longleftrightarrow> a = b"
proof
  assume "a XOR c = b XOR c"
  then have "(a XOR c) XOR c = (b XOR c) XOR c" by (rule arg_cong)
  then show "a = b" by (simp only: xor.assoc xor_self_eq xor.right_neutral)
qed simp

lemma xor_left_cancel [simp]: "(c :: 'a::len word) XOR a = c XOR b \<longleftrightarrow> a = b"
  using xor_right_cancel [of a c b] by (simp only: xor.commute)

lemma ucast_byte_u32_inject [simp]: "(ucast (a :: byte) :: u32) = ucast b \<longleftrightarrow> a = b"
proof
  assume *: "(ucast a :: u32) = ucast b"
  show "a = b"
  proof (rule bit_word_eqI)
    fix n
    assume "n < LENGTH(8)"
    then show "bit a n = bit b n"
      using arg_cong [OF *, of "\<lambda>w. bit w n"] by (simp add: bit_simps)
  qed
qed simp

subsection \<open>Lists\<close>

lemma take_append_exact [simp]: "length xs = n \<Longrightarrow> take n (xs @ ys) = xs"
  by simp

lemma drop_append_exact [simp]: "length xs = n \<Longrightarrow> drop n (xs @ ys) = ys"
  by simp

subsection \<open>Words as numbers\<close>

lemma unat_and_mask: "unat (w AND mask n) = unat w mod 2 ^ n"
  unfolding take_bit_eq_mask [symmetric] unsigned_take_bit_eq by (simp add: take_bit_eq_mod)

lemma unat_drop: "unat (drop_bit n (w :: 'a::len word)) = unat w div 2 ^ n"
  unfolding unsigned_drop_bit_eq by (simp add: drop_bit_eq_div take_bit_nat_eq_self)

lemma unat_or_add:
  assumes "unat a AND unat b = 0"
  shows "unat (a OR b) = unat a + unat b"
  using disjunctive_add_eq_or [OF assms] by (simp add: unsigned_or_eq)

lemma nat_and_disjoint: "(m * 2 ^ k) AND n = 0" if "n < 2 ^ k" for m n k :: nat
proof -
  have "push_bit k m AND take_bit k n = 0"
    by (rule bit_eqI) (simp add: bit_and_iff bit_push_bit_iff bit_take_bit_iff)
  moreover have "take_bit k n = n" using that by (simp add: take_bit_nat_eq_self)
  ultimately show ?thesis by (simp add: push_bit_eq_mult)
qed

lemma unat_u32: "n < 2 ^ 32 \<Longrightarrow> unat (of_nat n :: u32) = n"
  by (simp only: unat_of_nat) simp

lemma u32_odd: "(h AND 1 = 1) = odd (unat (h :: u32))"
proof -
  have "unat (h AND 1) = unat h mod 2" using unat_and_mask [of h 1] by (simp add: mask_eq_exp_minus_1)
  then show ?thesis by (simp add: word_eq_iff_unsigned [where ?'a = nat] odd_iff_mod_2_eq_one)
qed

lemma unat_inc: "unat (h :: u32) < 2 ^ 32 - 1 \<Longrightarrow> unat (if c then h + 1 else h) = unat h + (if c then 1 else 0)"
  by (simp add: unat_plus_if')

lemma bit_top:
  fixes w :: "'a::len word"
  assumes "LENGTH('a) = Suc n"
  shows "bit w n \<longleftrightarrow> 2 ^ n \<le> unat w"
proof -
  have "unat w < 2 ^ Suc n" using unsigned_less [of w, where ?'a = nat] assms by simp
  then have "unat w div 2 ^ n < 2" by (simp add: less_mult_imp_div_less)
  then have "odd (unat w div 2 ^ n) \<longleftrightarrow> unat w div 2 ^ n \<noteq> 0" by (auto simp only: less_2_cases_iff) simp_all
  moreover have "bit w n \<longleftrightarrow> odd (unat w div 2 ^ n)" unfolding bit_iff_odd [symmetric] by (simp add: bit_unsigned_iff)
  ultimately show ?thesis by (simp add: div_greater_zero_iff)
qed

lemma and_exp_if: "(w :: 'a::len word) AND 2 ^ n = (if bit w n then 2 ^ n else 0)"
  by (rule bit_eqI) (auto simp: bit_and_iff bit_exp_iff)

end
