(* ===== verification/Crc.thy ===== *)
theory Crc
  imports Prelude
begin

unbundle bit_operations_syntax

text \<open>
  The checksums of \<open>src/recordio/crc.go\<close>. \<open>crc32_castagnoli\<close> is the standard library's
  \<open>crc32.Checksum\<close> with the Castagnoli table: the reflected CRC with polynomial
  \<open>0x82F63B78\<close>, initial value and final XOR all ones, computed bit by bit. \<open>computeMaskedCRC\<close>
  rotates it and adds \<open>maskDelta\<close>.

  The lemmas show that the register update is injective in the register and in the byte, so two
  messages of one length that differ in a single byte always have different checksums.
\<close>

subsection \<open>The CRC-32C register\<close>

definition crc_poly :: u32 where
  "crc_poly = 0x82F63B78"

definition crc_bit :: "u32 \<Rightarrow> u32" where
  "crc_bit c = (if bit c 0 then drop_bit 1 c XOR crc_poly else drop_bit 1 c)"

definition crc_byte :: "u32 \<Rightarrow> byte \<Rightarrow> u32" where
  "crc_byte c b = (crc_bit ^^ 8) (c XOR ucast b)"

definition crc32_castagnoli :: "bytes \<Rightarrow> u32" where
  "crc32_castagnoli data = NOT (foldl crc_byte (NOT 0) data)"

subsection \<open>crc.go\<close>

definition maskDelta :: u32 where
  "maskDelta = 0xa282ead8"

definition headerSize :: nat where
  "headerSize = 12"

definition footerSize :: nat where
  "footerSize = 4"

definition frameOverhead :: nat where
  "frameOverhead = 16"

definition DefaultBufferSize :: int where
  "DefaultBufferSize = 64 * 1024"

definition DefaultMaxRecordSize :: int where
  "DefaultMaxRecordSize = 64 * 1024 * 1024"

abbreviation ErrTornWrite :: gerr where "ErrTornWrite \<equiv> Sentinel ''recordio.ErrTornWrite''"
abbreviation ErrHeaderCorrupted :: gerr where
  "ErrHeaderCorrupted \<equiv> Sentinel ''recordio.ErrHeaderCorrupted''"
abbreviation ErrDataCorrupted :: gerr where
  "ErrDataCorrupted \<equiv> Sentinel ''recordio.ErrDataCorrupted''"
abbreviation ErrRecordTooLarge :: gerr where
  "ErrRecordTooLarge \<equiv> Sentinel ''recordio.ErrRecordTooLarge''"

definition computeMaskedCRC :: "bytes \<Rightarrow> u32" where
  "computeMaskedCRC data =
     (let crc = crc32_castagnoli data
      in (drop_bit 15 crc OR push_bit 17 crc) + maskDelta)"

subsection \<open>The published check value\<close>

lemma funpow_8: "(f ^^ 8) x = f (f (f (f (f (f (f (f x)))))))"
  by (simp add: eval_nat_numeral)

lemmas crc_eval = crc32_castagnoli_def crc_byte_def funpow_8 crc_bit_def crc_poly_def

text \<open>The CRC-32C of the digits 1 to 9, as the standard publishes it.\<close>

lemma crc32_castagnoli_check:
  "crc32_castagnoli [0x31, 0x32, 0x33, 0x34, 0x35, 0x36, 0x37, 0x38, 0x39] = 0xE3069283"
  by (simp add: crc_eval)

subsection \<open>Injectivity of the register update\<close>

lemma crc_poly_top: "bit crc_poly 31"
  by (simp add: crc_poly_def)

lemma crc_bit_top: "bit (crc_bit c) 31 = bit c 0"
  by (auto simp: crc_bit_def bit_simps crc_poly_top dest: bit_imp_le_length)

lemma drop_bit_1_inj:
  fixes c d :: u32
  assumes "bit c 0 = bit d 0" and "drop_bit 1 c = drop_bit 1 d"
  shows "c = d"
proof (rule bit_word_eqI)
  fix n
  show "bit c n = bit d n"
  proof (cases n)
    case 0
    with assms(1) show ?thesis by simp
  next
    case (Suc m)
    from assms(2) have "bit (drop_bit 1 c) m = bit (drop_bit 1 d) m" by simp
    with Suc show ?thesis by (simp add: bit_simps)
  qed
qed

lemma inj_crc_bit: "inj crc_bit"
proof (rule injI)
  fix c d
  assume eq: "crc_bit c = crc_bit d"
  then have par: "bit c 0 = bit d 0"
    by (metis crc_bit_top)
  from eq par have "drop_bit 1 c = drop_bit 1 d"
    by (auto simp: crc_bit_def split: if_splits)
  with par show "c = d"
    by (rule drop_bit_1_inj)
qed

lemma inj_crc_bit_pow: "inj (crc_bit ^^ n)"
proof (induction n)
  case (Suc n)
  from inj_compose [OF inj_crc_bit this] show ?case by (simp only: funpow.simps)
qed simp

lemma crc_byte_inj_reg: "crc_byte c b = crc_byte d b \<longleftrightarrow> c = d"
  by (simp add: crc_byte_def inj_eq [OF inj_crc_bit_pow])

lemma crc_byte_inj_byte: "crc_byte c a = crc_byte c b \<longleftrightarrow> a = b"
  by (simp add: crc_byte_def inj_eq [OF inj_crc_bit_pow])

lemma foldl_crc_byte_inj: "foldl crc_byte c data = foldl crc_byte d data \<longleftrightarrow> c = d"
  by (induction data arbitrary: c d) (auto simp: crc_byte_inj_reg)

lemma crc32_castagnoli_single_byte:
  assumes "i < length data" and "crc32_castagnoli (data[i := v]) = crc32_castagnoli data"
  shows "data ! i = v"
proof -
  let ?c = "foldl crc_byte (NOT 0) (take i data)"
  have "data = take i data @ data ! i # drop (Suc i) data"
    using assms(1) by (simp add: id_take_nth_drop)
  then have "foldl crc_byte (NOT 0) data
      = foldl crc_byte (crc_byte ?c (data ! i)) (drop (Suc i) data)"
    by (metis foldl_Cons foldl_append)
  moreover have "foldl crc_byte (NOT 0) (data[i := v])
      = foldl crc_byte (crc_byte ?c v) (drop (Suc i) data)"
    using assms(1) by (simp add: upd_conv_take_nth_drop)
  ultimately show ?thesis
    using assms(2) by (simp add: crc32_castagnoli_def foldl_crc_byte_inj crc_byte_inj_byte)
qed

text \<open>The mask is a rotation and an addition, so it loses nothing.\<close>

lemma rot_inj:
  fixes c d :: u32
  assumes "drop_bit 15 c OR push_bit 17 c = drop_bit 15 d OR push_bit 17 d"
  shows "c = d"
proof (rule bit_word_eqI)
  fix n
  assume n: "n < LENGTH(32)"
  have low: "bit x n = bit (drop_bit 15 x OR push_bit 17 x) (n + 17)" if "n < 15" for x :: u32
    using that by (auto simp: bit_simps dest: bit_imp_le_length)
  have high: "bit x n = bit (drop_bit 15 x OR push_bit 17 x) (n - 15)" if "15 \<le> n" for x :: u32
    using that n by (auto simp: bit_simps)
  show "bit c n = bit d n"
  proof (cases "n < 15")
    case True
    then show ?thesis using low [of c] low [of d] assms by simp
  next
    case False
    then show ?thesis using high [of c] high [of d] assms by simp
  qed
qed

lemma computeMaskedCRC_eq_iff:
  "computeMaskedCRC a = computeMaskedCRC b \<longleftrightarrow> crc32_castagnoli a = crc32_castagnoli b"
  by (auto simp: computeMaskedCRC_def Let_def dest: rot_inj)

lemma computeMaskedCRC_single_byte:
  assumes "i < length data" and "data ! i \<noteq> v"
  shows "computeMaskedCRC (data[i := v]) \<noteq> computeMaskedCRC data"
  using assms crc32_castagnoli_single_byte by (auto simp: computeMaskedCRC_eq_iff)

end
