(* ===== verification/Recordio_Writer.thy ===== *)
theory Recordio_Writer
  imports Crc
begin

text \<open>
  \<open>src/recordio/writer.go\<close>: the framed writer over \<open>bufio.Writer\<close>.

  The \<open>io.Writer\<close> underneath is a \<open>sink\<close>: the bytes it accepted and a script of its future
  calls (\<open>Some (k, e)\<close> accepts at most \<open>k\<close> bytes and fails with \<open>e\<close>; \<open>None\<close> and an
  exhausted script accept everything), which covers every \<open>Write\<close> that keeps the documented
  contract of \<open>io.Writer\<close> (a short write comes with an error). \<open>sk_close\<close> is what its
  \<open>Close\<close> method returns, \<open>None\<close> when it has none. \<open>bytes.Buffer\<close>, which the program
  writes to, is the sink with an empty script and no \<open>Close\<close>.

  The writer's offset is a natural number: the \<open>int64\<close> of the code wraps only after
  \<open>2\<^sup>6\<^sup>3\<close> bytes.
\<close>

subsection \<open>The standard library's buffered writer\<close>

record sink =
  sk_out :: bytes
  sk_script :: "(nat \<times> gerr) option list"
  sk_close :: "gerr option option"

definition bytes_Buffer :: sink where
  "bytes_Buffer = \<lparr>sk_out = [], sk_script = [], sk_close = None\<rparr>"

definition sink_write :: "sink \<Rightarrow> bytes \<Rightarrow> nat \<times> gerr option \<times> sink" where
  "sink_write s p =
     (case sk_script s of
        Some (k, e) # sc \<Rightarrow>
          (min k (length p), Some e, s\<lparr>sk_out := sk_out s @ take k p, sk_script := sc\<rparr>)
      | None # sc \<Rightarrow> (length p, None, s\<lparr>sk_out := sk_out s @ p, sk_script := sc\<rparr>)
      | [] \<Rightarrow> (length p, None, s\<lparr>sk_out := sk_out s @ p\<rparr>))"

record bufw =
  bw_wr :: sink
  bw_buf :: bytes
  bw_size :: nat
  bw_err :: "gerr option"

definition bufio_NewWriterSize :: "sink \<Rightarrow> int \<Rightarrow> bufw" where
  "bufio_NewWriterSize w sz =
     \<lparr>bw_wr = w, bw_buf = [], bw_size = (if sz \<le> 0 then 4096 else nat sz), bw_err = None\<rparr>"

definition bufw_reset :: "bufw \<Rightarrow> sink \<Rightarrow> bufw" where
  "bufw_reset b w = b\<lparr>bw_wr := w, bw_buf := [], bw_err := None\<rparr>"

definition bufw_flush :: "bufw \<Rightarrow> gerr option \<times> bufw" where
  "bufw_flush b =
     (case bw_err b of
        Some e \<Rightarrow> (Some e, b)
      | None \<Rightarrow>
          if bw_buf b = [] then (None, b)
          else
            (let (n, err0, w) = sink_write (bw_wr b) (bw_buf b);
                 err = (if n < length (bw_buf b) \<and> err0 = None then Some io_ErrShortWrite else err0)
             in case err of
                  Some e \<Rightarrow>
                    (Some e, b\<lparr>bw_wr := w, bw_buf := drop n (bw_buf b), bw_err := Some e\<rparr>)
                | None \<Rightarrow> (None, b\<lparr>bw_wr := w, bw_buf := []\<rparr>)))"

definition bufw_available :: "bufw \<Rightarrow> nat" where
  "bufw_available b = bw_size b - length (bw_buf b)"

text \<open>The body of the loop in \<open>bufio.Writer.Write\<close>: a direct write of a large slice when the
  buffer is empty, otherwise fill the buffer and flush it.\<close>

definition bufw_spill :: "bufw \<Rightarrow> bytes \<Rightarrow> nat \<times> bufw" where
  "bufw_spill b p =
     (if bw_buf b = [] then
        (let (n, err, w) = sink_write (bw_wr b) p in (n, b\<lparr>bw_wr := w, bw_err := err\<rparr>))
      else
        (let n = min (bufw_available b) (length p)
         in (n, snd (bufw_flush (b\<lparr>bw_buf := bw_buf b @ take n p\<rparr>)))))"

lemma sink_write_ok:
  assumes "sink_write s p = (n, None, s')"
  shows "n = length p" and "sk_out s' = sk_out s @ p" and "sk_close s' = sk_close s"
  using assms by (auto simp: sink_write_def split: list.splits option.splits)

lemma bufw_spill_measure:
  assumes "bufw_available b < length p" and "bw_err b = None"
    and "bufw_spill b p = (n, b')" and "bw_err b' = None"
  shows "length (drop n p) + length (bw_buf b') < length p + length (bw_buf b)"
proof (cases "bw_buf b = []")
  case True
  with assms(3,4) have "sink_write (bw_wr b) p = (n, None, bw_wr b')" and "bw_buf b' = []"
    by (auto simp: bufw_spill_def split: prod.splits)
  moreover from this(1) have "n = length p"
    by (rule sink_write_ok)
  ultimately show ?thesis
    using assms(1) True by auto
next
  case False
  then have "bw_buf b' = []"
    using assms by (auto simp: bufw_spill_def bufw_flush_def Let_def split: prod.splits option.splits if_splits)
  with False show ?thesis by (cases "bw_buf b") auto
qed

function bufw_write :: "bufw \<Rightarrow> bytes \<Rightarrow> gerr option \<times> bufw" where
  "bufw_write b p =
     (if bufw_available b < length p \<and> bw_err b = None
      then (case bufw_spill b p of (n, b') \<Rightarrow> bufw_write b' (drop n p))
      else case bw_err b of
             Some e \<Rightarrow> (Some e, b)
           | None \<Rightarrow> (None, b\<lparr>bw_buf := bw_buf b @ p\<rparr>))"
  by pat_completeness auto
termination
  by (relation "measure (\<lambda>(b, p). if bw_err b = None then Suc (length p + length (bw_buf b)) else 0)")
    (auto dest!: bufw_spill_measure [OF _ _ sym])

declare bufw_write.simps [simp del]

subsection \<open>writer.go\<close>

record Writer =
  w_bw :: bufw
  w_bufSize :: int
  w_offset :: nat
  w_syncOnFlush :: bool
  w_closed :: bool
  w_err :: "gerr option"

type_synonym WriterOption = "Writer \<Rightarrow> Writer"

definition WithWriterBufferSize :: "int \<Rightarrow> WriterOption" where
  "WithWriterBufferSize sz w = (if sz > 0 then w\<lparr>w_bufSize := sz\<rparr> else w)"

definition WithWriterSyncOnFlush :: "bool \<Rightarrow> WriterOption" where
  "WithWriterSyncOnFlush sync w = w\<lparr>w_syncOnFlush := sync\<rparr>"

definition NewWriter :: "sink \<Rightarrow> WriterOption list \<Rightarrow> Writer" where
  "NewWriter out opts =
     (let w0 = \<lparr>w_bw = bufio_NewWriterSize out 0, w_bufSize = DefaultBufferSize, w_offset = 0,
                w_syncOnFlush = False, w_closed = False, w_err = None\<rparr>;
          w1 = fold (\<lambda>opt w. opt w) opts w0
      in w1\<lparr>w_bw := bufio_NewWriterSize out (w_bufSize w1)\<rparr>)"

definition Writer_Reset :: "Writer \<Rightarrow> sink \<Rightarrow> Writer" where
  "Writer_Reset w out =
     w\<lparr>w_bw := bufw_reset (w_bw w) out, w_offset := 0, w_closed := False, w_err := None\<rparr>"

definition frame_header :: "bytes \<Rightarrow> bytes" where
  "frame_header record =
     (let lenbytes = le_bytes 8 (of_nat (length record) :: u64)
      in lenbytes @ le_bytes 4 (computeMaskedCRC lenbytes))"

definition frame_footer :: "bytes \<Rightarrow> bytes" where
  "frame_footer record = le_bytes 4 (computeMaskedCRC record)"

text \<open>The result of \<open>WriteRecord\<close> is \<open>(n, offset, err)\<close>.\<close>

definition WriteRecord :: "Writer \<Rightarrow> bytes \<Rightarrow> (nat \<times> nat \<times> gerr option) \<times> Writer" where
  "WriteRecord w record =
     (case w_err w of
        Some e \<Rightarrow> ((0, w_offset w, Some e), w)
      | None \<Rightarrow>
          if w_closed w then ((0, w_offset w, Some os_ErrClosed), w)
          else
            (let startOffset = w_offset w
             in case bufw_write (w_bw w) (frame_header record) of
                  (Some e, b1) \<Rightarrow> ((0, startOffset, Some e), w\<lparr>w_bw := b1, w_err := Some e\<rparr>)
                | (None, b1) \<Rightarrow>
                    (case (if record \<noteq> [] then bufw_write b1 record else (None, b1)) of
                       (Some e, b2) \<Rightarrow> ((0, startOffset, Some e), w\<lparr>w_bw := b2, w_err := Some e\<rparr>)
                     | (None, b2) \<Rightarrow>
                         (case bufw_write b2 (frame_footer record) of
                            (Some e, b3) \<Rightarrow>
                              ((0, startOffset, Some e), w\<lparr>w_bw := b3, w_err := Some e\<rparr>)
                          | (None, b3) \<Rightarrow>
                              (let totalWritten = frameOverhead + length record
                               in ((totalWritten, startOffset, None),
                                   w\<lparr>w_bw := b3, w_offset := w_offset w + totalWritten\<rparr>))))))"

definition Writer_Offset :: "Writer \<Rightarrow> nat" where
  "Writer_Offset w = w_offset w"

definition Writer_Sync :: "Writer \<Rightarrow> gerr option \<times> Writer" where
  "Writer_Sync w =
     (case w_err w of
        Some e \<Rightarrow> (Some e, w)
      | None \<Rightarrow>
          (case bufw_flush (w_bw w) of
             (Some e, b) \<Rightarrow> (Some e, w\<lparr>w_bw := b, w_err := Some e\<rparr>)
           | (None, b) \<Rightarrow> (None, w\<lparr>w_bw := b\<rparr>)))"

definition Writer_Flush :: "Writer \<Rightarrow> gerr option \<times> Writer" where
  "Writer_Flush w =
     (if w_syncOnFlush w then Writer_Sync w
      else case w_err w of
        Some e \<Rightarrow> (Some e, w)
      | None \<Rightarrow>
          (case bufw_flush (w_bw w) of
             (Some e, b) \<Rightarrow> (Some e, w\<lparr>w_bw := b, w_err := Some e\<rparr>)
           | (None, b) \<Rightarrow> (None, w\<lparr>w_bw := b\<rparr>)))"

definition Writer_Close :: "Writer \<Rightarrow> gerr option \<times> Writer" where
  "Writer_Close w =
     (if w_closed w then (None, w)
      else
        (let (flushErr, w1) = Writer_Flush w;
             w2 = w1\<lparr>w_closed := True\<rparr>
         in case sk_close (bw_wr (w_bw w2)) of
              Some closeErr \<Rightarrow> (if flushErr \<noteq> None then flushErr else closeErr, w2)
            | None \<Rightarrow> (flushErr, w2)))"

text \<open>The loop a batch of records is written with: it stops at the first error.\<close>

fun write_records :: "Writer \<Rightarrow> bytes list \<Rightarrow> gerr option \<times> Writer" where
  "write_records w [] = (None, w)"
| "write_records w (r # rs) =
     (case WriteRecord w r of
        ((_, _, Some e), w') \<Rightarrow> (Some e, w')
      | ((_, _, None), w') \<Rightarrow> write_records w' rs)"

subsection \<open>What a frame is\<close>

definition frame :: "bytes \<Rightarrow> bytes" where
  "frame record = frame_header record @ record @ frame_footer record"

definition frames :: "bytes list \<Rightarrow> bytes" where
  "frames rs = concat (map frame rs)"

lemma length_frame_header [simp, frame_simps]: "length (frame_header r) = headerSize"
  by (simp add: frame_header_def headerSize_def Let_def)

lemma length_frame_footer [simp, frame_simps]: "length (frame_footer r) = footerSize"
  by (simp add: frame_footer_def footerSize_def)

lemma length_frame [simp, frame_simps]: "length (frame r) = frameOverhead + length r"
  by (simp add: frame_def headerSize_def footerSize_def frameOverhead_def)

lemma frames_simps [simp]:
  "frames [] = []" "frames (r # rs) = frame r @ frames rs" "frames (rs @ qs) = frames rs @ frames qs"
  by (simp_all add: frames_def)

subsection \<open>The buffered writer is transparent\<close>

text \<open>\<open>bufw_bytes\<close>: everything written so far, flushed or still buffered.\<close>

definition bufw_bytes :: "bufw \<Rightarrow> bytes" where
  "bufw_bytes b = sk_out (bw_wr b) @ bw_buf b"

lemma sink_write_out: "sink_write s p = (n, r, s') \<Longrightarrow>
    sk_out s' = sk_out s @ take n p \<and> n \<le> length p \<and> (r = None \<longrightarrow> n = length p)"
  by (auto simp: sink_write_def min_def split: list.splits option.splits)

lemma sink_write_no_script: "sk_script s = [] \<Longrightarrow>
    sink_write s p = (length p, None, s\<lparr>sk_out := sk_out s @ p\<rparr>)"
  by (simp add: sink_write_def)

lemma bufw_flush_bytes:
  assumes "bufw_flush b = (r, b')"
  shows "bufw_bytes b' = bufw_bytes b" and "bw_err b' = r" and "r = None \<Longrightarrow> bw_buf b' = []"
  using assms
  by (auto simp: bufw_flush_def bufw_bytes_def Let_def split: option.splits if_splits prod.splits
      dest: sink_write_out)

lemma bufw_spill_bytes:
  assumes "bufw_spill b p = (n, b')"
  shows "bufw_bytes b' = bufw_bytes b @ take n p" and "n \<le> length p"
proof -
  show "n \<le> length p"
    using assms by (auto simp: bufw_spill_def Let_def split: if_splits prod.splits dest: sink_write_out)
  show "bufw_bytes b' = bufw_bytes b @ take n p"
  proof (cases "bw_buf b = []")
    case True
    with assms show ?thesis
      by (auto simp: bufw_spill_def bufw_bytes_def split: prod.splits dest: sink_write_out)
  next
    case False
    let ?b = "b\<lparr>bw_buf := bw_buf b @ take n p\<rparr>"
    from False assms have "bufw_flush ?b = (fst (bufw_flush ?b), b')"
      by (auto simp: bufw_spill_def Let_def)
    from bufw_flush_bytes(1) [OF this] show ?thesis by (simp add: bufw_bytes_def)
  qed
qed

lemma bufw_write_bytes:
  assumes "bufw_write b p = (r, b')"
  shows "\<exists>q. prefix q p \<and> bufw_bytes b' = bufw_bytes b @ q \<and> (r = None \<longrightarrow> q = p) \<and> bw_err b' = r"
  using assms
proof (induction b p arbitrary: r b' rule: bufw_write.induct)
  case (1 b p)
  show ?case
  proof (cases "bufw_available b < length p \<and> bw_err b = None")
    case True
    obtain n b1 where sp: "bufw_spill b p = (n, b1)" by fastforce
    with True "1.prems" have "bufw_write b1 (drop n p) = (r, b')"
      by (simp add: bufw_write.simps [of b p])
    from "1.IH" [OF True sp [symmetric] this] obtain q
      where q: "prefix q (drop n p)" "bufw_bytes b' = bufw_bytes b1 @ q"
        "r = None \<longrightarrow> q = drop n p" "bw_err b' = r"
      by blast
    have "prefix (take n p @ q) p"
      using q(1) by (metis append_take_drop_id same_prefix_prefix)
    with q bufw_spill_bytes(1) [OF sp] show ?thesis
      by (intro exI [of _ "take n p @ q"]) auto
  next
    case False
    with "1.prems" show ?thesis
      by (auto simp: bufw_write.simps [of b p] bufw_bytes_def split: option.splits)
  qed
qed

lemma bufw_write_healthy:
  assumes "bufw_write b p = (r, b')" and "bw_err b = None" and "sk_script (bw_wr b) = []"
  shows "r = None \<and> bw_err b' = None \<and> sk_script (bw_wr b') = [] \<and> sk_close (bw_wr b') = sk_close (bw_wr b)"
  using assms
proof (induction b p arbitrary: r b' rule: bufw_write.induct)
  case (1 b p)
  show ?case
  proof (cases "bufw_available b < length p \<and> bw_err b = None")
    case True
    obtain n b1 where sp: "bufw_spill b p = (n, b1)" by fastforce
    have "bw_err b1 = None \<and> sk_script (bw_wr b1) = [] \<and> sk_close (bw_wr b1) = sk_close (bw_wr b)"
      using sp "1.prems"(2,3)
      by (auto simp: bufw_spill_def bufw_flush_def Let_def sink_write_no_script split: if_splits)
    with "1.IH" [OF True sp [symmetric], of r b'] "1.prems"(1) True sp show ?thesis
      by (simp add: bufw_write.simps [of b p])
  next
    case False
    with "1.prems" show ?thesis by (auto simp: bufw_write.simps [of b p])
  qed
qed

subsection \<open>The framed writer\<close>

definition Writer_bytes :: "Writer \<Rightarrow> bytes" where
  "Writer_bytes w = bufw_bytes (w_bw w)"

definition Writer_out :: "Writer \<Rightarrow> bytes" where
  "Writer_out w = sk_out (bw_wr (w_bw w))"

definition Writer_healthy :: "Writer \<Rightarrow> bool" where
  "Writer_healthy w \<longleftrightarrow>
     w_err w = None \<and> \<not> w_closed w \<and> bw_err (w_bw w) = None \<and> sk_script (bw_wr (w_bw w)) = []"

lemma Writer_out_prefix: "prefix (Writer_out w) (Writer_bytes w)"
  by (simp add: Writer_out_def Writer_bytes_def bufw_bytes_def)

text \<open>\<open>WriteRecord\<close> on a live writer is a sequence of buffered writes that stops at the first
  error: the header, the payload unless it is empty, the footer.\<close>

fun bufw_writes :: "bufw \<Rightarrow> bytes list \<Rightarrow> gerr option \<times> bufw" where
  "bufw_writes b [] = (None, b)"
| "bufw_writes b (c # cs) =
     (case bufw_write b c of (Some e, b') \<Rightarrow> (Some e, b') | (None, b') \<Rightarrow> bufw_writes b' cs)"

definition frame_chunks :: "bytes \<Rightarrow> bytes list" where
  "frame_chunks r = frame_header r # (if r \<noteq> [] then [r] else []) @ [frame_footer r]"

lemma concat_frame_chunks: "concat (frame_chunks r) = frame r"
  by (simp add: frame_chunks_def frame_def)

lemma WriteRecord_live:
  assumes "w_err w = None" and "\<not> w_closed w"
  shows "WriteRecord w r =
    (case bufw_writes (w_bw w) (frame_chunks r) of
       (Some e, b) \<Rightarrow> ((0, w_offset w, Some e), w\<lparr>w_bw := b, w_err := Some e\<rparr>)
     | (None, b) \<Rightarrow> ((frameOverhead + length r, w_offset w, None),
         w\<lparr>w_bw := b, w_offset := w_offset w + (frameOverhead + length r)\<rparr>))"
  using assms by (auto simp: WriteRecord_def frame_chunks_def Let_def split: prod.splits option.splits)

lemma bufw_writes_bytes:
  assumes "bufw_writes b cs = (r, b')"
  shows "\<exists>q. prefix q (concat cs) \<and> bufw_bytes b' = bufw_bytes b @ q \<and> (r = None \<longrightarrow> q = concat cs)"
  using assms
proof (induction cs arbitrary: b)
  case Nil
  then show ?case by simp
next
  case (Cons c cs)
  obtain x b1 where w: "bufw_write b c = (x, b1)" by fastforce
  from bufw_write_bytes [OF w] obtain q where q: "prefix q c" "bufw_bytes b1 = bufw_bytes b @ q"
    "x = None \<longrightarrow> q = c" by blast
  show ?case
  proof (cases x)
    case None
    with Cons w obtain q' where "prefix q' (concat cs)" "bufw_bytes b' = bufw_bytes b1 @ q'"
      "r = None \<longrightarrow> q' = concat cs" by fastforce
    with q None show ?thesis by (intro exI [of _ "c @ q'"]) simp
  next
    case (Some e)
    with Cons.prems w q show ?thesis by (intro exI [of _ q]) (auto simp: prefix_def)
  qed
qed

lemma bufw_writes_healthy:
  assumes "bufw_writes b cs = (r, b')" and "bw_err b = None" and "sk_script (bw_wr b) = []"
  shows "r = None \<and> bw_err b' = None \<and> sk_script (bw_wr b') = [] \<and> sk_close (bw_wr b') = sk_close (bw_wr b)"
  using assms
proof (induction cs arbitrary: b)
  case (Cons c cs)
  obtain x b1 where w: "bufw_write b c = (x, b1)" by fastforce
  from bufw_write_healthy [OF w Cons.prems(2,3)] Cons w show ?case by auto
qed simp

text \<open>One lemma covers every branch of \<open>WriteRecord\<close>: what it appends is the frame on success and
  a prefix of the frame on failure, the offset moves only on success, and a write error is kept.\<close>

lemma WriteRecord_cases:
  assumes "WriteRecord w r = ((n, off, res), w')"
  obtains
    (refused) e where "res = Some e" "n = 0" "w' = w" "w_err w = Some e \<or> (w_closed w \<and> e = os_ErrClosed)"
  | (failed) e q where "res = Some e" "n = 0" "w_err w = None" "\<not> w_closed w" "w_err w' = Some e"
      "w_offset w' = w_offset w" "w_closed w' = w_closed w" "prefix q (frame r)"
      "Writer_bytes w' = Writer_bytes w @ q"
  | (ok) "res = None" "n = frameOverhead + length r" "w_err w = None" "\<not> w_closed w" "w_err w' = None"
      "w_closed w' = w_closed w" "w_offset w' = w_offset w + n"
      "Writer_bytes w' = Writer_bytes w @ frame r"
proof (cases "w_err w = None \<and> \<not> w_closed w")
  case False
  then consider e where "w_err w = Some e" | "w_err w = None" "w_closed w" by auto
  then show ?thesis
  proof cases
    case (1 e)
    with assms that(1) [of e] show ?thesis by (simp add: WriteRecord_def)
  next
    case 2
    with assms that(1) show ?thesis by (simp add: WriteRecord_def)
  qed
next
  case True
  then have live: "w_err w = None" "\<not> w_closed w" by auto
  obtain x b where ws: "bufw_writes (w_bw w) (frame_chunks r) = (x, b)" by fastforce
  from bufw_writes_bytes [OF ws] obtain q where q: "prefix q (frame r)"
    "bufw_bytes b = bufw_bytes (w_bw w) @ q" "x = None \<longrightarrow> q = frame r"
    by (auto simp: concat_frame_chunks)
  show ?thesis
  proof (cases x)
    case (Some e)
    with assms live ws q that(2) [of e q] show ?thesis
      by (auto simp: WriteRecord_live Writer_bytes_def)
  next
    case None
    with assms live ws q that(3) show ?thesis
      by (auto simp: WriteRecord_live Writer_bytes_def)
  qed
qed

text \<open>A writer over a sink that never fails never fails.\<close>

lemma WriteRecord_healthy:
  assumes "Writer_healthy w"
  shows "\<exists>w'. WriteRecord w r = ((frameOverhead + length r, w_offset w, None), w')
    \<and> Writer_healthy w' \<and> sk_close (bw_wr (w_bw w')) = sk_close (bw_wr (w_bw w))"
proof -
  obtain x b where ws: "bufw_writes (w_bw w) (frame_chunks r) = (x, b)" by fastforce
  from bufw_writes_healthy [OF ws] assms show ?thesis
    by (auto simp: WriteRecord_live ws Writer_healthy_def)
qed

lemma write_records_healthy:
  assumes "Writer_healthy w"
  shows "\<exists>w'. write_records w rs = (None, w') \<and> Writer_healthy w'
    \<and> Writer_bytes w' = Writer_bytes w @ frames rs
    \<and> w_offset w' = w_offset w + length (frames rs)
    \<and> sk_close (bw_wr (w_bw w')) = sk_close (bw_wr (w_bw w))"
  using assms
proof (induction rs arbitrary: w)
  case (Cons r rs)
  from WriteRecord_healthy [OF Cons.prems] obtain w1
    where w1: "WriteRecord w r = ((frameOverhead + length r, w_offset w, None), w1)"
      "Writer_healthy w1" "sk_close (bw_wr (w_bw w1)) = sk_close (bw_wr (w_bw w))" by blast
  from w1(1) have "Writer_bytes w1 = Writer_bytes w @ frame r"
    and "w_offset w1 = w_offset w + length (frame r)"
    by (auto elim: WriteRecord_cases)
  with Cons.IH [OF w1(2)] w1 show ?case by auto
qed simp

lemma Writer_Flush_eq_Sync: "Writer_Flush w = Writer_Sync w"
  by (simp add: Writer_Flush_def Writer_Sync_def)

lemma Writer_Sync_bytes:
  assumes "Writer_Sync w = (r, w')"
  shows "Writer_bytes w' = Writer_bytes w" and "w_offset w' = w_offset w"
    and "r = None \<Longrightarrow> Writer_out w' = Writer_bytes w'"
  using assms
  by (auto simp: Writer_Sync_def Writer_bytes_def Writer_out_def split: option.splits prod.splits
      dest: bufw_flush_bytes) (auto simp: bufw_bytes_def dest: bufw_flush_bytes)

lemma Writer_Close_healthy:
  assumes "Writer_healthy w" and "sk_close (bw_wr (w_bw w)) = None"
  shows "\<exists>w'. Writer_Close w = (None, w') \<and> Writer_out w' = Writer_bytes w \<and> w_closed w'"
  using assms
  by (auto simp: Writer_Close_def Writer_Flush_eq_Sync Writer_Sync_def Writer_healthy_def bufw_flush_def
      Writer_out_def Writer_bytes_def bufw_bytes_def sink_write_no_script Let_def)

lemma NewWriter_bytes_Buffer:
  "Writer_healthy (NewWriter bytes_Buffer [])" "Writer_bytes (NewWriter bytes_Buffer []) = []"
  "sk_close (bw_wr (w_bw (NewWriter bytes_Buffer []))) = None"
  "w_offset (NewWriter bytes_Buffer []) = 0"
  by (simp_all add: NewWriter_def bytes_Buffer_def bufio_NewWriterSize_def Writer_healthy_def
      Writer_bytes_def bufw_bytes_def Let_def)

end
