(* ===== verification/Recordio_Scanner.thy ===== *)
theory Recordio_Scanner
  imports Recordio_Writer
begin

text \<open>
  \<open>src/recordio/scanner.go\<close>: the framed scanner over \<open>bufio.Reader\<close>.

  The \<open>io.Reader\<close> underneath is a \<open>source\<close>: the bytes it has left, a script that limits how
  many bytes each future \<open>Read\<close> returns (an exhausted script returns as many as asked for), the
  error it reports when nothing is left (\<open>io.EOF\<close>, or the error of a failing device), and what its
  \<open>Seek\<close> returns (\<open>None\<close> when it has no \<open>Seek\<close>). The buffered reader keeps its buffer
  explicitly, because \<open>Skip\<close> looks at it. The scratch arrays \<open>header\<close> and \<open>footer\<close> of the
  struct are values here, and the offsets, \<open>int64\<close> in the code, are natural numbers.

  \<open>parse_frame\<close> is the specification: what one \<open>Scan\<close> does to the bytes that are left, with no
  buffer in sight. \<open>Scan_parse\<close> and \<open>Skip_parse\<close> show that the scanner implements it whatever
  the buffer size and the sizes of the reads.
\<close>

subsection \<open>The standard library's buffered reader\<close>

record source =
  src_rest :: bytes
  src_chunks :: "nat list"
  src_end :: gerr
  src_seek :: "gerr option option"

definition bytes_Reader :: "bytes \<Rightarrow> source" where
  "bytes_Reader data = \<lparr>src_rest = data, src_chunks = [], src_end = io_EOF, src_seek = Some None\<rparr>"

definition src_read :: "source \<Rightarrow> nat \<Rightarrow> bytes \<times> gerr option \<times> source" where
  "src_read s n =
     (if src_rest s = [] then ([], Some (src_end s), s)
      else
        (let k = (case src_chunks s of [] \<Rightarrow> n | c # _ \<Rightarrow> min n (Suc c))
         in (take k (src_rest s), None,
             s\<lparr>src_rest := drop k (src_rest s), src_chunks := tl (src_chunks s)\<rparr>)))"

record bufr =
  br_rd :: source
  br_buf :: bytes
  br_size :: nat

definition bufio_NewReaderSize :: "source \<Rightarrow> int \<Rightarrow> bufr" where
  "bufio_NewReaderSize r sz = \<lparr>br_rd = r, br_buf = [], br_size = max (nat sz) 16\<rparr>"

definition bufr_read :: "bufr \<Rightarrow> nat \<Rightarrow> bytes \<times> gerr option \<times> bufr" where
  "bufr_read b n =
     (if br_buf b \<noteq> [] then (take n (br_buf b), None, b\<lparr>br_buf := drop n (br_buf b)\<rparr>)
      else if br_size b \<le> n then
        (case src_read (br_rd b) n of (got, err, r) \<Rightarrow> (got, err, b\<lparr>br_rd := r\<rparr>))
      else
        (case src_read (br_rd b) (br_size b) of
           (got, err, r) \<Rightarrow>
             if got = [] then ([], err, b\<lparr>br_rd := r\<rparr>)
             else (take n got, None, b\<lparr>br_rd := r, br_buf := drop n got\<rparr>)))"

text \<open>All the bytes the reader has left, buffered or not.\<close>

definition bufr_avail :: "bufr \<Rightarrow> bytes" where
  "bufr_avail b = br_buf b @ src_rest (br_rd b)"

definition same_device :: "bufr \<Rightarrow> bufr \<Rightarrow> bool" where
  "same_device b b' \<longleftrightarrow>
     src_end (br_rd b') = src_end (br_rd b) \<and> src_seek (br_rd b') = src_seek (br_rd b)
     \<and> br_size b' = br_size b"

lemma same_device_refl [simp]: "same_device b b"
  by (simp add: same_device_def)

lemma same_device_trans: "same_device a b \<Longrightarrow> same_device b c \<Longrightarrow> same_device a c"
  by (simp add: same_device_def)

lemma src_read_spec:
  assumes "src_read s n = (got, err, s')" and "0 < n"
  shows "src_rest s = got @ src_rest s'" and "length got \<le> n"
    and "got = [] \<longleftrightarrow> src_rest s = []" and "err = (if got = [] then Some (src_end s) else None)"
    and "src_end s' = src_end s" and "src_seek s' = src_seek s"
  using assms by (auto simp: src_read_def Let_def split: if_splits list.splits)

lemma bufr_read_spec:
  assumes "bufr_read b n = (got, err, b')" and "0 < n"
  shows "bufr_avail b = got @ bufr_avail b' \<and> length got \<le> n
    \<and> (got = [] \<longleftrightarrow> bufr_avail b = [])
    \<and> err = (if got = [] then Some (src_end (br_rd b)) else None) \<and> same_device b b'"
proof (cases "br_buf b = []")
  case False
  with assms show ?thesis
    by (auto simp: bufr_read_def bufr_avail_def same_device_def)
next
  case True
  show ?thesis
  proof (cases "br_size b \<le> n")
    case direct: True
    obtain g e r where rd: "src_read (br_rd b) n = (g, e, r)" by (cases "src_read (br_rd b) n")
    with direct True assms(1) have "got = g" "err = e" "b' = b\<lparr>br_rd := r\<rparr>"
      by (auto simp: bufr_read_def)
    with src_read_spec [OF rd assms(2)] True show ?thesis
      by (auto simp: bufr_avail_def same_device_def)
  next
    case False
    obtain g e r where rd: "src_read (br_rd b) (br_size b) = (g, e, r)"
      by (cases "src_read (br_rd b) (br_size b)")
    from False have "0 < br_size b" by simp
    note r = src_read_spec [OF rd this]
    show ?thesis
    proof (cases "g = []")
      case empty: True
      with False True assms(1) rd have "got = []" "err = e" "b' = b\<lparr>br_rd := r\<rparr>"
        by (auto simp: bufr_read_def)
      with r empty True show ?thesis by (simp add: bufr_avail_def same_device_def)
    next
      case nonempty: False
      with False True assms(1) rd
      have "got = take n g" "err = None" "b' = b\<lparr>br_rd := r, br_buf := drop n g\<rparr>"
        by (auto simp: bufr_read_def)
      with r(1,5,6) nonempty True assms(2) show ?thesis
        by (simp add: bufr_avail_def same_device_def)
    qed
  qed
qed

text \<open>\<open>io.ReadFull\<close>, the loop of \<open>io.ReadAtLeast\<close>: the error is \<open>io.EOF\<close> only when
  nothing was read, and \<open>io.ErrUnexpectedEOF\<close> after a partial read.\<close>

definition full_result :: "nat \<Rightarrow> bytes \<Rightarrow> gerr option \<Rightarrow> gerr option" where
  "full_result n acc err =
     (if n \<le> length acc then None
      else if acc \<noteq> [] \<and> err = Some io_EOF then Some io_ErrUnexpectedEOF else err)"

function read_full_from :: "bufr \<Rightarrow> nat \<Rightarrow> bytes \<Rightarrow> bytes \<times> gerr option \<times> bufr" where
  "read_full_from b n acc =
     (if length acc < n then
        (case bufr_read b (n - length acc) of
           (got, None, b') \<Rightarrow> read_full_from b' n (acc @ got)
         | (got, Some e, b') \<Rightarrow> (acc @ got, full_result n (acc @ got) (Some e), b'))
      else (acc, full_result n acc None, b))"
  by pat_completeness auto
termination
  by (relation "measure (\<lambda>(b, n, acc). n - length acc)")
    (auto dest!: bufr_read_spec [OF sym] split: if_splits simp flip: length_greater_0_conv)

declare read_full_from.simps [simp del]

definition read_full :: "bufr \<Rightarrow> nat \<Rightarrow> bytes \<times> gerr option \<times> bufr" where
  "read_full b n = read_full_from b n []"

lemma read_full_from_spec:
  assumes "read_full_from b n acc = (got, err, b')" and "length acc \<le> n"
  shows "same_device b b' \<and>
    (if n \<le> length acc + length (bufr_avail b)
     then got = take n (acc @ bufr_avail b) \<and> err = None
       \<and> bufr_avail b' = drop n (acc @ bufr_avail b)
     else got = acc @ bufr_avail b \<and> bufr_avail b' = []
       \<and> err = full_result n got (Some (src_end (br_rd b))))"
  using assms
proof (induction b n acc arbitrary: got err b' rule: read_full_from.induct)
  case (1 b n acc)
  show ?case
  proof (cases "length acc < n")
    case False
    with "1.prems" show ?thesis
      by (simp add: read_full_from.simps [of b n acc] full_result_def)
  next
    case True
    obtain g e b1 where rd: "bufr_read b (n - length acc) = (g, e, b1)"
      by (cases "bufr_read b (n - length acc)")
    from True have "0 < n - length acc" by simp
    note spec = bufr_read_spec [OF rd this]
    show ?thesis
    proof (cases "g = []")
      case empty: True
      with spec have av: "bufr_avail b = []" "bufr_avail b1 = []" and "e = Some (src_end (br_rd b))"
        and "same_device b b1"
        by auto
      with "1.prems" True rd empty show ?thesis
        by (auto simp: read_full_from.simps [of b n acc])
    next
      case False
      with spec have e: "e = None" by simp
      with rd True "1.prems" have rec: "read_full_from b1 n (acc @ g) = (got, err, b')"
        by (simp add: read_full_from.simps [of b n acc])
      from spec have av: "bufr_avail b = g @ bufr_avail b1" and dev: "same_device b b1" by auto
      from spec True have "length (acc @ g) \<le> n" by auto
      from "1.IH" [OF True rd [symmetric] _ e rec this] dev
      show ?thesis
        unfolding av by (simp add: same_device_def add.assoc)
    qed
  qed
qed

lemma read_full_enough:
  assumes "n \<le> length (bufr_avail b)"
  obtains b' where "read_full b n = (take n (bufr_avail b), None, b')"
    and "bufr_avail b' = drop n (bufr_avail b)" and "same_device b b'"
proof -
  obtain g e b' where r: "read_full_from b n [] = (g, e, b')" by (cases "read_full_from b n []")
  from read_full_from_spec [OF r] assms that [of b'] r show ?thesis
    by (simp add: read_full_def)
qed

lemma read_full_short:
  assumes "length (bufr_avail b) < n"
  obtains b' where "read_full b n =
      (bufr_avail b, full_result n (bufr_avail b) (Some (src_end (br_rd b))), b')"
    and "bufr_avail b' = []" and "same_device b b'"
proof -
  obtain g e b' where r: "read_full_from b n [] = (g, e, b')" by (cases "read_full_from b n []")
  from read_full_from_spec [OF r] assms that [of b'] r show ?thesis
    by (simp add: read_full_def)
qed

text \<open>\<open>bufio.Reader.Discard\<close> of bytes that are buffered, the reader's \<open>Seek\<close> relative to
  the current position followed by \<open>bufio.Reader.Reset\<close>, and \<open>io.CopyN(io.Discard, ...)\<close>,
  which reads through the buffer in slices of at most 8192 bytes.\<close>

definition bufr_discard_buffered :: "bufr \<Rightarrow> nat \<Rightarrow> bufr" where
  "bufr_discard_buffered b d = b\<lparr>br_buf := drop d (br_buf b)\<rparr>"

definition bufr_seek_reset :: "bufr \<Rightarrow> nat \<Rightarrow> bufr" where
  "bufr_seek_reset b n =
     b\<lparr>br_rd := (br_rd b)\<lparr>src_rest := drop n (src_rest (br_rd b))\<rparr>, br_buf := []\<rparr>"

function copy_n_discard :: "bufr \<Rightarrow> nat \<Rightarrow> gerr option \<times> bufr" where
  "copy_n_discard b n =
     (if n = 0 then (None, b)
      else case bufr_read b (min 8192 n) of
             (got, None, b') \<Rightarrow> copy_n_discard b' (n - length got)
           | (got, Some e, b') \<Rightarrow> (Some e, b'))"
  by pat_completeness auto
termination
  by (relation "measure (\<lambda>(b, n). n)")
    (auto dest!: bufr_read_spec [OF sym] split: if_splits simp flip: length_greater_0_conv)

declare copy_n_discard.simps [simp del]

lemma copy_n_discard_spec:
  assumes "copy_n_discard b n = (err, b')"
  shows "same_device b b' \<and>
    (if n \<le> length (bufr_avail b) then err = None \<and> bufr_avail b' = drop n (bufr_avail b)
     else err = Some (src_end (br_rd b)) \<and> bufr_avail b' = [])"
  using assms
proof (induction b n arbitrary: err b' rule: copy_n_discard.induct)
  case (1 b n)
  show ?case
  proof (cases "n = 0")
    case True
    with "1.prems" show ?thesis by (simp add: copy_n_discard.simps [of b 0])
  next
    case False
    obtain g e b1 where rd: "bufr_read b (min 8192 n) = (g, e, b1)"
      by (cases "bufr_read b (min 8192 n)")
    from False have "0 < min 8192 n" by simp
    note spec = bufr_read_spec [OF rd this]
    show ?thesis
    proof (cases "g = []")
      case True
      with spec have "bufr_avail b = []" "bufr_avail b1 = []" "e = Some (src_end (br_rd b))"
        "same_device b b1" by auto
      with "1.prems" False rd True show ?thesis
        by (auto simp: copy_n_discard.simps [of b n])
    next
      case nonempty: False
      with spec have e: "e = None" by simp
      with rd False "1.prems" have rec: "copy_n_discard b1 (n - length g) = (err, b')"
        by (simp add: copy_n_discard.simps [of b n])
      from spec have av: "bufr_avail b = g @ bufr_avail b1" and dev: "same_device b b1"
        and len: "length g \<le> n" by auto
      from "1.IH" [OF False rd [symmetric] _ e rec] dev len show ?thesis
        unfolding av by (auto simp: same_device_def)
    qed
  qed
qed

subsection \<open>scanner.go\<close>

record Scanner =
  s_br :: bufr
  s_bufSize :: int
  s_buf :: "bytes option"
  s_recordLen :: nat
  s_offset :: nat
  s_lastValidOffset :: nat
  s_maxRecordSize :: int
  s_err :: "gerr option"

type_synonym ScannerOption = "Scanner \<Rightarrow> Scanner"

definition WithScannerBufferSize :: "int \<Rightarrow> ScannerOption" where
  "WithScannerBufferSize sz s = (if sz > 0 then s\<lparr>s_bufSize := sz\<rparr> else s)"

definition WithScannerMaxRecordSize :: "int \<Rightarrow> ScannerOption" where
  "WithScannerMaxRecordSize mx s = (if mx > 0 then s\<lparr>s_maxRecordSize := mx\<rparr> else s)"

definition NewScanner :: "source \<Rightarrow> ScannerOption list \<Rightarrow> Scanner" where
  "NewScanner r opts =
     (let s0 = \<lparr>s_br = bufio_NewReaderSize r 0, s_bufSize = DefaultBufferSize, s_buf = None,
                s_recordLen = 0, s_offset = 0, s_lastValidOffset = 0,
                s_maxRecordSize = DefaultMaxRecordSize, s_err = None\<rparr>;
          s1 = fold (\<lambda>opt s. opt s) opts s0
      in s1\<lparr>s_br := bufio_NewReaderSize r (s_bufSize s1)\<rparr>)"

text \<open>The test \<open>errors.Is(err, io.EOF) || errors.Is(err, io.ErrUnexpectedEOF)\<close>.\<close>

definition is_eof :: "gerr \<Rightarrow> bool" where
  "is_eof e \<longleftrightarrow> errors_is e io_EOF \<or> errors_is e io_ErrUnexpectedEOF"

definition torn :: "gerr \<Rightarrow> gerr" where
  "torn e = (if is_eof e then ErrTornWrite else e)"

definition readHeader :: "Scanner \<Rightarrow> (u64 \<times> bool) \<times> Scanner" where
  "readHeader s0 =
     (let s1 = s0\<lparr>s_recordLen := 0\<rparr>
      in case read_full (s_br s1) headerSize of
           (header, Some err, br) \<Rightarrow>
             (let s = s1\<lparr>s_br := br\<rparr>
              in if header = [] \<and> is_eof err then ((0, False), s)
                 else ((0, False), s\<lparr>s_err := Some (torn err)\<rparr>))
         | (header, None, br) \<Rightarrow>
             (let s = s1\<lparr>s_br := br\<rparr>;
                  len = le_word (take 8 header) :: u64;
                  headerCRC = le_word (take 4 (drop 8 header)) :: u32
              in if computeMaskedCRC (take 8 header) \<noteq> headerCRC
                 then ((0, False), s\<lparr>s_err := Some ErrHeaderCorrupted\<rparr>)
                 else if word_of_int (s_maxRecordSize s) < len
                 then ((0, False), s\<lparr>s_err := Some ErrRecordTooLarge\<rparr>)
                 else ((len, True), s)))"

text \<open>\<open>s_buf\<close> is the backing array of the slice \<open>buf\<close>, as long as its capacity. A read fills its
  first bytes.\<close>

definition grow_buf :: "bytes option \<Rightarrow> nat \<Rightarrow> bytes" where
  "grow_buf buf reqLen =
     (case buf of
        None \<Rightarrow> replicate reqLen 0
      | Some a \<Rightarrow> if length a < reqLen then replicate reqLen 0 else a)"

definition fill_buf :: "bytes \<Rightarrow> bytes \<Rightarrow> bytes" where
  "fill_buf a got = got @ drop (length got) a"

definition Scan :: "Scanner \<Rightarrow> bool \<times> Scanner" where
  "Scan s =
     (case s_err s of
        Some _ \<Rightarrow> (False, s)
      | None \<Rightarrow>
          (let startOffset = s_lastValidOffset s
           in case readHeader s of
                ((_, False), s1) \<Rightarrow> (False, s1)
              | ((len, True), s1) \<Rightarrow>
                  (let reqLen = unat len;
                       s2 = s1\<lparr>s_buf := Some (grow_buf (s_buf s1) reqLen), s_recordLen := reqLen,
                               s_offset := startOffset\<rparr>;
                       (payload, perr, br) =
                         (if reqLen > 0 then read_full (s_br s2) reqLen else ([], None, s_br s2));
                       s3 = s2\<lparr>s_br := br, s_buf := map_option (\<lambda>a. fill_buf a payload) (s_buf s2)\<rparr>
                   in case perr of
                        Some err \<Rightarrow> (False, s3\<lparr>s_err := Some (torn err)\<rparr>)
                      | None \<Rightarrow>
                          (case read_full (s_br s3) footerSize of
                             (_, Some err, br') \<Rightarrow>
                               (False, s3\<lparr>s_br := br', s_err := Some (torn err)\<rparr>)
                           | (footer, None, br') \<Rightarrow>
                               (let s4 = s3\<lparr>s_br := br'\<rparr>;
                                    dataCRC = le_word (take 4 footer) :: u32
                                in if computeMaskedCRC (take reqLen (the (s_buf s4))) \<noteq> dataCRC
                                   then (False, s4\<lparr>s_err := Some ErrDataCorrupted\<rparr>)
                                   else (True, s4\<lparr>s_lastValidOffset :=
                                                startOffset + frameOverhead + reqLen\<rparr>))))))"

definition Scanner_Record :: "Scanner \<Rightarrow> bytes" where
  "Scanner_Record s = (case s_buf s of None \<Rightarrow> [] | Some a \<Rightarrow> take (s_recordLen s) a)"

definition Scanner_Offset :: "Scanner \<Rightarrow> nat" where
  "Scanner_Offset s = s_offset s"

definition LastValidOffset :: "Scanner \<Rightarrow> nat" where
  "LastValidOffset s = s_lastValidOffset s"

definition Scanner_Err :: "Scanner \<Rightarrow> gerr option" where
  "Scanner_Err s = s_err s"

definition Skip :: "Scanner \<Rightarrow> bool \<times> Scanner" where
  "Skip s =
     (case s_err s of
        Some _ \<Rightarrow> (False, s)
      | None \<Rightarrow>
          (let startOffset = s_lastValidOffset s
           in case readHeader s of
                ((_, False), s1) \<Rightarrow> (False, s1)
              | ((len, True), s1) \<Rightarrow>
                  (let payload = unat len;
                       buffered = length (br_buf (s_br s1));
                       b1 = bufr_discard_buffered (s_br s1) (min payload buffered);
                       (perr, b2) =
                         (if buffered < payload then
                            (case src_seek (br_rd b1) of
                               Some None \<Rightarrow> (None, bufr_seek_reset b1 (payload - buffered))
                             | Some (Some e) \<Rightarrow> (Some e, b1)
                             | None \<Rightarrow>
                                 (case copy_n_discard b1 (payload - buffered) of
                                    (Some e, b) \<Rightarrow> (Some (torn e), b)
                                  | (None, b) \<Rightarrow> (None, b)))
                          else (None, b1));
                       s2 = s1\<lparr>s_br := b2\<rparr>
                   in case perr of
                        Some err \<Rightarrow> (False, s2\<lparr>s_err := Some err\<rparr>)
                      | None \<Rightarrow>
                          (case read_full (s_br s2) footerSize of
                             (_, Some err, br') \<Rightarrow>
                               (False, s2\<lparr>s_br := br', s_err := Some (torn err)\<rparr>)
                           | (_, None, br') \<Rightarrow>
                               (True, s2\<lparr>s_br := br', s_offset := startOffset,
                                         s_lastValidOffset :=
                                           startOffset + frameOverhead + payload\<rparr>)))))"

subsection \<open>The specification of one scan\<close>

datatype parsed = PEnd | PError gerr | PRecord bytes bytes

definition parse_header :: "int \<Rightarrow> bytes \<Rightarrow> u64 result" where
  "parse_header mx hdr =
     (let len = le_word (take 8 hdr) :: u64
      in if computeMaskedCRC (take 8 hdr) \<noteq> le_word (take 4 (drop 8 hdr)) then Inl ErrHeaderCorrupted
         else if word_of_int mx < len then Inl ErrRecordTooLarge
         else Inr len)"

definition parse_frame :: "int \<Rightarrow> gerr \<Rightarrow> bytes \<Rightarrow> parsed" where
  "parse_frame mx en bs =
     (if bs = [] then (if is_eof en then PEnd else PError en)
      else if length bs < headerSize then PError (torn en)
      else case parse_header mx (take headerSize bs) of
             Inl e \<Rightarrow> PError e
           | Inr len \<Rightarrow>
               (let n = unat len; rest = drop headerSize bs
                in if length rest < n + footerSize then PError (torn en)
                   else if computeMaskedCRC (take n rest) \<noteq> le_word (take footerSize (drop n rest))
                   then PError ErrDataCorrupted
                   else PRecord (take n rest) (drop (n + footerSize) rest)))"

definition Scanner_avail :: "Scanner \<Rightarrow> bytes" where
  "Scanner_avail s = bufr_avail (s_br s)"

definition Scanner_end :: "Scanner \<Rightarrow> gerr" where
  "Scanner_end s = src_end (br_rd (s_br s))"

definition same_config :: "Scanner \<Rightarrow> Scanner \<Rightarrow> bool" where
  "same_config s s' \<longleftrightarrow> s_maxRecordSize s' = s_maxRecordSize s \<and> same_device (s_br s) (s_br s')"

lemma same_config_refl [simp]: "same_config s s"
  by (simp add: same_config_def)

lemma torn_full_result:
  "length acc < n \<Longrightarrow> torn (the (full_result n acc (Some en))) = torn en"
  by (auto simp: full_result_def torn_def is_eof_def)

lemma full_result_short: "length acc < n \<Longrightarrow> \<exists>e. full_result n acc (Some en) = Some e"
  by (auto simp: full_result_def)

text \<open>\<open>readHeader\<close> on every branch.\<close>

lemma readHeader_cases:
  assumes "readHeader s = ((len, ok), s')"
  obtains
    (clean) "Scanner_avail s = []" "is_eof (Scanner_end s)" "\<not> ok" "s_err s' = s_err s"
  | (failed) "Scanner_avail s = []" "\<not> is_eof (Scanner_end s)" "\<not> ok" "s_err s' = Some (Scanner_end s)"
  | (partial) "Scanner_avail s \<noteq> []" "length (Scanner_avail s) < headerSize" "\<not> ok"
      "s_err s' = Some (torn (Scanner_end s))"
  | (bad) e where "headerSize \<le> length (Scanner_avail s)" "\<not> ok" "s_err s' = Some e"
      "parse_header (s_maxRecordSize s) (take headerSize (Scanner_avail s)) = Inl e"
  | (ok) "headerSize \<le> length (Scanner_avail s)" "ok" "s_err s' = s_err s"
      "parse_header (s_maxRecordSize s) (take headerSize (Scanner_avail s)) = Inr len"
      "Scanner_avail s' = drop headerSize (Scanner_avail s)"
proof (cases "headerSize \<le> length (Scanner_avail s)")
  case True
  then obtain b' where rd: "read_full (s_br s) headerSize = (take headerSize (Scanner_avail s), None, b')"
    and av: "bufr_avail b' = drop headerSize (Scanner_avail s)"
    by (auto simp: Scanner_avail_def elim: read_full_enough)
  note unf = readHeader_def parse_header_def rd Let_def Scanner_avail_def
  consider "\<not> ok" | "ok" by blast
  then show ?thesis
  proof cases
    case 1
    with assms True that(4) show ?thesis by (auto simp: unf split: if_splits)
  next
    case 2
    with assms True av that(5) show ?thesis by (auto simp: unf split: if_splits)
  qed
next
  case False
  then have short: "length (Scanner_avail s) < headerSize" by simp
  let ?e = "full_result headerSize (Scanner_avail s) (Some (Scanner_end s))"
  obtain b' where rd: "read_full (s_br s) headerSize = (Scanner_avail s, ?e, b')"
    using short by (auto simp: Scanner_avail_def Scanner_end_def elim: read_full_short)
  obtain e where e: "?e = Some e" using full_result_short [OF short] by blast
  with torn_full_result [OF short, of "Scanner_end s"] have torn: "torn e = torn (Scanner_end s)" by simp
  show ?thesis
  proof (cases "Scanner_avail s = []")
    case True
    with e have "e = Scanner_end s" by (simp add: full_result_def headerSize_def)
    with True assms rd e that(1,2) show ?thesis
      by (auto simp: readHeader_def Let_def torn_def split: if_splits)
  next
    case nonempty: False
    with assms rd e torn short that(3) show ?thesis
      by (auto simp: readHeader_def Let_def split: if_splits)
  qed
qed

lemma readHeader_frame:
  assumes "readHeader s = ((len, ok), s')"
  shows "same_config s s'" and "s_lastValidOffset s' = s_lastValidOffset s"
    and "s_recordLen s' = 0" and "s_buf s' = s_buf s"
proof -
  obtain g e b where rd: "read_full (s_br s) headerSize = (g, e, b)"
    by (cases "read_full (s_br s) headerSize")
  then have "same_device (s_br s) b"
    using read_full_from_spec [of "s_br s" headerSize "[]" g e b] by (simp add: read_full_def)
  with assms rd show "same_config s s'" and "s_lastValidOffset s' = s_lastValidOffset s"
    and "s_recordLen s' = 0" and "s_buf s' = s_buf s"
    by (auto simp: readHeader_def Let_def same_config_def split: option.splits if_splits)
qed

text \<open>A read of \<open>n\<close> bytes that is skipped for \<open>n = 0\<close>, as \<open>Scan\<close> reads the payload.\<close>

lemma read_opt_enough:
  assumes "n \<le> length (bufr_avail b)"
  obtains b' where "(if n > 0 then read_full b n else ([], None, b)) = (take n (bufr_avail b), None, b')"
    and "bufr_avail b' = drop n (bufr_avail b)" and "same_device b b'"
proof (cases "n > 0")
  case True
  with assms that show ?thesis by (elim read_full_enough) auto
qed (use that in simp)

lemma read_full_torn:
  assumes "length (bufr_avail b) < n"
  obtains b' e where "read_full b n = (bufr_avail b, Some e, b')"
    and "torn e = torn (src_end (br_rd b))"
proof -
  obtain b' where rd: "read_full b n =
      (bufr_avail b, full_result n (bufr_avail b) (Some (src_end (br_rd b))), b')"
    using assms by (rule read_full_short)
  obtain e where "full_result n (bufr_avail b) (Some (src_end (br_rd b))) = Some e"
    using full_result_short [OF assms] by blast
  with rd assms torn_full_result [OF assms, of "src_end (br_rd b)"] that [of e b'] show ?thesis by auto
qed

lemma length_grow_buf: "n \<le> length (grow_buf buf n)"
  by (simp add: grow_buf_def split: option.splits)

lemma take_fill_buf: "length got = n \<Longrightarrow> take n (fill_buf a got) = got"
  by (simp add: fill_buf_def)

lemma Scan_payload:
  assumes "s_err s = None" and "readHeader s = ((len, True), s1)"
    and "Scanner_avail s1 = drop headerSize (Scanner_avail s)"
  defines "n \<equiv> unat len" and "rest \<equiv> Scanner_avail s1"
  shows "if length rest < n + footerSize
      then \<exists>s'. Scan s = (False, s') \<and> s_err s' = Some (torn (Scanner_end s))
             \<and> s_lastValidOffset s' = s_lastValidOffset s
      else if computeMaskedCRC (take n rest) \<noteq> le_word (take footerSize (drop n rest))
      then \<exists>s'. Scan s = (False, s') \<and> s_err s' = Some ErrDataCorrupted
             \<and> s_lastValidOffset s' = s_lastValidOffset s
      else \<exists>s'. Scan s = (True, s') \<and> s_err s' = s_err s1 \<and> Scanner_Record s' = take n rest
             \<and> Scanner_avail s' = drop (n + footerSize) rest
             \<and> s_offset s' = s_lastValidOffset s
             \<and> s_lastValidOffset s' = s_lastValidOffset s + frameOverhead + n \<and> same_config s s'"
proof -
  note hdr = readHeader_frame [OF assms(2)]
  have dev: "src_end (br_rd (s_br s1)) = Scanner_end s"
    using hdr(1) by (simp add: same_config_def same_device_def Scanner_end_def)
  have rest: "rest = bufr_avail (s_br s1)" by (simp add: rest_def Scanner_avail_def)
  note unf = Scan_def assms(1,2) Let_def n_def [symmetric] hdr Scanner_Record_def Scanner_avail_def
  show ?thesis
  proof (cases "n \<le> length rest")
    case False
    then obtain b e where "read_full (s_br s1) n = (rest, Some e, b)" and "torn e = torn (Scanner_end s)"
      using read_full_torn [of "s_br s1" n] unfolding rest dev by (metis not_le)
    with False show ?thesis by (auto simp: unf)
  next
    case True
    then obtain b where pay: "(if n > 0 then read_full (s_br s1) n else ([], None, s_br s1))
        = (take n rest, None, b)"
      and av: "bufr_avail b = drop n rest" and b: "same_device (s_br s1) b"
      using read_opt_enough [of n "s_br s1"] unfolding rest by metis
    have data: "take n (fill_buf (grow_buf (s_buf s) n) (take n rest)) = take n rest"
      using True by (simp add: take_fill_buf)
    show ?thesis
    proof (cases "length rest < n + footerSize")
      case short: True
      with True av have "length (bufr_avail b) < footerSize" by auto
      then obtain b' e where "read_full b footerSize = (bufr_avail b, Some e, b')"
        and "torn e = torn (src_end (br_rd b))"
        by (rule read_full_torn)
      with short b dev pay show ?thesis
        by (cases "n = 0") (auto simp: unf same_device_def)
    next
      case False
      with True av have "footerSize \<le> length (bufr_avail b)" by auto
      then obtain b' where foot: "read_full b footerSize = (take footerSize (drop n rest), None, b')"
        and av': "bufr_avail b' = drop footerSize (drop n rest)" and b': "same_device b b'"
        unfolding av [symmetric] by (elim read_full_enough) (auto simp: av)
      have "same_config s (s1\<lparr>s_br := b'\<rparr>)"
        using hdr(1) b b' by (simp add: same_config_def same_device_def)
      then show ?thesis
        using False pay foot av' data
        by (cases "n = 0") (auto simp: unf same_config_def add.commute footerSize_def)
    qed
  qed
qed

text \<open>\<open>Scan\<close> implements \<open>parse_frame\<close> on the bytes that are left.\<close>

lemma Scan_parse:
  assumes "s_err s = None"
  shows "case parse_frame (s_maxRecordSize s) (Scanner_end s) (Scanner_avail s) of
      PEnd \<Rightarrow> \<exists>s'. Scan s = (False, s') \<and> s_err s' = None \<and> s_lastValidOffset s' = s_lastValidOffset s
    | PError e \<Rightarrow> \<exists>s'. Scan s = (False, s') \<and> s_err s' = Some e
        \<and> s_lastValidOffset s' = s_lastValidOffset s
    | PRecord r rest \<Rightarrow> \<exists>s'. Scan s = (True, s') \<and> s_err s' = None \<and> Scanner_Record s' = r
        \<and> Scanner_avail s' = rest \<and> s_offset s' = s_lastValidOffset s
        \<and> s_lastValidOffset s' = s_lastValidOffset s + frameOverhead + length r \<and> same_config s s'"
proof -
  obtain len ok s1 where rh: "readHeader s = ((len, ok), s1)" by (metis surj_pair)
  note lvo = readHeader_frame(2) [OF rh]
  show ?thesis
    using rh
  proof (cases rule: readHeader_cases)
    case ok
    with rh have "readHeader s = ((len, True), s1)" by simp
    from Scan_payload [OF assms this ok(5)] ok assms show ?thesis
      by (auto simp: parse_frame_def Let_def headerSize_def footerSize_def min_def split: if_splits)
  qed (use rh assms lvo in \<open>auto simp: Scan_def parse_frame_def headerSize_def torn_def\<close>)
qed

lemma Scan_sticky: "s_err s = Some e \<Longrightarrow> Scan s = (False, s)"
  by (simp add: Scan_def)

lemma Scan_progress:
  assumes "Scan s = (True, s')"
  shows "length (Scanner_avail s') < length (Scanner_avail s)"
proof -
  have err: "s_err s = None" using assms by (cases "s_err s") (auto simp: Scan_def)
  from Scan_parse [OF err] assms obtain r rest
    where p: "parse_frame (s_maxRecordSize s) (Scanner_end s) (Scanner_avail s) = PRecord r rest"
      and "Scanner_avail s' = rest"
    by (auto split: parsed.splits)
  moreover from p have "length rest < length (Scanner_avail s)"
    by (auto simp: parse_frame_def Let_def footerSize_def headerSize_def split: if_splits sum.splits)
  ultimately show ?thesis by simp
qed

text \<open>The loop every client runs, \<open>for s.Scan() { records = append(records, bytes.Clone(s.Record())) }\<close>.
  It stops because every record that \<open>Scan\<close> accepts uses up at least its header.\<close>

function scan_all :: "Scanner \<Rightarrow> bytes list \<times> Scanner" where
  "scan_all s =
     (case Scan s of
        (False, s') \<Rightarrow> ([], s')
      | (True, s') \<Rightarrow> (case scan_all s' of (rs, s'') \<Rightarrow> (Scanner_Record s' # rs, s'')))"
  by pat_completeness auto
termination
  by (relation "measure (\<lambda>s. length (Scanner_avail s))") (auto dest: Scan_progress [OF sym])

declare scan_all.simps [simp del]

subsection \<open>Frames parse back\<close>

lemma header_of_frame:
  "take 8 (frame_header r) = le_bytes 8 (of_nat (length r) :: u64)"
  "take 4 (drop 8 (frame_header r)) = le_bytes 4 (computeMaskedCRC (take 8 (frame_header r)))"
  by (simp_all add: frame_header_def Let_def)

definition max_ok :: "int \<Rightarrow> bool" where
  "max_ok mx \<longleftrightarrow> 0 < mx \<and> mx < 2 ^ 63"

lemma max_ok_default [simp]: "max_ok DefaultMaxRecordSize"
  by (simp add: max_ok_def DefaultMaxRecordSize_def)

lemma word_of_int_less_u64:
  assumes "max_ok mx"
  shows "word_of_int mx < (len :: u64) \<longleftrightarrow> mx < int (unat len)"
  using assms by (simp add: word_less_def max_ok_def uint_word_of_int)

lemma unat_of_length:
  assumes "max_ok mx" and "int (length r) \<le> mx"
  shows "unat (of_nat (length r) :: u64) = length r"
proof -
  from assms have "length r < 2 ^ 64" by (simp add: max_ok_def)
  then show ?thesis by (simp add: unat_of_nat)
qed

lemma frame_not_Nil [simp]: "frame r \<noteq> []"
  by (simp flip: length_0_conv add: frameOverhead_def)

lemma parse_header_frame:
  assumes "max_ok mx" and "int (length r) \<le> mx"
  shows "parse_header mx (frame_header r) = Inr (of_nat (length r))"
proof -
  have "\<not> word_of_int mx < (of_nat (length r) :: u64)"
    unfolding word_of_int_less_u64 [OF assms(1)] unat_of_length [OF assms] using assms(2) by simp
  then show ?thesis by (simp add: parse_header_def header_of_frame Let_def)
qed

lemma parse_frame_frame:
  assumes "max_ok mx" and "int (length r) \<le> mx"
  shows "parse_frame mx en (frame r @ rest) = PRecord r rest"
proof -
  have hd: "take headerSize (frame r @ rest) = frame_header r"
    and tl: "drop headerSize (frame r @ rest) = r @ frame_footer r @ rest"
    by (simp_all add: frame_def)
  have "frame r @ rest \<noteq> []" "\<not> length (frame r @ rest) < headerSize"
    by (auto simp: frameOverhead_def headerSize_def)
  then show ?thesis
    unfolding parse_frame_def hd tl
    using assms by (simp add: parse_header_frame unat_of_length Let_def frame_footer_def footerSize_def)
qed

end
