(* ===== verification/Recordio.thy ===== *)
theory Recordio
  imports Recordio_Scanner
begin

text \<open>
  The RecordIO format as a whole (\<open>src/recordio\<close>): what a stream of frames gives back when it is
  scanned complete, cut short, corrupted, or produced by a writer that failed half way.

  Every statement is about the scanner's own loop \<open>scan_all\<close> over an arbitrary source: any buffer
  size, any sizes of the underlying reads. The lemmas on \<open>parse_frame\<close> carry the proofs.
\<close>

subsection \<open>Scanning a stream\<close>

lemma parse_frame_long:
  assumes "headerSize \<le> length bs"
  shows "parse_frame mx en bs =
    (case parse_header mx (take headerSize bs) of
       Inl e \<Rightarrow> PError e
     | Inr len \<Rightarrow>
         (let n = unat len; rest = drop headerSize bs
          in if length rest < n + footerSize then PError (torn en)
             else if computeMaskedCRC (take n rest) \<noteq> le_word (take footerSize (drop n rest))
             then PError ErrDataCorrupted
             else PRecord (take n rest) (drop (n + footerSize) rest)))"
  using assms by (auto simp: parse_frame_def headerSize_def)

text \<open>Whatever \<open>parse_frame\<close> accepts is a frame that the writer produces.\<close>

lemma parse_header_sound:
  assumes "parse_header mx hdr = Inr len" and "length hdr = headerSize"
  shows "hdr = le_bytes 8 len @ le_bytes 4 (computeMaskedCRC (le_bytes 8 len))"
proof -
  have len: "le_bytes 8 len = take 8 hdr"
    using assms by (auto simp: parse_header_def Let_def headerSize_def le_bytes_le_word_64 split: if_splits)
  have "computeMaskedCRC (take 8 hdr) = le_word (take 4 (drop 8 hdr))"
    using assms(1) by (auto simp: parse_header_def Let_def split: if_splits)
  then have "le_bytes 4 (computeMaskedCRC (take 8 hdr)) = take 4 (drop 8 hdr)"
    using assms(2) by (simp add: headerSize_def le_bytes_le_word_32)
  moreover have "take 4 (drop 8 hdr) = drop 8 hdr"
    using assms(2) by (simp add: headerSize_def)
  ultimately show ?thesis unfolding len by simp
qed

lemma parse_frame_sound:
  assumes "parse_frame mx en bs = PRecord r rest"
  shows "bs = frame r @ rest"
proof -
  from assms obtain len where hs: "headerSize \<le> length bs"
    and ph: "parse_header mx (take headerSize bs) = Inr len"
    and n: "unat len + footerSize \<le> length (drop headerSize bs)"
    and r: "r = take (unat len) (drop headerSize bs)"
    and crc: "computeMaskedCRC r = le_word (take footerSize (drop (unat len) (drop headerSize bs)))"
    and rest: "rest = drop (unat len + footerSize) (drop headerSize bs)"
    by (auto simp: parse_frame_def Let_def not_less split: if_splits sum.splits)
  have len: "of_nat (length r) = len" using n r by simp
  have "take headerSize bs = frame_header r"
    using parse_header_sound [OF ph] hs by (simp add: frame_header_def Let_def len)
  moreover have "take footerSize (drop (unat len) (drop headerSize bs)) = frame_footer r"
    unfolding frame_footer_def crc using n
    by (intro le_bytes_le_word_32 [symmetric]) (simp add: footerSize_def)
  moreover have "bs = take headerSize bs @ take (unat len) (drop headerSize bs)
      @ take footerSize (drop (unat len) (drop headerSize bs)) @ rest"
    unfolding rest by (metis append_take_drop_id drop_drop add.commute)
  ultimately show ?thesis by (simp add: frame_def r)
qed

lemma scan_all_end:
  assumes "s_err s = None" and "parse_frame (s_maxRecordSize s) (Scanner_end s) (Scanner_avail s) = PEnd"
  shows "\<exists>s'. scan_all s = ([], s') \<and> s_err s' = None \<and> s_lastValidOffset s' = s_lastValidOffset s"
  using Scan_parse [OF assms(1)] assms(2) by (auto simp: scan_all.simps [of s])

lemma scan_all_error:
  assumes "s_err s = None" and "parse_frame (s_maxRecordSize s) (Scanner_end s) (Scanner_avail s) = PError e"
  shows "\<exists>s'. scan_all s = ([], s') \<and> s_err s' = Some e \<and> s_lastValidOffset s' = s_lastValidOffset s"
  using Scan_parse [OF assms(1)] assms(2) by (auto simp: scan_all.simps [of s])

text \<open>Scanning over a run of whole frames: the records come back in order and the scanner stands at
  the first byte after them.\<close>

lemma scan_all_frames:
  assumes "s_err s = None" and "max_ok (s_maxRecordSize s)"
    and "\<forall>r \<in> set rs. int (length r) \<le> s_maxRecordSize s"
    and "Scanner_avail s = frames rs @ rest"
  shows "\<exists>s'. s_err s' = None \<and> Scanner_avail s' = rest \<and> same_config s s'
    \<and> s_lastValidOffset s' = s_lastValidOffset s + length (frames rs)
    \<and> scan_all s = (case scan_all s' of (qs, s'') \<Rightarrow> (rs @ qs, s''))"
  using assms
proof (induction rs arbitrary: s)
  case Nil
  then show ?case by (intro exI [of _ s]) (auto split: prod.splits)
next
  case (Cons r rs)
  then have "parse_frame (s_maxRecordSize s) (Scanner_end s) (Scanner_avail s) = PRecord r (frames rs @ rest)"
    by (simp add: parse_frame_frame)
  with Scan_parse [OF Cons.prems(1)] obtain s1
    where s1: "Scan s = (True, s1)" "s_err s1 = None" "Scanner_Record s1 = r"
      "Scanner_avail s1 = frames rs @ rest" "same_config s s1"
      "s_lastValidOffset s1 = s_lastValidOffset s + frameOverhead + length r"
    by auto
  with Cons.prems have "\<exists>s'. s_err s' = None \<and> Scanner_avail s' = rest \<and> same_config s1 s'
    \<and> s_lastValidOffset s' = s_lastValidOffset s1 + length (frames rs)
    \<and> scan_all s1 = (case scan_all s' of (qs, s'') \<Rightarrow> (rs @ qs, s''))"
    by (intro Cons.IH) (auto simp: same_config_def)
  then obtain s' where s': "s_err s' = None" "Scanner_avail s' = rest" "same_config s1 s'"
    "s_lastValidOffset s' = s_lastValidOffset s1 + length (frames rs)"
    "scan_all s1 = (case scan_all s' of (qs, s'') \<Rightarrow> (rs @ qs, s''))" by blast
  moreover have "same_config s s'"
    using s1(5) s'(3) by (auto simp: same_config_def same_device_def)
  ultimately show ?case
    using s1 by (intro exI [of _ s']) (auto simp: scan_all.simps [of s] split: prod.splits)
qed

lemma scan_all_whole:
  assumes "s_err s = None" and "max_ok (s_maxRecordSize s)"
    and "\<forall>r \<in> set rs. int (length r) \<le> s_maxRecordSize s"
    and "Scanner_avail s = frames rs" and "is_eof (Scanner_end s)"
  shows "\<exists>s'. scan_all s = (rs, s') \<and> s_err s' = None
    \<and> s_lastValidOffset s' = s_lastValidOffset s + length (frames rs)"
proof -
  from scan_all_frames [OF assms(1-3), of "[]"] assms(4) obtain s1
    where s1: "s_err s1 = None" "Scanner_avail s1 = []" "same_config s s1"
      "s_lastValidOffset s1 = s_lastValidOffset s + length (frames rs)"
      "scan_all s = (case scan_all s1 of (qs, s'') \<Rightarrow> (rs @ qs, s''))" by auto
  have "is_eof (Scanner_end s1)"
    using s1(3) assms(5) by (simp add: same_config_def same_device_def Scanner_end_def)
  with s1 scan_all_end [OF s1(1)] show ?thesis by (auto simp: parse_frame_def)
qed

lemma scan_all_frames_error:
  assumes "s_err s = None" and "max_ok (s_maxRecordSize s)"
    and "\<forall>r \<in> set rs. int (length r) \<le> s_maxRecordSize s"
    and "Scanner_avail s = frames rs @ rest"
    and "parse_frame (s_maxRecordSize s) (Scanner_end s) rest = PError e"
  shows "\<exists>s'. scan_all s = (rs, s') \<and> s_err s' = Some e
    \<and> s_lastValidOffset s' = s_lastValidOffset s + length (frames rs)"
proof -
  from scan_all_frames [OF assms(1-4)] obtain s1
    where s1: "s_err s1 = None" "Scanner_avail s1 = rest" "same_config s s1"
      "s_lastValidOffset s1 = s_lastValidOffset s + length (frames rs)"
      "scan_all s = (case scan_all s1 of (qs, s'') \<Rightarrow> (rs @ qs, s''))" by auto
  have "parse_frame (s_maxRecordSize s1) (Scanner_end s1) (Scanner_avail s1) = PError e"
    using s1(2,3) assms(5) by (simp add: same_config_def same_device_def Scanner_end_def)
  with s1 scan_all_error [OF s1(1)] show ?thesis by fastforce
qed

text \<open>A scanner just opened on a source.\<close>

abbreviation open_scanner :: "source \<Rightarrow> int \<Rightarrow> int \<Rightarrow> Scanner" where
  "open_scanner src bsz mx \<equiv> NewScanner src [WithScannerBufferSize bsz, WithScannerMaxRecordSize mx]"

lemma open_scanner_simps [simp]:
  assumes "0 < mx"
  shows "s_err (open_scanner src bsz mx) = None" "s_maxRecordSize (open_scanner src bsz mx) = mx"
    "Scanner_avail (open_scanner src bsz mx) = src_rest src" "Scanner_end (open_scanner src bsz mx) = src_end src"
    "s_lastValidOffset (open_scanner src bsz mx) = 0"
  using assms
  by (simp_all add: NewScanner_def WithScannerBufferSize_def WithScannerMaxRecordSize_def Let_def
      Scanner_avail_def Scanner_end_def bufr_avail_def bufio_NewReaderSize_def)

abbreviation open_writer :: "sink \<Rightarrow> int \<Rightarrow> bool \<Rightarrow> Writer" where
  "open_writer out wsz sync \<equiv> NewWriter out [WithWriterBufferSize wsz, WithWriterSyncOnFlush sync]"

lemma open_writer_simps [simp]:
  "w_err (open_writer out wsz sync) = None" "w_closed (open_writer out wsz sync) = False"
  "bw_err (w_bw (open_writer out wsz sync)) = None" "bw_wr (w_bw (open_writer out wsz sync)) = out"
  "bw_buf (w_bw (open_writer out wsz sync)) = []" "w_offset (open_writer out wsz sync) = 0"
  "Writer_bytes (open_writer out wsz sync) = sk_out out"
  by (simp_all add: NewWriter_def WithWriterBufferSize_def WithWriterSyncOnFlush_def Let_def
      bufio_NewWriterSize_def Writer_bytes_def bufw_bytes_def)

lemma open_writer_healthy: "sk_script out = [] \<Longrightarrow> Writer_healthy (open_writer out wsz sync)"
  by (simp add: Writer_healthy_def)

subsection \<open>The properties of the format\<close>

text \<open>
  C1. Round trip. Records written through a \<open>Writer\<close> of any buffer size into a \<open>bytes.Buffer\<close> and
  closed are returned by the scan loop, in order and byte for byte, with no error, whatever the scanner's
  buffer size and the sizes of the underlying reads; the writer's offset and the scanner's last valid offset
  both equal the number of bytes in the buffer. The records may not be larger than the scanner's limit.
\<close>

theorem recordio_roundtrip:
  assumes "0 < mx" and "mx < 2 ^ 63" and "\<forall>r \<in> set rs. int (length r) \<le> mx"
    and "write_records (open_writer bytes_Buffer wsz sync) rs = (werr, w)"
    and "Writer_Close w = (cerr, w')"
    and "src_rest src = Writer_out w'" and "is_eof (src_end src)"
  shows "werr = None \<and> cerr = None \<and> Writer_Offset w = length (Writer_out w') \<and>
    (\<exists>s. scan_all (open_scanner src bsz mx) = (rs, s) \<and> Scanner_Err s = None
       \<and> LastValidOffset s = length (Writer_out w'))"
proof -
  have "Writer_healthy (open_writer bytes_Buffer wsz sync)"
    by (rule open_writer_healthy) (simp add: bytes_Buffer_def)
  from write_records_healthy [OF this, of rs] assms(4)
  have w: "werr = None" "Writer_healthy w" "Writer_bytes w = frames rs" "w_offset w = length (frames rs)"
    "sk_close (bw_wr (w_bw w)) = None"
    by (auto simp: bytes_Buffer_def)
  from Writer_Close_healthy [OF w(2,5)] assms(5) w(3) have c: "cerr = None" "Writer_out w' = frames rs"
    by auto
  have "\<exists>s. scan_all (open_scanner src bsz mx) = (rs, s) \<and> s_err s = None
      \<and> s_lastValidOffset s = s_lastValidOffset (open_scanner src bsz mx) + length (frames rs)"
    using assms c by (intro scan_all_whole) (auto simp: max_ok_def)
  with w c assms(1) show ?thesis
    by (simp add: Scanner_Err_def LastValidOffset_def Writer_Offset_def)
qed

text \<open>The round trip at two records, one of them empty, through an 8-byte writer buffer and a source that
  returns three bytes at a time.\<close>

theorem recordio_roundtrip_witness:
  "\<exists>w w' s. write_records (open_writer bytes_Buffer 8 False) [[7, 9], []] = (None, w)
     \<and> Writer_Close w = (None, w')
     \<and> scan_all (open_scanner ((bytes_Reader (Writer_out w'))\<lparr>src_chunks := [2, 2]\<rparr>) 16 1024) = ([[7, 9], []], s)
     \<and> Scanner_Err s = None \<and> LastValidOffset s = length (Writer_out w')"
proof -
  obtain werr w where w: "write_records (open_writer bytes_Buffer 8 False) [[7, 9], []] = (werr, w)" by fastforce
  obtain cerr w' where c: "Writer_Close w = (cerr, w')" by fastforce
  have "werr = None \<and> cerr = None \<and> Writer_Offset w = length (Writer_out w') \<and>
    (\<exists>s. scan_all (open_scanner ((bytes_Reader (Writer_out w'))\<lparr>src_chunks := [2, 2]\<rparr>) 16 1024) = ([[7, 9], []], s)
       \<and> Scanner_Err s = None \<and> LastValidOffset s = length (Writer_out w'))"
    by (rule recordio_roundtrip [OF _ _ _ w c]) (simp_all add: bytes_Reader_def is_eof_def)
  with w c show ?thesis by blast
qed

subsubsection \<open>Streams that were cut short\<close>

lemma parse_frame_torn:
  assumes "max_ok mx" and "int (length r) \<le> mx" and "strict_prefix p (frame r)" and "p \<noteq> []"
    and "is_eof en"
  shows "parse_frame mx en p = PError ErrTornWrite"
proof -
  from assms(3) have pre: "prefix p (frame_header r @ r @ frame_footer r)"
    by (simp add: frame_def strict_prefix_def)
  from assms(3) have short: "length p < length (frame r)" by (rule prefix_length_less)
  show ?thesis
  proof (cases "length p < headerSize")
    case True
    with assms(4,5) show ?thesis by (simp add: parse_frame_def torn_def)
  next
    case False
    from pre obtain us where "frame_header r @ r @ frame_footer r = p @ us" by (auto simp: prefix_def)
    then have "take headerSize (frame_header r @ r @ frame_footer r) = take headerSize (p @ us)" by simp
    with False have "take headerSize p = frame_header r" by simp
    moreover from short False have "length (drop headerSize p) < length r + footerSize"
      by (simp add: frameOverhead_def headerSize_def footerSize_def)
    ultimately show ?thesis
      using assms False by (simp add: parse_frame_def parse_header_frame unat_of_length Let_def torn_def)
  qed
qed

lemma frames_prefix_split:
  assumes "prefix p (frames rs)"
  shows "\<exists>k q. k \<le> length rs \<and> p = frames (take k rs) @ q
    \<and> (q = [] \<or> k < length rs \<and> strict_prefix q (frame (rs ! k)))
    \<and> (q = [] \<and> k < length rs \<longrightarrow> length p < length (frames (take (Suc k) rs)))"
  using assms
proof (induction rs arbitrary: p)
  case Nil
  then show ?case by simp
next
  case (Cons r rs)
  show ?case
  proof (cases "strict_prefix p (frame r)")
    case True
    then show ?thesis
      using prefix_length_less [OF True] by (intro exI [of _ 0] exI [of _ p]) auto
  next
    case False
    with Cons.prems obtain p' where p': "p = frame r @ p'" "prefix p' (frames rs)"
      by (auto simp: prefix_append strict_prefix_def)
    from Cons.IH [OF p'(2)] obtain k q where "k \<le> length rs" "p' = frames (take k rs) @ q"
      "q = [] \<or> k < length rs \<and> strict_prefix q (frame (rs ! k))"
      "q = [] \<and> k < length rs \<longrightarrow> length p' < length (frames (take (Suc k) rs))" by blast
    with p'(1) show ?thesis by (intro exI [of _ "Suc k"] exI [of _ q]) auto
  qed
qed

lemma scan_all_prefix:
  assumes "s_err s = None" and "max_ok (s_maxRecordSize s)"
    and "\<forall>r \<in> set rs. int (length r) \<le> s_maxRecordSize s"
    and "prefix (Scanner_avail s) (frames rs)" and "is_eof (Scanner_end s)"
  shows "\<exists>k s'. k \<le> length rs \<and> scan_all s = (take k rs, s')
    \<and> s_lastValidOffset s' = s_lastValidOffset s + length (frames (take k rs))
    \<and> length (frames (take k rs)) \<le> length (Scanner_avail s)
    \<and> (k < length rs \<longrightarrow> length (Scanner_avail s) < length (frames (take (Suc k) rs)))
    \<and> s_err s' = (if length (frames (take k rs)) = length (Scanner_avail s) then None else Some ErrTornWrite)"
proof -
  from frames_prefix_split [OF assms(4)] obtain k q
    where k: "k \<le> length rs" "Scanner_avail s = frames (take k rs) @ q"
    and q: "q = [] \<or> k < length rs \<and> strict_prefix q (frame (rs ! k))"
    and mx: "q = [] \<and> k < length rs \<longrightarrow> length (Scanner_avail s) < length (frames (take (Suc k) rs))" by blast
  have small: "\<forall>r \<in> set (take k rs). int (length r) \<le> s_maxRecordSize s"
    using assms(3) by (auto dest: in_set_takeD)
  show ?thesis
  proof (cases "q = []")
    case True
    with scan_all_whole [OF assms(1,2) small _ assms(5)] k mx show ?thesis by auto
  next
    case False
    with q have kl: "k < length rs" and sp: "strict_prefix q (frame (rs ! k))" by auto
    from assms(3) kl have "int (length (rs ! k)) \<le> s_maxRecordSize s" by auto
    from scan_all_frames_error [OF assms(1,2) small k(2) parse_frame_torn [OF assms(2) this sp False assms(5)]]
    obtain s' where "scan_all s = (take k rs, s')" "s_err s' = Some ErrTornWrite"
        "s_lastValidOffset s' = s_lastValidOffset s + length (frames (take k rs))"
      by auto
    moreover have "length (Scanner_avail s) < length (frames (take (Suc k) rs))"
      using k(2) kl prefix_length_less [OF sp] by (simp add: take_Suc_conv_app_nth)
    ultimately show ?thesis
      using False k by (intro exI [of _ k] exI [of _ s']) simp
  qed
qed

text \<open>
  C2. Torn tail. A stream of frames cut at any byte scans to the records whose frames are complete. The last
  valid offset is the end of the last complete frame, so truncating there loses no complete record, and the
  loop ends with \<open>ErrTornWrite\<close> exactly when bytes of an incomplete frame are left over.
\<close>

theorem recordio_torn_tail:
  assumes "0 < mx" and "mx < 2 ^ 63" and "\<forall>r \<in> set rs. int (length r) \<le> mx"
    and "prefix p (frames rs)" and "src_rest src = p" and "is_eof (src_end src)"
  shows "\<exists>k s. k \<le> length rs \<and> scan_all (open_scanner src bsz mx) = (take k rs, s)
    \<and> LastValidOffset s = length (frames (take k rs)) \<and> LastValidOffset s \<le> length p
    \<and> (k < length rs \<longrightarrow> length p < length (frames (take (Suc k) rs)))
    \<and> Scanner_Err s = (if LastValidOffset s = length p then None else Some ErrTornWrite)"
  using scan_all_prefix [of "open_scanner src bsz mx" rs] assms
  by (fastforce simp: max_ok_def Scanner_Err_def LastValidOffset_def)

theorem recordio_torn_tail_witness:
  "\<exists>k s. k \<le> length [[1], [2, 3 :: byte]]
     \<and> scan_all (open_scanner (bytes_Reader (take 20 (frames [[1], [2, 3]]))) 64 1024) = (take k [[1], [2, 3]], s)
     \<and> LastValidOffset s = length (frames (take k [[1], [2, 3]]))
     \<and> LastValidOffset s \<le> length (take 20 (frames [[1], [2, 3]]))
     \<and> (k < length [[1], [2, 3 :: byte]]
          \<longrightarrow> length (take 20 (frames [[1], [2, 3]])) < length (frames (take (Suc k) [[1], [2, 3]])))
     \<and> Scanner_Err s = (if LastValidOffset s = length (take 20 (frames [[1], [2, 3]])) then None else Some ErrTornWrite)"
  by (rule recordio_torn_tail) (simp_all add: bytes_Reader_def is_eof_def take_is_prefix del: frames_simps)

subsubsection \<open>Streams that were corrupted\<close>

lemma le_word_32_neq:
  assumes "length bs = 4" and "bs \<noteq> le_bytes 4 c"
  shows "le_word bs \<noteq> (c :: u32)"
  using assms le_bytes_le_word_32 [of bs] by auto

lemma computeMaskedCRC_update:
  assumes "i < length data" and "v \<noteq> data ! i"
  shows "computeMaskedCRC (data[i := v]) \<noteq> computeMaskedCRC data"
  using computeMaskedCRC_single_byte [OF assms(1), of v] assms(2) by auto

lemma parse_header_corrupt:
  assumes "i < headerSize" and "v \<noteq> frame_header r ! i"
  shows "parse_header mx ((frame_header r)[i := v]) = Inl ErrHeaderCorrupted"
proof -
  let ?len = "le_bytes 8 (of_nat (length r) :: u64)" and ?crc = "le_bytes 4 (computeMaskedCRC (le_bytes 8 (of_nat (length r) :: u64)))"
  have hdr: "frame_header r = ?len @ ?crc" by (simp add: frame_header_def Let_def)
  show ?thesis
  proof (cases "i < 8")
    case True
    then have "(frame_header r)[i := v] = ?len[i := v] @ ?crc" by (simp add: hdr list_update_append)
    moreover have "computeMaskedCRC (?len[i := v]) \<noteq> computeMaskedCRC ?len"
      using True assms(2) by (intro computeMaskedCRC_update) (auto simp: hdr nth_append)
    ultimately show ?thesis by (simp add: parse_header_def Let_def)
  next
    case False
    then have "(frame_header r)[i := v] = ?len @ ?crc[i - 8 := v]" by (simp add: hdr list_update_append)
    moreover have "?crc[i - 8 := v] \<noteq> ?crc"
      using False assms by (auto simp: hdr nth_append headerSize_def list_update_same_conv)
    then have "le_word (?crc[i - 8 := v]) \<noteq> computeMaskedCRC ?len"
      by (intro le_word_32_neq) auto
    ultimately show ?thesis by (auto simp: parse_header_def Let_def)
  qed
qed

lemma parse_frame_corrupt:
  assumes "max_ok mx" and "int (length r) \<le> mx" and "i < length (frame r)" and "v \<noteq> frame r ! i"
  shows "parse_frame mx en ((frame r)[i := v] @ rest)
    = PError (if i < headerSize then ErrHeaderCorrupted else ErrDataCorrupted)"
proof -
  have big: "headerSize \<le> length ((frame r)[i := v] @ rest)"
    by (simp add: frameOverhead_def headerSize_def)
  show ?thesis
  proof (cases "i < headerSize")
    case True
    then have fr: "(frame r)[i := v] = (frame_header r)[i := v] @ r @ frame_footer r"
      by (simp add: frame_def list_update_append)
    have "parse_header mx ((frame_header r)[i := v]) = Inl ErrHeaderCorrupted"
      using True assms(4) by (intro parse_header_corrupt) (simp_all add: frame_def nth_append)
    with True show ?thesis unfolding parse_frame_long [OF big] by (simp add: fr)
  next
    case False
    let ?j = "i - headerSize"
    have fr: "(frame r)[i := v] = frame_header r @ (r @ frame_footer r)[?j := v]"
      using False by (simp add: frame_def list_update_append)
    have bad: "computeMaskedCRC (take (length r) ((r @ frame_footer r)[?j := v]))
        \<noteq> le_word (drop (length r) ((r @ frame_footer r)[?j := v]))"
    proof (cases "?j < length r")
      case True
      then have "computeMaskedCRC (r[?j := v]) \<noteq> computeMaskedCRC r"
        using False assms(4) by (intro computeMaskedCRC_update) (auto simp: frame_def nth_append)
      with True show ?thesis by (simp add: list_update_append frame_footer_def)
    next
      case data: False
      have "(frame_footer r)[?j - length r := v] \<noteq> frame_footer r"
        using False data assms(3,4)
        by (auto simp: frame_def nth_append headerSize_def footerSize_def frameOverhead_def list_update_same_conv)
      then have "le_word ((frame_footer r)[?j - length r := v]) \<noteq> computeMaskedCRC r"
        by (intro le_word_32_neq) (auto simp: frame_footer_def)
      with data show ?thesis by (auto simp: list_update_append)
    qed
    then show ?thesis
      using False assms(1,2) unfolding parse_frame_long [OF big]
      by (simp add: fr parse_header_frame unat_of_length Let_def footerSize_def)
  qed
qed

text \<open>
  C3. Corruption of any single byte. If one byte of one frame of a stream is changed, the scan loop returns
  exactly the records before that frame, stops with \<open>ErrHeaderCorrupted\<close> or \<open>ErrDataCorrupted\<close>
  according to where the byte is, and leaves the last valid offset at the start of the damaged frame: a wrong
  record is never returned, and no later record is reached past the damage.
\<close>

theorem recordio_single_byte_corruption:
  assumes "0 < mx" and "mx < 2 ^ 63" and "\<forall>r \<in> set (rs @ [r]). int (length r) \<le> mx"
    and "i < length (frame r)" and "v \<noteq> frame r ! i"
    and "src_rest src = frames rs @ (frame r)[i := v] @ rest"
  shows "\<exists>s. scan_all (open_scanner src bsz mx) = (rs, s)
    \<and> Scanner_Err s = Some (if i < headerSize then ErrHeaderCorrupted else ErrDataCorrupted)
    \<and> LastValidOffset s = length (frames rs)"
proof -
  let ?s = "open_scanner src bsz mx"
  have max: "max_ok mx" using assms by (simp add: max_ok_def)
  then have "parse_frame (s_maxRecordSize ?s) (Scanner_end ?s) ((frame r)[i := v] @ rest)
      = PError (if i < headerSize then ErrHeaderCorrupted else ErrDataCorrupted)"
    using assms by (simp add: parse_frame_corrupt)
  from scan_all_frames_error [OF _ _ _ _ this, of rs] max assms show ?thesis
    by (auto simp: Scanner_Err_def LastValidOffset_def)
qed

theorem recordio_single_byte_corruption_witness:
  "\<exists>s. scan_all (open_scanner (bytes_Reader (frames [[1]] @ (frame [2, 3])[12 := 9] @ frame [4])) 64 1024) = ([[1]], s)
    \<and> Scanner_Err s = Some (if (12 :: nat) < headerSize then ErrHeaderCorrupted else ErrDataCorrupted)
    \<and> LastValidOffset s = length (frames [[1]])"
  by (rule recordio_single_byte_corruption [where r = "[2, 3]" and v = 9 and rest = "frame [4]"])
    (simp_all add: bytes_Reader_def frameOverhead_def frame_def nth_append headerSize_def)

subsubsection \<open>Writers that fail\<close>

text \<open>Whatever happens to the sink, the bytes written so far are a prefix of the frames asked for.\<close>

lemma write_records_prefix:
  assumes "write_records w rs = (err, w')"
  shows "\<exists>q. prefix q (frames rs) \<and> Writer_bytes w' = Writer_bytes w @ q \<and> (err = None \<longrightarrow> q = frames rs)"
  using assms
proof (induction rs arbitrary: w)
  case Nil
  then show ?case by simp
next
  case (Cons r rs)
  obtain n off res w1 where wr: "WriteRecord w r = ((n, off, res), w1)" by (metis surj_pair)
  show ?case
    using wr
  proof (cases rule: WriteRecord_cases)
    case (refused e)
    with Cons.prems wr show ?thesis by auto
  next
    case (failed e q)
    with Cons.prems wr show ?thesis by (auto simp: prefix_append)
  next
    case ok
    with Cons wr obtain q where "prefix q (frames rs)" "Writer_bytes w' = Writer_bytes w1 @ q"
      "err = None \<longrightarrow> q = frames rs" by fastforce
    with ok show ?thesis by (intro exI [of _ "frame r @ q"]) auto
  qed
qed

lemma Writer_Close_bytes:
  assumes "Writer_Close w = (err, w')" and "\<not> w_closed w"
  shows "Writer_bytes w' = Writer_bytes w" and "err = None \<Longrightarrow> Writer_out w' = Writer_bytes w"
proof -
  obtain r w1 where fl: "Writer_Sync w = (r, w1)" by fastforce
  note sync = Writer_Sync_bytes [OF fl]
  show "Writer_bytes w' = Writer_bytes w"
    using assms sync fl
    by (auto simp: Writer_Close_def Writer_Flush_eq_Sync Let_def Writer_bytes_def split: option.splits if_splits)
  show "Writer_out w' = Writer_bytes w" if "err = None"
    using that assms sync fl
    by (auto simp: Writer_Close_def Writer_Flush_eq_Sync Let_def Writer_bytes_def Writer_out_def
        split: option.splits if_splits)
qed

lemma write_records_open:
  assumes "write_records w rs = (err, w')"
  shows "w_closed w' = w_closed w"
  using assms
proof (induction rs arbitrary: w)
  case (Cons r rs)
  obtain n off res w1 where wr: "WriteRecord w r = ((n, off, res), w1)" by (metis surj_pair)
  then have "w_closed w1 = w_closed w" by (cases rule: WriteRecord_cases) auto
  with Cons wr show ?case by (cases res) auto
qed simp

text \<open>
  C4. Crash safety of the writer. Over a sink that fails or writes short at any call, a batch that is written
  and closed leaves a prefix of the batch's frames in the sink, and scanning that prefix recovers the first
  \<open>k\<close> records of the batch and nothing else; if neither the writes nor the close reported an error, all of
  them are there.
\<close>

theorem recordio_crash_safety:
  assumes "\<forall>r \<in> set rs. int (length r) \<le> DefaultMaxRecordSize" and "sk_out out = []"
    and "write_records (open_writer out wsz sync) rs = (werr, w)" and "Writer_Close w = (cerr, w')"
  shows "prefix (Writer_out w') (frames rs) \<and>
    (\<exists>k s. k \<le> length rs
       \<and> scan_all (open_scanner (bytes_Reader (Writer_out w')) DefaultBufferSize DefaultMaxRecordSize) = (take k rs, s)
       \<and> (werr = None \<and> cerr = None \<longrightarrow> k = length rs \<and> Scanner_Err s = None))"
proof -
  from write_records_prefix [OF assms(3)] assms(2) obtain q
    where q: "prefix q (frames rs)" "Writer_bytes w = q" "werr = None \<longrightarrow> q = frames rs" by auto
  have "\<not> w_closed w" using write_records_open [OF assms(3)] by simp
  note cl = Writer_Close_bytes [OF assms(4) this]
  have out: "prefix (Writer_out w') (frames rs)"
    using Writer_out_prefix [of w'] cl(1) q prefix_order.order_trans by metis
  have max: "0 < DefaultMaxRecordSize" by (simp add: DefaultMaxRecordSize_def)
  let ?s = "open_scanner (bytes_Reader (Writer_out w')) DefaultBufferSize DefaultMaxRecordSize"
  obtain k s where k: "k \<le> length rs" "scan_all ?s = (take k rs, s)"
    "k < length rs \<longrightarrow> length (Writer_out w') < length (frames (take (Suc k) rs))"
    "s_err s = (if length (frames (take k rs)) = length (Writer_out w') then None else Some ErrTornWrite)"
    using scan_all_prefix [of ?s rs] assms(1) out max by (auto simp: bytes_Reader_def is_eof_def)
  have "k = length rs \<and> Scanner_Err s = None" if "werr = None \<and> cerr = None"
  proof -
    from that cl(2) q have "Writer_out w' = frames rs" by simp
    moreover have "length (frames (take (Suc k) rs)) \<le> length (frames rs)"
      by (metis append_take_drop_id frames_simps(3) le_add1 length_append)
    ultimately have "k = length rs" using k(1,3) by (metis le_neq_implies_less not_le)
    with k(4) \<open>Writer_out w' = frames rs\<close> show ?thesis by (simp add: Scanner_Err_def)
  qed
  with k(1,2) out show ?thesis by blast
qed

theorem recordio_crash_safety_witness:
  "\<exists>werr w cerr w'. write_records (open_writer \<lparr>sk_out = [], sk_script = [Some (3, ErrMsg ''disk full'')], sk_close = None\<rparr> 8 False)
       [[1], [2, 3]] = (werr, w) \<and> Writer_Close w = (cerr, w') \<and>
     prefix (Writer_out w') (frames [[1], [2, 3]]) \<and>
    (\<exists>k s. k \<le> length [[1], [2, 3 :: byte]]
       \<and> scan_all (open_scanner (bytes_Reader (Writer_out w')) DefaultBufferSize DefaultMaxRecordSize)
           = (take k [[1], [2, 3]], s)
       \<and> (werr = None \<and> cerr = None \<longrightarrow> k = length [[1], [2, 3 :: byte]] \<and> Scanner_Err s = None))"
proof -
  obtain werr w where w: "write_records (open_writer \<lparr>sk_out = [], sk_script = [Some (3, ErrMsg ''disk full'')],
      sk_close = None\<rparr> 8 False) [[1], [2, 3]] = (werr, w)" by fastforce
  obtain cerr w' where c: "Writer_Close w = (cerr, w')" by fastforce
  from recordio_crash_safety [OF _ _ w c] w c show ?thesis
    by (fastforce simp: DefaultMaxRecordSize_def)
qed

subsubsection \<open>Skipping\<close>

definition seek_works :: "Scanner \<Rightarrow> bool" where
  "seek_works s \<longleftrightarrow> src_seek (br_rd (s_br s)) \<in> {None, Some None}"

text \<open>What \<open>Skip\<close> does with the payload: discard what is buffered, then seek or read over the rest.\<close>

definition skip_payload :: "bufr \<Rightarrow> nat \<Rightarrow> gerr option \<times> bufr" where
  "skip_payload b n =
     (let buffered = length (br_buf b); b1 = bufr_discard_buffered b (min n buffered)
      in if buffered < n then
           (case src_seek (br_rd b1) of
              Some None \<Rightarrow> (None, bufr_seek_reset b1 (n - buffered))
            | Some (Some e) \<Rightarrow> (Some e, b1)
            | None \<Rightarrow>
                (case copy_n_discard b1 (n - buffered) of
                   (Some e, b) \<Rightarrow> (Some (torn e), b)
                 | (None, b) \<Rightarrow> (None, b)))
         else (None, b1))"

lemma Skip_alt:
  assumes "s_err s = None" and "readHeader s = ((len, True), s1)"
  shows "Skip s =
    (case skip_payload (s_br s1) (unat len) of
       (Some err, b) \<Rightarrow> (False, s1\<lparr>s_br := b, s_err := Some err\<rparr>)
     | (None, b) \<Rightarrow>
         (case read_full b footerSize of
            (_, Some err, b') \<Rightarrow> (False, s1\<lparr>s_br := b', s_err := Some (torn err)\<rparr>)
          | (_, None, b') \<Rightarrow>
              (True, s1\<lparr>s_br := b', s_offset := s_lastValidOffset s,
                       s_lastValidOffset := s_lastValidOffset s + frameOverhead + unat len\<rparr>)))"
  using assms
  by (simp add: Skip_def skip_payload_def Let_def split: option.splits prod.splits)

lemma skip_payload_spec:
  assumes "skip_payload b n = (err, b')" and "src_seek (br_rd b) \<in> {None, Some None}"
  shows "same_device b b' \<and>
    (case err of
       None \<Rightarrow> bufr_avail b' = drop n (bufr_avail b)
     | Some e \<Rightarrow> length (bufr_avail b) < n \<and> e = torn (src_end (br_rd b)))"
proof (cases "length (br_buf b) < n")
  case False
  with assms(1) show ?thesis
    by (auto simp: skip_payload_def bufr_discard_buffered_def Let_def bufr_avail_def same_device_def min_def)
next
  case True
  let ?b = "bufr_discard_buffered b (length (br_buf b))"
  have b: "bufr_avail ?b = src_rest (br_rd b)" "br_rd ?b = br_rd b" "br_size ?b = br_size b"
    by (simp_all add: bufr_discard_buffered_def bufr_avail_def)
  show ?thesis
  proof (cases "src_seek (br_rd b)")
    case None
    obtain e b2 where c: "copy_n_discard ?b (n - length (br_buf b)) = (e, b2)" by fastforce
    from copy_n_discard_spec [OF c] None True assms(1) b c show ?thesis
      by (auto simp: skip_payload_def Let_def bufr_avail_def same_device_def min_def split: if_splits option.splits)
  next
    case (Some r)
    with True assms b show ?thesis
      by (auto simp: skip_payload_def Let_def bufr_seek_reset_def bufr_avail_def same_device_def min_def)
  qed
qed

lemma Skip_payload:
  assumes "s_err s = None" and "readHeader s = ((len, True), s1)" and "seek_works s"
  defines "n \<equiv> unat len" and "rest \<equiv> Scanner_avail s1"
  shows "if length rest < n + footerSize
      then \<exists>s'. Skip s = (False, s') \<and> s_err s' = Some (torn (Scanner_end s))
             \<and> s_lastValidOffset s' = s_lastValidOffset s
      else \<exists>s'. Skip s = (True, s') \<and> s_err s' = s_err s1
             \<and> Scanner_avail s' = drop (n + footerSize) rest \<and> s_offset s' = s_lastValidOffset s
             \<and> s_lastValidOffset s' = s_lastValidOffset s + frameOverhead + n \<and> same_config s s'"
proof -
  note hdr = readHeader_frame [OF assms(2)]
  have dev: "src_end (br_rd (s_br s1)) = Scanner_end s" "src_seek (br_rd (s_br s1)) \<in> {None, Some None}"
    using hdr(1) assms(3) by (auto simp: same_config_def same_device_def Scanner_end_def seek_works_def)
  obtain err b where sp: "skip_payload (s_br s1) n = (err, b)" by fastforce
  note spec = skip_payload_spec [OF sp dev(2)]
  note unf = Skip_alt [OF assms(1,2)] n_def [symmetric] sp
  show ?thesis
  proof (cases err)
    case (Some e)
    with spec dev have "length rest < n" "e = torn (Scanner_end s)"
      by (auto simp: rest_def Scanner_avail_def)
    with Some hdr show ?thesis by (simp add: unf)
  next
    case None
    with spec have av: "bufr_avail b = drop n rest" and b: "same_device (s_br s1) b"
      by (auto simp: rest_def Scanner_avail_def)
    show ?thesis
    proof (cases "length rest < n + footerSize")
      case True
      with av have "length (bufr_avail b) < footerSize" by (auto simp: footerSize_def)
      then obtain b' e where "read_full b footerSize = (bufr_avail b, Some e, b')"
        and "torn e = torn (src_end (br_rd b))"
        by (rule read_full_torn)
      with True None b dev hdr show ?thesis by (simp add: unf same_device_def)
    next
      case False
      with av have "footerSize \<le> length (bufr_avail b)" by auto
      then obtain b' where foot: "read_full b footerSize = (take footerSize (bufr_avail b), None, b')"
        and "bufr_avail b' = drop footerSize (bufr_avail b)" and b': "same_device b b'"
        by (rule read_full_enough)
      with av False None hdr b show ?thesis
        by (auto simp: unf Scanner_avail_def same_config_def same_device_def add.commute)
    qed
  qed
qed

text \<open>
  C5. \<open>Skip\<close> agrees with \<open>Scan\<close>. On a source whose \<open>Seek\<close> works, or that has none, \<open>Skip\<close>
  accepts exactly the frames \<open>Scan\<close> accepts and those whose only fault is the payload checksum, which it does
  not read. When both accept they leave the same bytes and the same offsets, and when \<open>Skip\<close> stops,
  \<open>Scan\<close> stops with the same error.
\<close>

theorem Skip_agrees_with_Scan:
  assumes "s_err s = None" and "seek_works s"
    and "Scan s = (scanned, s1)" and "Skip s = (skipped, s2)"
  shows "(scanned \<longrightarrow> skipped \<and> Scanner_avail s1 = Scanner_avail s2 \<and> Scanner_Offset s1 = Scanner_Offset s2)
    \<and> (skipped \<and> \<not> scanned \<longrightarrow> Scanner_Err s1 = Some ErrDataCorrupted)
    \<and> (\<not> skipped \<longrightarrow> \<not> scanned \<and> Scanner_Err s1 = Scanner_Err s2 \<and> LastValidOffset s1 = LastValidOffset s2)
    \<and> (scanned \<longrightarrow> LastValidOffset s1 = LastValidOffset s2)"
proof -
  obtain len ok h where rh: "readHeader s = ((len, ok), h)" by (metis surj_pair)
  show ?thesis
  proof (cases ok)
    case False
    with rh assms show ?thesis by (auto simp: Scan_def Skip_def)
  next
    case True
    with rh have rh: "readHeader s = ((len, True), h)" by simp
    then have "Scanner_avail h = drop headerSize (Scanner_avail s)"
      by (cases rule: readHeader_cases) auto
    from Scan_payload [OF assms(1) rh this] Skip_payload [OF assms(1) rh assms(2)] assms(3,4)
    show ?thesis
      by (auto simp: Scanner_Err_def Scanner_Offset_def LastValidOffset_def split: if_splits)
  qed
qed

theorem Skip_agrees_with_Scan_witness:
  "let s = open_scanner (bytes_Reader (frame [5, 6, 7])) 16 1024; (scanned, s1) = Scan s; (skipped, s2) = Skip s
   in (scanned \<longrightarrow> skipped \<and> Scanner_avail s1 = Scanner_avail s2 \<and> Scanner_Offset s1 = Scanner_Offset s2)
    \<and> (skipped \<and> \<not> scanned \<longrightarrow> Scanner_Err s1 = Some ErrDataCorrupted)
    \<and> (\<not> skipped \<longrightarrow> \<not> scanned \<and> Scanner_Err s1 = Scanner_Err s2 \<and> LastValidOffset s1 = LastValidOffset s2)
    \<and> (scanned \<longrightarrow> LastValidOffset s1 = LastValidOffset s2)"
proof -
  let ?s = "open_scanner (bytes_Reader (frame [5, 6, 7])) 16 1024"
  obtain scanned s1 where a: "Scan ?s = (scanned, s1)" by fastforce
  obtain skipped s2 where b: "Skip ?s = (skipped, s2)" by fastforce
  have "seek_works ?s"
    by (simp add: seek_works_def NewScanner_def WithScannerBufferSize_def WithScannerMaxRecordSize_def Let_def
        bufio_NewReaderSize_def bytes_Reader_def)
  from Skip_agrees_with_Scan [OF _ this a b] a b show ?thesis by simp
qed

subsubsection \<open>Nothing but frames is accepted\<close>

lemma scan_all_accepts:
  assumes "s_err s = None" and "scan_all s = (rs, s')"
  shows "\<exists>rest. Scanner_avail s = frames rs @ rest
    \<and> LastValidOffset s' = LastValidOffset s + length (frames rs)
    \<and> (Scanner_Err s' = None \<longrightarrow> rest = [] \<and> is_eof (Scanner_end s))"
  using assms
proof (induction s arbitrary: rs rule: scan_all.induct)
  case (1 s)
  let ?p = "parse_frame (s_maxRecordSize s) (Scanner_end s) (Scanner_avail s)"
  show ?case
  proof (cases ?p)
    case PEnd
    then have "Scanner_avail s = []" "is_eof (Scanner_end s)"
      by (auto simp: parse_frame_def Let_def split: if_splits sum.splits)
    with scan_all_end [OF "1.prems"(1) PEnd] "1.prems"(2) show ?thesis
      by (auto simp: LastValidOffset_def)
  next
    case (PError e)
    from scan_all_error [OF "1.prems"(1) PError] "1.prems"(2) show ?thesis
      by (auto simp: LastValidOffset_def Scanner_Err_def)
  next
    case (PRecord r rest)
    from Scan_parse [OF "1.prems"(1)] PRecord obtain s1
      where s1: "Scan s = (True, s1)" "s_err s1 = None" "Scanner_Record s1 = r" "Scanner_avail s1 = rest"
        "s_lastValidOffset s1 = s_lastValidOffset s + frameOverhead + length r" "same_config s s1" by auto
    from s1(6) have "Scanner_end s1 = Scanner_end s"
      by (simp add: same_config_def same_device_def Scanner_end_def)
    obtain qs s2 where q: "scan_all s1 = (qs, s2)" by fastforce
    with s1 "1.prems"(2) have "rs = r # qs" "s' = s2" by (auto simp: scan_all.simps [of s])
    moreover from "1.IH" [OF s1(1) [symmetric], of qs] s1 q \<open>s' = s2\<close> \<open>Scanner_end s1 = Scanner_end s\<close> have
      "\<exists>t. Scanner_avail s1 = frames qs @ t \<and> LastValidOffset s' = LastValidOffset s1 + length (frames qs)
         \<and> (Scanner_Err s' = None \<longrightarrow> t = [] \<and> is_eof (Scanner_end s))" by simp
    ultimately show ?thesis
      using parse_frame_sound [OF PRecord] s1 by (auto simp: LastValidOffset_def)
  qed
qed

text \<open>No record is larger than the limit, so a byte string has at most one reading within the limit.\<close>

lemma scan_all_bounded:
  assumes "s_err s = None" and "max_ok (s_maxRecordSize s)" and "scan_all s = (rs, s')"
  shows "\<forall>r \<in> set rs. int (length r) \<le> s_maxRecordSize s"
  using assms
proof (induction s arbitrary: rs rule: scan_all.induct)
  case (1 s)
  let ?p = "parse_frame (s_maxRecordSize s) (Scanner_end s) (Scanner_avail s)"
  show ?case
  proof (cases ?p)
    case PEnd
    with scan_all_end [OF "1.prems"(1) PEnd] "1.prems" show ?thesis by auto
  next
    case (PError e)
    with scan_all_error [OF "1.prems"(1) PError] "1.prems" show ?thesis by auto
  next
    case (PRecord r rest)
    from Scan_parse [OF "1.prems"(1)] PRecord obtain s1
      where s1: "Scan s = (True, s1)" "s_err s1 = None" "Scanner_Record s1 = r" "same_config s s1" by auto
    from s1(4) have mx: "s_maxRecordSize s1 = s_maxRecordSize s" by (simp add: same_config_def)
    obtain qs s2 where q: "scan_all s1 = (qs, s2)" by fastforce
    with s1 "1.prems"(3) have rs: "rs = r # qs" and "s' = s2" by (auto simp: scan_all.simps [of s])
    with "1.IH" [OF s1(1) [symmetric], of qs] s1(2) q "1.prems"(2) mx
    have "\<forall>r \<in> set qs. int (length r) \<le> s_maxRecordSize s" by simp
    moreover have "int (length r) \<le> s_maxRecordSize s"
      using PRecord "1.prems"(2)
      by (auto simp: parse_frame_def parse_header_def Let_def word_of_int_less_u64 split: if_splits sum.splits)
    ultimately show ?thesis by (simp add: rs)
  qed
qed

lemma frames_inject:
  assumes "frames rs = frames qs" and "\<forall>r \<in> set rs \<union> set qs. int (length r) \<le> DefaultMaxRecordSize"
  shows "rs = qs"
proof -
  let ?s = "NewScanner (bytes_Reader (frames rs)) []"
  have s: "s_err ?s = None" "s_maxRecordSize ?s = DefaultMaxRecordSize" "Scanner_avail ?s = frames rs"
    "is_eof (Scanner_end ?s)"
    by (simp_all add: NewScanner_def Let_def Scanner_avail_def Scanner_end_def bufr_avail_def
        bufio_NewReaderSize_def bytes_Reader_def is_eof_def)
  have "\<exists>s'. scan_all ?s = (rs, s')" using scan_all_whole [of ?s rs] s assms(2) by auto
  moreover have "\<exists>s'. scan_all ?s = (qs, s')" using scan_all_whole [of ?s qs] s assms by auto
  ultimately show ?thesis by auto
qed

text \<open>The errors of a scan: those of the format, and the error the source ended with.\<close>

lemma scan_all_error_kind:
  assumes "s_err s = None" and "scan_all s = (rs, s')" and "s_err s' = Some e"
  shows "e \<in> {ErrHeaderCorrupted, ErrRecordTooLarge, ErrDataCorrupted, ErrTornWrite, Scanner_end s}"
  using assms
proof (induction s arbitrary: rs rule: scan_all.induct)
  case (1 s)
  let ?p = "parse_frame (s_maxRecordSize s) (Scanner_end s) (Scanner_avail s)"
  show ?case
  proof (cases ?p)
    case PEnd
    with scan_all_end [OF "1.prems"(1) PEnd] "1.prems" show ?thesis by auto
  next
    case (PError e')
    with scan_all_error [OF "1.prems"(1) PError] "1.prems" have "e' = e" by auto
    with PError show ?thesis
      by (auto simp: parse_frame_def parse_header_def torn_def Let_def split: if_splits sum.splits)
  next
    case (PRecord r rest)
    from Scan_parse [OF "1.prems"(1)] PRecord obtain s1
      where s1: "Scan s = (True, s1)" "s_err s1 = None" "same_config s s1" by auto
    from s1(3) have en: "Scanner_end s1 = Scanner_end s"
      by (simp add: same_config_def same_device_def Scanner_end_def)
    obtain qs s2 where q: "scan_all s1 = (qs, s2)" by fastforce
    with s1 "1.prems"(2) have "s' = s2" by (auto simp: scan_all.simps [of s])
    with "1.IH" [OF s1(1) [symmetric], of qs] s1(2) q "1.prems"(3) en show ?thesis by simp
  qed
qed



end
