(* ===== verification/Logkeys.thy ===== *)
theory Logkeys
  imports Prelude
begin

text \<open>
  The object keys of a log (\<open>segmentKey\<close>, \<open>parseSeq\<close> and \<open>validPrefix\<close> in \<open>src/logstream/log.go\<close>), with the
  parts of \<open>fmt\<close>, \<open>strconv\<close>, \<open>path\<close> and \<open>strings\<close> they use. The lemmas show what the log relies on: a
  sequence number is recovered from its key, and keys sort as their numbers do.
\<close>

subsection \<open>Decimal numbers\<close>

definition dec_digit :: "nat \<Rightarrow> char" where
  "dec_digit d = char_of (48 + d)"

fun dec_of_nat :: "nat \<Rightarrow> string" where
  "dec_of_nat n = (if n < 10 then [dec_digit n] else dec_of_nat (n div 10) @ [dec_digit (n mod 10)])"

declare dec_of_nat.simps [simp del]

text \<open>The verb \<open>%020d\<close> of \<open>fmt.Sprintf\<close>.\<close>

definition fmt_020d :: "nat \<Rightarrow> string" where
  "fmt_020d n = (let s = dec_of_nat n in replicate (20 - length s) (CHR ''0'') @ s)"

definition dec_value :: "char \<Rightarrow> nat option" where
  "dec_value c = (let n = of_char c :: nat in if 48 \<le> n \<and> n \<le> 57 then Some (n - 48) else None)"

text \<open>\<open>strconv.ParseUint(s, 10, 64)\<close>: \<open>None\<close> for a syntax or a range error.\<close>

fun parse_dec_digits :: "nat \<Rightarrow> string \<Rightarrow> nat option" where
  "parse_dec_digits acc [] = Some acc"
| "parse_dec_digits acc (c # cs) =
     (case dec_value c of
        None \<Rightarrow> None
      | Some d \<Rightarrow> if 2 ^ 64 \<le> 10 * acc + d then None else parse_dec_digits (10 * acc + d) cs)"

definition ParseUint10 :: "string \<Rightarrow> nat option" where
  "ParseUint10 s = (if s = [] then None else parse_dec_digits 0 s)"

subsection \<open>path.Base\<close>

text \<open>Trailing slashes are dropped, then everything up to the last slash.\<close>

definition path_Base :: "string \<Rightarrow> string" where
  "path_Base p =
     (if p = [] then ''.''
      else
        (let q = rev (dropWhile (\<lambda>c. c = CHR ''/'') (rev p));
             b = rev (takeWhile (\<lambda>c. c \<noteq> CHR ''/'') (rev q))
         in if b = [] then ''/'' else b))"

subsection \<open>log.go\<close>

definition recordio_suffix :: string where "recordio_suffix = ''.recordio''"

definition segmentKey :: "string \<Rightarrow> u64 \<Rightarrow> string" where
  "segmentKey pre seq = pre @ ''/'' @ fmt_020d (unat seq) @ recordio_suffix"

definition parseSeq :: "string \<Rightarrow> u64 result" where
  "parseSeq key =
     (let base = path_Base key
      in if \<not> suffix recordio_suffix base then Inl (ErrMsg ''logstream: key does not end with .recordio'')
         else
           (let raw = take (length base - length recordio_suffix) base
            in if length raw \<noteq> 20 then Inl (ErrMsg ''logstream: sequence number has length, want 20'')
               else
                 (case ParseUint10 raw of
                    None \<Rightarrow> Inl (Wrap ''logstream: invalid sequence number in key'' (ErrMsg ''strconv.ParseUint''))
                  | Some seq \<Rightarrow>
                      if seq = 0 then Inl (ErrMsg ''logstream: key has sequence number 0'')
                      else Inr (of_nat seq))))"

definition prefix_char :: "char \<Rightarrow> bool" where
  "prefix_char c \<longleftrightarrow> (CHR ''a'' \<le> c \<and> c \<le> CHR ''z'') \<or> (CHR ''A'' \<le> c \<and> c \<le> CHR ''Z'')
     \<or> (CHR ''0'' \<le> c \<and> c \<le> CHR ''9'') \<or> c = CHR ''_'' \<or> c = CHR ''-'' \<or> c = CHR ''/''"

definition validPrefix :: "string \<Rightarrow> bool" where
  "validPrefix p \<longleftrightarrow>
     \<not> (p = [] \<or> hd p = CHR ''/'' \<or> last p = CHR ''/'' \<or> sublist ''//'' p) \<and> (\<forall>c \<in> set p. prefix_char c)"

subsection \<open>Digit strings\<close>

fun dec_sum :: "string \<Rightarrow> nat" where
  "dec_sum [] = 0"
| "dec_sum (c # cs) = (of_char c - 48) * 10 ^ length cs + dec_sum cs"

definition dec_digits :: "string \<Rightarrow> bool" where
  "dec_digits s \<longleftrightarrow> (\<forall>c \<in> set s. \<exists>d < 10. c = dec_digit d)"

lemma dec_digit_value [simp]: "d < 10 \<Longrightarrow> of_char (dec_digit d) = (48 + d :: nat)"
  by (simp add: dec_digit_def)

lemma dec_value_digit [simp]: "d < 10 \<Longrightarrow> dec_value (dec_digit d) = Some d"
  by (simp add: dec_value_def)

lemma dec_digit_0: "CHR ''0'' = dec_digit 0"
proof -
  have "of_char (CHR ''0'') = (48 :: nat)" by simp
  then have "char_of (48 :: nat) = CHR ''0''" by (metis char_of_char)
  then show ?thesis by (simp add: dec_digit_def)
qed

lemma dec_sum_append: "dec_sum (a @ b) = dec_sum a * 10 ^ length b + dec_sum b"
  by (induction a) (auto simp: algebra_simps power_add)

lemma dec_sum_bound: "dec_digits s \<Longrightarrow> dec_sum s < 10 ^ length s"
proof (induction s)
  case (Cons c cs)
  then obtain d where d: "d < 10" "c = dec_digit d" and IH: "dec_sum cs < 10 ^ length cs"
    by (auto simp: dec_digits_def)
  from d(1) have "d \<le> 9" by simp
  then have "d * 10 ^ length cs \<le> 9 * 10 ^ length cs" by (rule mult_right_mono) simp
  with IH have "d * 10 ^ length cs + dec_sum cs < 10 * 10 ^ length cs" by linarith
  with d show ?case by simp
qed simp

lemma dec_of_nat_digits: "dec_digits (dec_of_nat n)"
proof (induction n rule: dec_of_nat.induct)
  case (1 n)
  then show ?case
    by (cases "n < 10") (auto simp: dec_of_nat.simps [of n] dec_digits_def intro: exI [of _ "n mod 10"])
qed

lemma dec_of_nat_sum: "dec_sum (dec_of_nat n) = n"
proof (induction n rule: dec_of_nat.induct)
  case (1 n)
  then show ?case by (cases "n < 10") (simp_all add: dec_of_nat.simps [of n] dec_sum_append)
qed

lemma dec_of_nat_length: "n < 10 ^ k \<Longrightarrow> 0 < k \<Longrightarrow> length (dec_of_nat n) \<le> k"
proof (induction n arbitrary: k rule: dec_of_nat.induct)
  case (1 n)
  show ?case
  proof (cases "n < 10")
    case False
    with "1.prems" obtain k' where k: "k = Suc k'" "0 < k'" by (cases k; cases "k - 1") auto
    with "1.prems" have "n div 10 < 10 ^ k'" by (simp add: less_mult_imp_div_less mult.commute)
    from "1.IH" [OF False this k(2)] False k show ?thesis by (simp add: dec_of_nat.simps [of n])
  qed (use "1.prems" in \<open>simp add: dec_of_nat.simps [of n]\<close>)
qed

lemma dec_sum_zeros: "dec_sum (replicate k (CHR ''0'')) = 0"
  by (induction k) auto

lemma fmt_020d_digits: "dec_digits (fmt_020d n)"
  using dec_of_nat_digits [of n] dec_digit_0
  by (auto simp: fmt_020d_def Let_def dec_digits_def intro: exI [of _ 0])

lemma fmt_020d_sum [simp]: "dec_sum (fmt_020d n) = n"
  by (simp add: fmt_020d_def Let_def dec_sum_append dec_of_nat_sum dec_sum_zeros)

lemma length_fmt_020d: "n < 2 ^ 64 \<Longrightarrow> length (fmt_020d n) = 20"
  using dec_of_nat_length [of n 20] by (simp add: fmt_020d_def Let_def)

lemma fmt_020d_inject [simp]: "fmt_020d a = fmt_020d b \<longleftrightarrow> a = b"
  by (metis fmt_020d_sum)

text \<open>Digit strings of one length compare as numbers.\<close>

lemma dec_digit_less: "d < 10 \<Longrightarrow> e < 10 \<Longrightarrow> dec_digit d < dec_digit e \<longleftrightarrow> d < e"
  by (simp add: less_char_def)

lemma dec_less:
  assumes "length a = length b" and "dec_digits a" and "dec_digits b"
  shows "a < b \<longleftrightarrow> dec_sum a < dec_sum b"
  using assms
proof (induction a b rule: list_induct2)
  case (Cons x xs y ys)
  then obtain d e where de: "d < 10" "e < 10" "x = dec_digit d" "y = dec_digit e"
    and digs: "dec_digits xs" "dec_digits ys" by (auto simp: dec_digits_def)
  let ?k = "10 ^ length ys :: nat"
  have b: "dec_sum xs < ?k" "dec_sum ys < ?k"
    using dec_sum_bound digs Cons.hyps by metis+
  have carry: "d * ?k + dec_sum xs < e * ?k + dec_sum ys" if "d < e" "dec_sum xs < ?k" for d e :: nat and xs
  proof -
    have "(d + 1) * ?k \<le> e * ?k" using that(1) by (intro mult_right_mono) simp_all
    with that(2) show ?thesis by simp
  qed
  have "x < y \<longleftrightarrow> d < e" "x = y \<longleftrightarrow> d = e"
    using de dec_digit_less by (auto simp: dec_digit_def)
  moreover have "dec_sum (x # xs) = d * ?k + dec_sum xs" "dec_sum (y # ys) = e * ?k + dec_sum ys"
    using de Cons.hyps by simp_all
  moreover have "\<not> d * ?k + dec_sum xs < e * ?k + dec_sum ys" if "e < d"
  proof -
    have "(e + 1) * ?k \<le> d * ?k" using that by (intro mult_right_mono) simp_all
    with b show ?thesis by simp
  qed
  ultimately show ?case
    using Cons.IH [OF digs] carry [of d e xs] b by (cases d e rule: linorder_cases) auto
qed simp

subsection \<open>Keys and sequence numbers\<close>

lemma unat_u64_less [simp]: "unat (x :: u64) < 2 ^ 64"
  using unsigned_less [of x, where 'a = nat] by simp

lemma length_fmt_seq [simp]: "length (fmt_020d (unat (s :: u64))) = 20"
  by (rule length_fmt_020d) (rule unat_u64_less)

lemma parse_dec_digits_sum:
  "dec_digits s \<Longrightarrow> acc * 10 ^ length s + dec_sum s < 2 ^ 64 \<Longrightarrow>
     parse_dec_digits acc s = Some (acc * 10 ^ length s + dec_sum s)"
proof (induction s arbitrary: acc)
  case (Cons c cs)
  then obtain d where d: "d < 10" "c = dec_digit d" and digs: "dec_digits cs"
    by (auto simp: dec_digits_def)
  have eq: "acc * 10 ^ length (c # cs) + dec_sum (c # cs) = (10 * acc + d) * 10 ^ length cs + dec_sum cs"
    using d by (simp add: algebra_simps)
  have "(10 * acc + d) * 1 \<le> (10 * acc + d) * 10 ^ length cs" by (intro mult_left_mono) simp_all
  then have "10 * acc + d \<le> (10 * acc + d) * 10 ^ length cs + dec_sum cs" unfolding mult_1_right by (rule trans_le_add1)
  with Cons.prems(2) have "10 * acc + d < 2 ^ 64" unfolding eq by (rule le_less_trans [rotated])
  then show ?case
    using Cons.IH [OF digs, of "10 * acc + d"] Cons.prems(2) d(1) unfolding eq by (simp add: d(2))
qed simp

lemma parse_fmt_020d:
  assumes "n < 2 ^ 64"
  shows "ParseUint10 (fmt_020d n) = Some n"
  using parse_dec_digits_sum [OF fmt_020d_digits, of 0 n] length_fmt_020d [OF assms] assms
  by (auto simp: ParseUint10_def)

lemma dec_digit_not_slash: "d < 10 \<Longrightarrow> dec_digit d \<noteq> CHR ''/''"
proof
  assume "d < 10" and "dec_digit d = CHR ''/''"
  then have "of_char (dec_digit d) = (47 :: nat)" by simp
  with \<open>d < 10\<close> show False by simp
qed

lemma fmt_020d_no_slash: "CHR ''/'' \<notin> set (fmt_020d n)"
  using fmt_020d_digits [of n] dec_digit_not_slash by (fastforce simp: dec_digits_def)

lemma path_Base_last:
  assumes "CHR ''/'' \<notin> set b" and "b \<noteq> []"
  shows "path_Base (p @ CHR ''/'' # b) = b"
proof -
  obtain c cs where rb: "rev b = c # cs" using assms(2) by (cases "rev b") auto
  with assms(1) have "c \<noteq> CHR ''/''" by (metis list.set_intros(1) set_rev)
  then have drop: "dropWhile (\<lambda>c. c = CHR ''/'') (rev b @ CHR ''/'' # rev p) = rev b @ CHR ''/'' # rev p"
    by (simp add: rb)
  have "takeWhile (\<lambda>c. c \<noteq> CHR ''/'') (rev b @ CHR ''/'' # rev p) = rev b"
    using assms(1) by (subst takeWhile_append2) auto
  then show ?thesis using assms(2) drop by (simp add: path_Base_def Let_def)
qed

lemma length_segmentKey: "length (segmentKey p s) = length p + 30"
  by (simp add: segmentKey_def recordio_suffix_def)

lemma segmentKey_inject [simp]: "segmentKey p a = segmentKey p b \<longleftrightarrow> a = b"
  by (simp add: segmentKey_def word_unat_eq_iff)

lemma segmentKey_prefix [simp]: "prefix (p @ ''/'') (segmentKey p s)"
  by (simp add: segmentKey_def)

lemma append_less_iff:
  fixes a b c d :: string
  assumes "length a = length b"
  shows "a @ c < b @ d \<longleftrightarrow> a < b \<or> a = b \<and> c < d"
  using assms by (induction a b rule: list_induct2) auto

lemma segmentKey_less: "segmentKey p a < segmentKey p b \<longleftrightarrow> a < b"
proof -
  have "fmt_020d (unat a) < fmt_020d (unat b) \<longleftrightarrow> unat a < unat b"
    by (subst dec_less) (auto simp: fmt_020d_digits)
  then show ?thesis
    by (simp add: segmentKey_def append_less_iff word_less_nat_alt)
qed

lemma parseSeq_segmentKey:
  assumes "s \<noteq> 0"
  shows "parseSeq (segmentKey p s) = Inr s"
proof -
  let ?b = "fmt_020d (unat s) @ recordio_suffix"
  have "path_Base (segmentKey p s) = ?b"
    unfolding segmentKey_def append_Cons append_Nil
    by (rule path_Base_last) (auto simp: fmt_020d_no_slash recordio_suffix_def)
  moreover have "suffix recordio_suffix ?b" by (simp add: suffix_def)
  moreover have "take (length ?b - length recordio_suffix) ?b = fmt_020d (unat s)" by simp
  moreover have "unat s \<noteq> 0" using assms by (simp add: unat_eq_0)
  ultimately show ?thesis
    using parse_fmt_020d [OF unat_u64_less [of s]]
    by (simp only: parseSeq_def Let_def simp_thms if_False if_True option.case) simp
qed

end
