(* ===== verification/Generation.thy ===== *)
theory Generation
  imports Prelude
begin

text \<open>
  The generation tokens of the in-memory and the local-disk store
  (\<open>localGeneration\<close> and \<open>validLocalGeneration\<close> in \<open>src/objectstore/local.go\<close>): a counter or
  time stamp and the object's size, both in base 16, joined by a hyphen; and the parts of \<open>strconv\<close> and
  \<open>strings\<close> they use.
\<close>

subsection \<open>strconv.FormatInt and strconv.ParseInt in base 16\<close>

definition hex_digit :: "nat \<Rightarrow> char" where
  "hex_digit d = (if d < 10 then char_of (48 + d) else char_of (87 + d))"

fun hex_of_nat :: "nat \<Rightarrow> string" where
  "hex_of_nat n = (if n < 16 then [hex_digit n] else hex_of_nat (n div 16) @ [hex_digit (n mod 16)])"

declare hex_of_nat.simps [simp del]

definition FormatInt16 :: "int \<Rightarrow> string" where
  "FormatInt16 i = (if i < 0 then CHR ''-'' # hex_of_nat (nat (- i)) else hex_of_nat (nat i))"

definition hex_value :: "char \<Rightarrow> nat option" where
  "hex_value c =
     (let n = of_char c :: nat
      in if 48 \<le> n \<and> n \<le> 57 then Some (n - 48)
         else if 97 \<le> n \<and> n \<le> 102 then Some (n - 87)
         else if 65 \<le> n \<and> n \<le> 70 then Some (n - 55)
         else None)"

text \<open>\<open>strconv.ParseUint(s, 16, 64)\<close>: \<open>None\<close> for a syntax or a range error.\<close>

fun parse_hex_digits :: "nat \<Rightarrow> string \<Rightarrow> nat option" where
  "parse_hex_digits acc [] = Some acc"
| "parse_hex_digits acc (c # cs) =
     (case hex_value c of
        None \<Rightarrow> None
      | Some d \<Rightarrow> if 2 ^ 64 \<le> 16 * acc + d then None else parse_hex_digits (16 * acc + d) cs)"

definition ParseUint16 :: "string \<Rightarrow> nat option" where
  "ParseUint16 s = (if s = [] then None else parse_hex_digits 0 s)"

definition ParseInt16 :: "string \<Rightarrow> int option" where
  "ParseInt16 s =
     (case s of
        [] \<Rightarrow> None
      | c # cs \<Rightarrow>
          (let neg = (c = CHR ''-''); rest = (if c = CHR ''-'' \<or> c = CHR ''+'' then cs else s)
           in case ParseUint16 rest of
                None \<Rightarrow> None
              | Some un \<Rightarrow>
                  if \<not> neg \<and> 2 ^ 63 \<le> un then None
                  else if neg \<and> 2 ^ 63 < un then None
                  else Some (if neg then - int un else int un)))"

text \<open>\<open>strings.Cut(s, "-")\<close>: the text before and after the first hyphen.\<close>

definition cut_hyphen :: "string \<Rightarrow> (string \<times> string) option" where
  "cut_hyphen s =
     (if CHR ''-'' \<in> set s
      then Some (takeWhile (\<lambda>c. c \<noteq> CHR ''-'') s, tl (dropWhile (\<lambda>c. c \<noteq> CHR ''-'') s))
      else None)"

subsection \<open>local.go\<close>

definition localGeneration :: "int \<Rightarrow> int \<Rightarrow> string" where
  "localGeneration modTime sz = FormatInt16 modTime @ ''-'' @ FormatInt16 sz"

definition validLocalGeneration :: "string \<Rightarrow> bool" where
  "validLocalGeneration g =
     (case cut_hyphen g of
        None \<Rightarrow> False
      | Some (m, sz) \<Rightarrow> (if ParseInt16 m = None then False else ParseInt16 sz \<noteq> None))"

subsection \<open>Printing and parsing\<close>

lemma hex_value_digit: "d < 16 \<Longrightarrow> hex_value (hex_digit d) = Some d"
  by (auto simp: hex_value_def hex_digit_def Let_def)

lemma hex_digit_not_sign:
  assumes "d < 16"
  shows "hex_digit d \<noteq> CHR ''-''" and "hex_digit d \<noteq> CHR ''+''"
  using hex_value_digit [OF assms] by (auto simp: hex_value_def)

lemma hex_of_nat_Nil [simp]: "hex_of_nat n \<noteq> []"
  by (subst hex_of_nat.simps) simp

lemma hex_of_nat_digits: "c \<in> set (hex_of_nat n) \<Longrightarrow> \<exists>d < 16. c = hex_digit d"
proof (induction n rule: hex_of_nat.induct)
  case (1 n)
  show ?case
  proof (cases "n < 16")
    case True
    with "1.prems" show ?thesis by (auto simp: hex_of_nat.simps [of n])
  next
    case False
    with "1.prems" have "c \<in> set (hex_of_nat (n div 16)) \<or> c = hex_digit (n mod 16)"
      by (auto simp: hex_of_nat.simps [of n])
    with "1.IH" [OF False] show ?thesis by (auto intro: exI [of _ "n mod 16"])
  qed
qed

lemma parse_hex_digits_snoc:
  "parse_hex_digits acc (cs @ [hex_digit d]) =
     (case parse_hex_digits acc cs of
        None \<Rightarrow> None
      | Some a \<Rightarrow> if 2 ^ 64 \<le> 16 * a + d then None else Some (16 * a + d))" if "d < 16"
  using that by (induction acc cs rule: parse_hex_digits.induct) (auto simp: hex_value_digit split: option.splits)

lemma parse_hex_of_nat: "n < 2 ^ 64 \<Longrightarrow> parse_hex_digits 0 (hex_of_nat n) = Some n"
proof (induction n rule: hex_of_nat.induct)
  case (1 n)
  show ?case
  proof (cases "n < 16")
    case True
    then show ?thesis by (simp add: hex_of_nat.simps [of n] hex_value_digit)
  next
    case False
    have "parse_hex_digits 0 (hex_of_nat (n div 16)) = Some (n div 16)"
      using "1.prems" by (intro "1.IH" [OF False]) (simp add: div_le_dividend le_less_trans)
    moreover have "16 * (n div 16) + n mod 16 = n" by simp
    ultimately show ?thesis
      using False "1.prems" by (simp add: hex_of_nat.simps [of n] parse_hex_digits_snoc)
  qed
qed

lemma ParseInt16_hex:
  assumes "n < 2 ^ 63"
  shows "ParseInt16 (hex_of_nat n) = Some (int n)"
proof -
  obtain c cs where cs: "hex_of_nat n = c # cs" by (cases "hex_of_nat n") auto
  with hex_of_nat_digits [of c n] obtain d where "d < 16" "c = hex_digit d" by auto
  with cs assms parse_hex_of_nat [of n] show ?thesis
    by (simp add: ParseInt16_def ParseUint16_def hex_digit_not_sign Let_def)
qed

lemma hex_of_nat_no_hyphen: "CHR ''-'' \<notin> set (hex_of_nat n)"
  using hex_of_nat_digits hex_digit_not_sign(1) by metis

lemma cut_localGeneration:
  "cut_hyphen (hex_of_nat a @ CHR ''-'' # b) = Some (hex_of_nat a, b)"
proof -
  have "\<forall>c \<in> set (hex_of_nat a). c \<noteq> CHR ''-''" using hex_of_nat_no_hyphen by blast
  then show ?thesis by (simp add: cut_hyphen_def takeWhile_append2 dropWhile_append2)
qed

lemma hex_of_nat_value: "foldl (\<lambda>a c. 16 * a + the (hex_value c)) 0 (hex_of_nat n) = n"
proof (induction n rule: hex_of_nat.induct)
  case (1 n)
  then show ?case
    by (cases "n < 16") (simp_all add: hex_of_nat.simps [of n] hex_value_digit)
qed

lemma hex_of_nat_inject [simp]: "hex_of_nat a = hex_of_nat b \<longleftrightarrow> a = b"
  by (metis hex_of_nat_value)

lemma localGeneration_inject:
  assumes "localGeneration (int a) (int s) = localGeneration (int b) (int t)"
  shows "a = b \<and> s = t"
proof -
  from assms have "cut_hyphen (hex_of_nat a @ CHR ''-'' # hex_of_nat s)
      = cut_hyphen (hex_of_nat b @ CHR ''-'' # hex_of_nat t)"
    by (simp add: localGeneration_def FormatInt16_def)
  then show ?thesis by (simp add: cut_localGeneration)
qed

lemma localGeneration_nonempty [simp]: "localGeneration a b \<noteq> []"
  by (simp add: localGeneration_def)

lemma localGeneration_valid:
  assumes "a < 2 ^ 63" and "s < 2 ^ 63"
  shows "validLocalGeneration (localGeneration (int a) (int s))"
  using assms
  by (simp add: validLocalGeneration_def localGeneration_def FormatInt16_def cut_localGeneration ParseInt16_hex)

end
