(* ===== verification/Objectstore.thy ===== *)
theory Objectstore
  imports Generation Recordio_Scanner "HOL-Library.AList"
begin

text \<open>
  \<open>src/objectstore/objectstore.go\<close>: the \<open>Store\<close> interface, and its contract.

  A Go interface value is a record of functions, so \<open>'s Store\<close> is one, over a state \<open>'s\<close> that holds
  everything the operations read and change. A \<open>context.Context\<close> is a handle into that state, because its
  \<open>Err()\<close> changes while a call runs. \<open>Get\<close> returns the reader as a \<open>source\<close>, whose reading may fail
  half way.

  The locale \<open>object_store\<close> is the contract the rest of the program relies on. \<open>view\<close> is what the store
  holds, and \<open>rely\<close> bounds what other processes may do to it between two calls of this one. Each law
  describes one call as one atomic step on a view that the other processes may have moved first. \<open>issued\<close>
  is the set of generations handed out so far; \<open>evolves\<close> says that a generation is never given to a second
  content, which is what a compare-and-swap on it needs.
\<close>

subsection \<open>The interface\<close>

abbreviation ErrNotFound :: gerr where "ErrNotFound \<equiv> Sentinel ''objectstore.ErrNotFound''"
abbreviation ErrPreconditionFailed :: gerr where
  "ErrPreconditionFailed \<equiv> Sentinel ''objectstore.ErrPreconditionFailed''"

record Object =
  Key :: string
  Generation :: string
  Size :: nat

record Condition =
  Absent :: bool
  GenerationMatch :: string

type_synonym ctx = nat

record 's Store =
  Store_Close :: "'s \<Rightarrow> gerr option \<times> 's"
  Store_Stat :: "ctx \<Rightarrow> string \<Rightarrow> 's \<Rightarrow> Object result \<times> 's"
  Store_Get :: "ctx \<Rightarrow> string \<Rightarrow> 's \<Rightarrow> (source \<times> Object) result \<times> 's"
  Store_ReadRange :: "ctx \<Rightarrow> string \<Rightarrow> int \<Rightarrow> int \<Rightarrow> 's \<Rightarrow> (source \<times> Object) result \<times> 's"
  Store_Put :: "ctx \<Rightarrow> string \<Rightarrow> source \<Rightarrow> Condition \<Rightarrow> 's \<Rightarrow> string result \<times> 's"
  Store_Delete :: "ctx \<Rightarrow> string \<Rightarrow> 's \<Rightarrow> unit result \<times> 's"
  Store_Exists :: "ctx \<Rightarrow> string \<Rightarrow> 's \<Rightarrow> bool result \<times> 's"
  Store_List :: "ctx \<Rightarrow> string \<Rightarrow> string \<Rightarrow> int \<Rightarrow> 's \<Rightarrow> Object list result \<times> 's"

abbreviation cond_absent :: Condition where
  "cond_absent \<equiv> \<lparr>Absent = True, GenerationMatch = []\<rparr>"

abbreviation cond_generation :: "string \<Rightarrow> Condition" where
  "cond_generation g \<equiv> \<lparr>Absent = False, GenerationMatch = g\<rparr>"

text \<open>\<open>io.ReadAll\<close> on a reader.\<close>

definition ReadAll :: "source \<Rightarrow> bytes result" where
  "ReadAll src = (if src_end src = io_EOF then Inr (src_rest src) else Inl (src_end src))"

subsection \<open>The contract\<close>

type_synonym view = "string \<rightharpoonup> bytes \<times> string"

text \<open>The errors a store returns: its own two sentinels, those of \<open>context\<close>, and errors of the platform, which no
  other package's sentinel is among.\<close>

definition store_err :: "gerr \<Rightarrow> bool" where
  "store_err e \<longleftrightarrow> (\<forall>n. errors_is e (Sentinel n) \<longrightarrow>
     n \<in> {''objectstore.ErrNotFound'', ''objectstore.ErrPreconditionFailed'',
          ''context.Canceled'', ''context.DeadlineExceeded''})"

definition read_err :: "gerr \<Rightarrow> bool" where
  "read_err e \<longleftrightarrow> store_err e \<and> \<not> is_eof e \<and> \<not> errors_is e ErrNotFound \<and> \<not> errors_is e ErrPreconditionFailed"

text \<open>What a reader of an object with content \<open>d\<close> may deliver: all of it, or a prefix and then an error that
  is neither an end of file nor one of the store's two sentinels.\<close>

definition reads_as :: "source \<Rightarrow> bytes \<Rightarrow> bool" where
  "reads_as src d \<longleftrightarrow>
     src_end src = io_EOF \<and> src_rest src = d
     \<or> read_err (src_end src) \<and> prefix (src_rest src) d"

definition holds_cond :: "view \<Rightarrow> string \<Rightarrow> Condition \<Rightarrow> bool" where
  "holds_cond v k cond \<longleftrightarrow>
     (if Absent cond then v k = None
      else GenerationMatch cond \<noteq> [] \<longrightarrow> (\<exists>d. v k = Some (d, GenerationMatch cond)))"

definition list_keys :: "view \<Rightarrow> string \<Rightarrow> string \<Rightarrow> int \<Rightarrow> string list" where
  "list_keys v pre start limit =
     (let ks = sorted_list_of_set {k \<in> dom v. prefix pre k \<and> start < k}
      in if 0 < limit then take (nat limit) ks else ks)"

text \<open>From \<open>v\<close> to \<open>v'\<close> every generation outside \<open>v\<close> is a new one.\<close>

definition fresh_since :: "string set \<Rightarrow> view \<Rightarrow> view \<Rightarrow> bool" where
  "fresh_since iss v v' \<longleftrightarrow> (\<forall>k d g. v' k = Some (d, g) \<longrightarrow> v k = Some (d, g) \<or> g \<notin> iss)"

locale object_store =
  fixes S :: "'s Store"
    and view :: "'s \<Rightarrow> view"
    and inv :: "'s \<Rightarrow> bool"
    and issued :: "'s \<Rightarrow> string set"
    and rely :: "view \<Rightarrow> view \<Rightarrow> bool"
    and evolves :: "'s \<Rightarrow> 's \<Rightarrow> bool"
  assumes rely_refl: "rely v v"
    and finite_view: "inv s \<Longrightarrow> finite (dom (view s))"
    and view_issued: "inv s \<Longrightarrow> view s k = Some (d, g) \<Longrightarrow> g \<in> issued s \<and> g \<noteq> []"
    and evolves_def: "evolves s s' \<longleftrightarrow> issued s \<subseteq> issued s'
      \<and> fresh_since (issued s) (view s) (view s')"
    and get_law: "inv s \<Longrightarrow> Store_Get S c k s = (rg, s') \<Longrightarrow>
      inv s' \<and> evolves s s' \<and> rely (view s) (view s') \<and>
      (case rg of
         Inr (src, obj) \<Rightarrow> (\<exists>d. view s' k = Some (d, Generation obj) \<and> reads_as src d)
       | Inl e \<Rightarrow> store_err e \<and> (errors_is e ErrNotFound \<longrightarrow> view s' k = None))"
    and put_law: "inv s \<Longrightarrow> Store_Put S c k (bytes_Reader d) cond s = (rp, s') \<Longrightarrow>
      inv s' \<and> evolves s s' \<and>
      (case rp of
         Inr g \<Rightarrow> g \<notin> issued s \<and> g \<noteq> [] \<and>
           (\<exists>v. rely (view s) v \<and> fresh_since (issued s) (view s) v \<and> holds_cond v k cond
              \<and> view s' = v(k \<mapsto> (d, g)))
       | Inl e \<Rightarrow> store_err e \<and>
           (if errors_is e ErrPreconditionFailed
            then rely (view s) (view s') \<and> \<not> holds_cond (view s') k cond
            else rely (view s) (view s') \<or>
              (\<exists>v g. g \<notin> issued s \<and> rely (view s) v \<and> fresh_since (issued s) (view s) v \<and> holds_cond v k cond
                 \<and> view s' = v(k \<mapsto> (d, g)))))"
    and delete_law: "inv s \<Longrightarrow> Store_Delete S c k s = (rd, s') \<Longrightarrow>
      inv s' \<and> evolves s s' \<and>
      (case rd of
         Inr _ \<Rightarrow> (\<exists>v. rely (view s) v \<and> v k \<noteq> None \<and> view s' = v(k := None))
       | Inl e \<Rightarrow> store_err e \<and>
           (if errors_is e ErrNotFound then rely (view s) (view s') \<and> view s' k = None
            else \<exists>v. rely (view s) v \<and> (view s' = v \<or> view s' = v(k := None))))"
    and exists_law: "inv s \<Longrightarrow> Store_Exists S c k s = (re, s') \<Longrightarrow>
      inv s' \<and> evolves s s' \<and> rely (view s) (view s') \<and> (\<forall>b. re = Inr b \<longrightarrow> b = (view s' k \<noteq> None))
      \<and> (\<forall>e. re = Inl e \<longrightarrow> store_err e)"
    and list_law: "inv s \<Longrightarrow> Store_List S c pre start limit s = (rl, s') \<Longrightarrow>
      inv s' \<and> evolves s s' \<and> rely (view s) (view s') \<and>
      (\<forall>objs. rl = Inr objs \<longrightarrow> map Key objs = list_keys (view s') pre start limit)
      \<and> (\<forall>e. rl = Inl e \<longrightarrow> store_err e)"
begin

lemma evolves_refl: "evolves s s"
  by (simp add: evolves_def fresh_since_def)

lemma evolves_trans: "evolves s s' \<Longrightarrow> evolves s' s'' \<Longrightarrow> evolves s s''"
  unfolding evolves_def fresh_since_def by blast

text \<open>A compare-and-swap on a generation that was read succeeds only on the content that was read.\<close>

lemma generation_identifies_content:
  assumes "inv s" and "view s k = Some (d, g)" and "evolves s s'" and "view s' k = Some (d', g)"
  shows "d' = d"
proof -
  from view_issued [OF assms(1,2)] have "g \<in> issued s" by simp
  with assms(2-4) show ?thesis unfolding evolves_def fresh_since_def by fastforce
qed

end

end
