(* ===== verification/Memstore.thy ===== *)
theory Memstore
  imports Objectstore
begin

text \<open>
  \<open>src/objectstore/mem.go\<close>: the in-memory store, and the \<open>world\<close> the program runs in.

  \<open>objects\<close> is the Go map as an association list with distinct keys, \<open>genSeq\<close> the counter (an \<open>int64\<close>
  in the code, which wraps only after \<open>2 ^ 63\<close> successful puts; here it is a natural number). Every
  operation takes the value of \<open>ctx.Err()\<close> at its start. An operation holds the store's mutex for its whole
  length, so it is one step.

  A \<open>world\<close> is a \<open>memStore\<close> shared with other processes over a network that may fail: before each call it
  takes one \<open>turn\<close> of its script, in which the other processes change the store and contexts end, and the
  call may fail before it reaches the store, after it did (the acknowledgement is lost), or while its result
  is read. With an empty script it is the plain \<open>memStore\<close>.
\<close>

subsection \<open>State\<close>

record memEntry =
  e_data :: bytes
  e_generation :: string

record memStore =
  objects :: "(string \<times> memEntry) list"
  genSeq :: nat

definition newMemStore :: memStore where
  "newMemStore = \<lparr>objects = [], genSeq = 0\<rparr>"

definition mem_Close :: "memStore \<Rightarrow> gerr option \<times> memStore" where
  "mem_Close m = (None, m)"

definition entry_object :: "string \<Rightarrow> memEntry \<Rightarrow> Object" where
  "entry_object k e = \<lparr>Key = k, Generation = e_generation e, Size = length (e_data e)\<rparr>"

subsection \<open>Operations\<close>

definition mem_Stat :: "gerr option \<Rightarrow> string \<Rightarrow> memStore \<Rightarrow> Object result" where
  "mem_Stat err k m =
     (case err of
        Some e \<Rightarrow> Inl e
      | None \<Rightarrow>
          (case map_of (objects m) k of
             None \<Rightarrow> Inl (Wrap ''key'' ErrNotFound)
           | Some e \<Rightarrow> Inr (entry_object k e)))"

definition mem_Get :: "gerr option \<Rightarrow> string \<Rightarrow> memStore \<Rightarrow> (source \<times> Object) result" where
  "mem_Get err k m =
     (case err of
        Some e \<Rightarrow> Inl e
      | None \<Rightarrow>
          (case map_of (objects m) k of
             None \<Rightarrow> Inl (Wrap ''key'' ErrNotFound)
           | Some e \<Rightarrow> Inr (bytes_Reader (e_data e), entry_object k e)))"

text \<open>
  \<open>offset + length\<close> is an \<open>int64\<close> sum and wraps. The slice expression \<open>e.data[offset:end]\<close> panics unless
  \<open>0 \<le> offset \<le> end \<le> len\<close>.
\<close>

definition int64 :: "int \<Rightarrow> int" where
  "int64 i = sint (word_of_int i :: 64 word)"

definition mem_ReadRange :: "gerr option \<Rightarrow> string \<Rightarrow> int \<Rightarrow> int \<Rightarrow> memStore \<Rightarrow> (source \<times> Object) result" where
  "mem_ReadRange err k offset len m =
     (case err of
        Some e \<Rightarrow> Inl e
      | None \<Rightarrow>
          if offset < 0 \<or> len < 0 then Inl (ErrMsg ''objectstore: invalid range'')
          else
            (case map_of (objects m) k of
               None \<Rightarrow> Inl (Wrap ''key'' ErrNotFound)
             | Some e \<Rightarrow>
                 (let sz = int (length (e_data e))
                  in if offset > sz then Inl (ErrMsg ''objectstore: offset exceeds object size'')
                     else
                       (let end0 = int64 (offset + len);
                            end1 = (if end0 > sz then sz else end0)
                        in if end1 < offset then Inl (Panic ''slice bounds out of range'')
                           else Inr (bytes_Reader (take (nat (end1 - offset)) (drop (nat offset) (e_data e))),
                                     entry_object k e)))))"

definition mem_Exists :: "gerr option \<Rightarrow> string \<Rightarrow> memStore \<Rightarrow> bool result" where
  "mem_Exists err k m =
     (case err of Some e \<Rightarrow> Inl e | None \<Rightarrow> Inr (map_of (objects m) k \<noteq> None))"

definition mem_Delete :: "gerr option \<Rightarrow> string \<Rightarrow> memStore \<Rightarrow> unit result \<times> memStore" where
  "mem_Delete err k m =
     (case err of
        Some e \<Rightarrow> (Inl e, m)
      | None \<Rightarrow>
          if map_of (objects m) k = None then (Inl (Wrap ''key'' ErrNotFound), m)
          else (Inr (), m\<lparr>objects := AList.delete k (objects m)\<rparr>))"

definition mem_Put :: "gerr option \<Rightarrow> string \<Rightarrow> source \<Rightarrow> Condition \<Rightarrow> memStore \<Rightarrow> string result \<times> memStore" where
  "mem_Put err k r cond m =
     (case err of
        Some e \<Rightarrow> (Inl e, m)
      | None \<Rightarrow>
          if GenerationMatch cond \<noteq> [] \<and> \<not> validLocalGeneration (GenerationMatch cond)
          then (Inl (ErrMsg ''objectstore: key: malformed generation''), m)
          else
            (case ReadAll r of
               Inl e \<Rightarrow> (Inl e, m)
             | Inr data \<Rightarrow>
                 (let old = map_of (objects m) k;
                      failed = (if Absent cond then old \<noteq> None
                                else GenerationMatch cond \<noteq> [] \<and>
                                  (case old of None \<Rightarrow> True | Some e \<Rightarrow> e_generation e \<noteq> GenerationMatch cond))
                  in if failed then (Inl (Wrap ''key'' ErrPreconditionFailed), m)
                     else
                       (let n = genSeq m + 1;
                            gen = localGeneration (int n) (int (length data))
                        in (Inr gen,
                            m\<lparr>genSeq := n,
                              objects := AList.update k \<lparr>e_data = data, e_generation = gen\<rparr> (objects m)\<rparr>)))))"

definition mem_List :: "gerr option \<Rightarrow> string \<Rightarrow> string \<Rightarrow> int \<Rightarrow> memStore \<Rightarrow> Object list result" where
  "mem_List err pre startAfter limit m =
     (case err of
        Some e \<Rightarrow> Inl e
      | None \<Rightarrow>
          (let keys = sort (filter (\<lambda>k. prefix pre k \<and> k > startAfter) (map fst (objects m)));
               keys' = (if limit > 0 \<and> int (length keys) > limit then take (nat limit) keys else keys)
           in Inr (map (\<lambda>k. entry_object k (the (map_of (objects m) k))) keys')))"

subsection \<open>What the store holds\<close>

definition mem_view :: "memStore \<Rightarrow> view" where
  "mem_view m k = map_option (\<lambda>e. (e_data e, e_generation e)) (map_of (objects m) k)"

definition mem_issued :: "memStore \<Rightarrow> string set" where
  "mem_issued m = {localGeneration (int n) (int sz) | n sz. n \<le> genSeq m}"

definition mem_inv :: "memStore \<Rightarrow> bool" where
  "mem_inv m \<longleftrightarrow> distinct (map fst (objects m)) \<and>
     (\<forall>k d g. mem_view m k = Some (d, g) \<longrightarrow>
        (\<exists>n \<le> genSeq m. g = localGeneration (int n) (int (length d))))"

definition mem_evolves :: "memStore \<Rightarrow> memStore \<Rightarrow> bool" where
  "mem_evolves m m' \<longleftrightarrow> mem_issued m \<subseteq> mem_issued m'
     \<and> fresh_since (mem_issued m) (mem_view m) (mem_view m')"

lemma mem_view_None [store_simps]: "map_of (objects m) k = None \<longleftrightarrow> mem_view m k = None"
  by (simp add: mem_view_def)

lemma dom_mem_view: "dom (mem_view m) = set (map fst (objects m))"
proof -
  have "dom (mem_view m) = dom (map_of (objects m))" by (auto simp: mem_view_def dom_def)
  then show ?thesis by (simp add: dom_map_of_conv_image_fst)
qed

lemma mem_evolves_refl [simp]: "mem_evolves m m"
  by (simp add: mem_evolves_def fresh_since_def)

lemma mem_evolves_trans: "mem_evolves m m' \<Longrightarrow> mem_evolves m' m'' \<Longrightarrow> mem_evolves m m''"
  unfolding mem_evolves_def fresh_since_def by blast

lemma mem_inv_newMemStore [simp]: "mem_inv newMemStore"
  by (simp add: mem_inv_def newMemStore_def mem_view_def)

lemma mem_issued_fresh: "localGeneration (int (genSeq m + 1)) (int sz) \<notin> mem_issued m"
  unfolding mem_issued_def using localGeneration_inject by fastforce

subsection \<open>The operations on the view\<close>

lemma mem_view_Delete: "mem_view (m\<lparr>objects := AList.delete k (objects m)\<rparr>) = (mem_view m)(k := None)"
  by (auto simp: mem_view_def delete_conv' fun_eq_iff)

lemma mem_view_Put:
  "mem_view (m\<lparr>genSeq := n, objects := AList.update k \<lparr>e_data = d, e_generation = g\<rparr> (objects m)\<rparr>)
     = (mem_view m)(k \<mapsto> (d, g))"
  by (auto simp: mem_view_def update_conv' fun_eq_iff)

lemma holds_cond_mem:
  "holds_cond (mem_view m) k cond \<longleftrightarrow>
     \<not> (if Absent cond then map_of (objects m) k \<noteq> None
        else GenerationMatch cond \<noteq> [] \<and>
          (case map_of (objects m) k of None \<Rightarrow> True | Some e \<Rightarrow> e_generation e \<noteq> GenerationMatch cond))"
  by (auto simp: holds_cond_def mem_view_def split: option.splits)

lemma mem_Put_eq:
  "mem_Put err k (bytes_Reader d) cond m =
     (case err of
        Some e \<Rightarrow> (Inl e, m)
      | None \<Rightarrow>
          if GenerationMatch cond \<noteq> [] \<and> \<not> validLocalGeneration (GenerationMatch cond)
          then (Inl (ErrMsg ''objectstore: key: malformed generation''), m)
          else if \<not> holds_cond (mem_view m) k cond then (Inl (Wrap ''key'' ErrPreconditionFailed), m)
          else
            (let gen = localGeneration (int (genSeq m + 1)) (int (length d))
             in (Inr gen,
                 m\<lparr>genSeq := genSeq m + 1,
                   objects := AList.update k \<lparr>e_data = d, e_generation = gen\<rparr> (objects m)\<rparr>)))"
  unfolding mem_Put_def holds_cond_mem not_not
  by (simp only: ReadAll_def bytes_Reader_def Let_def source.select_convs sum.case simp_thms if_True)

lemma mem_Put_cases:
  assumes "mem_Put err k (bytes_Reader d) cond m = (r, m')"
  obtains (error) e where "err = Some e" "r = Inl e" "m' = m"
  | (malformed) "r = Inl (ErrMsg ''objectstore: key: malformed generation'')" "m' = m"
      "\<not> validLocalGeneration (GenerationMatch cond)" "GenerationMatch cond \<noteq> []"
  | (precondition) "r = Inl (Wrap ''key'' ErrPreconditionFailed)" "m' = m" "\<not> holds_cond (mem_view m) k cond"
  | (stored) g where "r = Inr g" "g = localGeneration (int (genSeq m + 1)) (int (length d))"
      "holds_cond (mem_view m) k cond"
      "m' = m\<lparr>genSeq := genSeq m + 1, objects := AList.update k \<lparr>e_data = d, e_generation = g\<rparr> (objects m)\<rparr>"
proof (cases err)
  case (Some e)
  show ?thesis by (rule error [OF Some]) (use assms Some in \<open>auto simp: mem_Put_eq\<close>)
next
  case None
  note eq = assms [unfolded mem_Put_eq None option.case Let_def]
  show ?thesis
  proof (cases "GenerationMatch cond \<noteq> [] \<and> \<not> validLocalGeneration (GenerationMatch cond)")
    case True
    show ?thesis by (rule malformed) (use True eq [unfolded if_P [OF True]] in auto)
  next
    case False
    note eq = eq [unfolded if_not_P [OF False]]
    show ?thesis
    proof (cases "holds_cond (mem_view m) k cond")
      case True
      with eq show ?thesis by (intro stored [OF _ refl]) (simp_all only: simp_thms if_False prod.inject)
    next
      case no: False
      show ?thesis by (rule precondition) (use no eq [unfolded if_P [OF no]] in auto)
    qed
  qed
qed

lemma mem_Put_inv:
  assumes "mem_inv m" and "mem_Put err k (bytes_Reader d) cond m = (r, m')"
  shows "mem_inv m' \<and> mem_evolves m m'"
  using assms(2)
proof (cases rule: mem_Put_cases)
  case (stored g)
  have v: "mem_view m' = (mem_view m)(k \<mapsto> (d, g))" and gs: "genSeq m' = genSeq m + 1"
    by (simp_all only: stored mem_view_Put) simp
  from stored(4) assms(1) have dis: "distinct (map fst (objects m'))"
    by (simp add: mem_inv_def distinct_update)
  have "mem_issued m \<subseteq> mem_issued m'" by (force simp: mem_issued_def gs)
  then have "mem_evolves m m'"
    using mem_issued_fresh [of m "length d"] by (auto simp: mem_evolves_def fresh_since_def v stored(2))
  moreover have "mem_inv m'"
    unfolding mem_inv_def v gs
  proof (intro conjI allI impI)
    fix k' d' g'
    assume "((mem_view m)(k \<mapsto> (d, g))) k' = Some (d', g')"
    then show "\<exists>n \<le> genSeq m + 1. g' = localGeneration (int n) (int (length d'))"
      using assms(1) stored(2) unfolding mem_inv_def by (metis fun_upd_apply le_refl option.inject prod.inject trans_le_add1)
  qed (rule dis)
  ultimately show ?thesis by simp
qed (use assms(1) in auto)

lemma mem_Delete_cases:
  assumes "mem_Delete err k m = (r, m')"
  obtains (error) e where "err = Some e" "r = Inl e" "m' = m"
  | (absent) "r = Inl (Wrap ''key'' ErrNotFound)" "m' = m" "mem_view m k = None"
  | (deleted) "r = Inr ()" "mem_view m k \<noteq> None" "m' = m\<lparr>objects := AList.delete k (objects m)\<rparr>"
proof (cases err)
  case (Some e)
  show ?thesis by (rule error [OF Some]) (use assms Some in \<open>auto simp: mem_Delete_def\<close>)
next
  case None
  show ?thesis
  proof (cases "mem_view m k = None")
    case True
    show ?thesis by (rule absent) (use assms None True in \<open>auto simp: mem_Delete_def store_simps\<close>)
  next
    case False
    show ?thesis by (rule deleted) (use assms None False in \<open>auto simp: mem_Delete_def store_simps\<close>)
  qed
qed

lemma mem_Delete_inv:
  assumes "mem_inv m" and "mem_Delete err k m = (r, m')"
  shows "mem_inv m' \<and> mem_evolves m m'"
  using assms(2)
proof (cases rule: mem_Delete_cases)
  case deleted
  then have v: "mem_view m' = (mem_view m)(k := None)" and "genSeq m' = genSeq m"
    and "objects m' = AList.delete k (objects m)"
    by (simp_all only: mem_view_Delete) simp_all
  then show ?thesis
    using assms(1) by (simp add: mem_inv_def mem_evolves_def fresh_since_def mem_issued_def distinct_delete)
qed (use assms(1) in auto)

lemma mem_List_keys:
  assumes "mem_inv m" and "mem_List None pre start limit m = Inr objs"
  shows "map Key objs = list_keys (mem_view m) pre start limit"
proof -
  define ks where "ks = filter (\<lambda>k. prefix pre k \<and> k > start) (map fst (objects m))"
  have "{k \<in> dom (mem_view m). prefix pre k \<and> start < k} = set ks"
    by (auto simp: dom_mem_view ks_def)
  moreover have "distinct ks" using assms(1) by (simp add: mem_inv_def ks_def)
  ultimately have ks: "sorted_list_of_set {k \<in> dom (mem_view m). prefix pre k \<and> start < k} = sort ks"
    by (simp add: sorted_list_of_set_sort_remdups distinct_remdups_id)
  have "map (\<lambda>k. Key (entry_object k (f k))) xs = xs" for f xs by (simp add: entry_object_def)
  with assms(2) have "map Key objs = (if limit > 0 \<and> int (length (sort ks)) > limit
      then take (nat limit) (sort ks) else sort ks)"
    unfolding mem_List_def ks_def [symmetric] Let_def by (auto simp: comp_def)
  then show ?thesis unfolding list_keys_def Let_def ks by auto
qed

end
