(* ===== verification/World.thy ===== *)
theory World
  imports Memstore
begin

text \<open>
  The world the program runs in: the store of \<open>Memstore\<close>, the other processes that use it, the contexts and the
  network in between. It interprets the contract \<open>object_store\<close> on the operations of \<open>mem.go\<close>, for every
  bound \<open>R\<close> on the other processes.

  Before each call the world takes one \<open>turn\<close> of its script: the other processes act on the store (\<open>t_env\<close>, as
  many of their own operations as they like), a context ends (\<open>t_cancel\<close>), and the network treats the call
  as \<open>t_fault\<close> says. With an empty script the world is the plain \<open>memStore\<close>.
\<close>

datatype fault = NoFault | FailBefore string | FailAfter string | ReadFail nat string

record turn =
  t_env :: "memStore \<Rightarrow> memStore"
  t_cancel :: "(ctx \<times> gerr) option"
  t_fault :: fault

record world =
  wd_mem :: memStore
  wd_done :: "ctx \<Rightarrow> gerr option"
  wd_script :: "turn list"

definition idle_turn :: turn where
  "idle_turn = \<lparr>t_env = (\<lambda>m. m), t_cancel = None, t_fault = NoFault\<rparr>"

definition new_world :: "turn list \<Rightarrow> world" where
  "new_world ts = \<lparr>wd_mem = newMemStore, wd_done = (\<lambda>_. None), wd_script = ts\<rparr>"

definition next_turn :: "world \<Rightarrow> turn" where
  "next_turn w = (case wd_script w of [] \<Rightarrow> idle_turn | t # _ \<Rightarrow> t)"

definition take_turn :: "world \<Rightarrow> world" where
  "take_turn w =
     (let t = next_turn w
      in \<lparr>wd_mem = t_env t (wd_mem w),
          wd_done = (case t_cancel t of
                       None \<Rightarrow> wd_done w
                     | Some (c, e) \<Rightarrow> (wd_done w)(c := (case wd_done w c of None \<Rightarrow> Some e | Some e' \<Rightarrow> Some e'))),
          wd_script = tl (wd_script w)\<rparr>)"

definition ctx_Err :: "ctx \<Rightarrow> world \<Rightarrow> gerr option" where
  "ctx_Err c w = wd_done w c"

text \<open>A call of a store operation \<open>f\<close> over the network.\<close>

definition world_call :: "ctx \<Rightarrow> (gerr option \<Rightarrow> memStore \<Rightarrow> 'r result \<times> memStore) \<Rightarrow> world \<Rightarrow> 'r result \<times> world" where
  "world_call c f w =
     (let w1 = take_turn w; (r, m) = f (wd_done w1 c) (wd_mem w1)
      in case t_fault (next_turn w) of
           FailBefore msg \<Rightarrow> (Inl (ErrMsg msg), w1)
         | FailAfter msg \<Rightarrow> (Inl (ErrMsg msg), w1\<lparr>wd_mem := m\<rparr>)
         | _ \<Rightarrow> (r, w1\<lparr>wd_mem := m\<rparr>))"

text \<open>A call that returns a reader, whose reading the network may cut after \<open>n\<close> bytes.\<close>

definition cut_reader :: "fault \<Rightarrow> source \<Rightarrow> source" where
  "cut_reader ft src =
     (case ft of
        ReadFail n msg \<Rightarrow> src\<lparr>src_rest := take n (src_rest src), src_end := ErrMsg msg\<rparr>
      | _ \<Rightarrow> src)"

definition world_read ::
    "ctx \<Rightarrow> (gerr option \<Rightarrow> memStore \<Rightarrow> (source \<times> Object) result) \<Rightarrow> world \<Rightarrow> (source \<times> Object) result \<times> world" where
  "world_read c f w =
     (case world_call c (\<lambda>e m. (f e m, m)) w of
        (Inr (src, obj), w') \<Rightarrow> (Inr (cut_reader (t_fault (next_turn w)) src, obj), w')
      | (Inl e, w') \<Rightarrow> (Inl e, w'))"

definition world_Store :: "world Store" where
  "world_Store =
     \<lparr>Store_Close = (\<lambda>w. (None, w)),
      Store_Stat = (\<lambda>c k. world_call c (\<lambda>e m. (mem_Stat e k m, m))),
      Store_Get = (\<lambda>c k. world_read c (\<lambda>e m. mem_Get e k m)),
      Store_ReadRange = (\<lambda>c k off len. world_read c (\<lambda>e m. mem_ReadRange e k off len m)),
      Store_Put = (\<lambda>c k r cond. world_call c (\<lambda>e m. mem_Put e k r cond m)),
      Store_Delete = (\<lambda>c k. world_call c (\<lambda>e m. mem_Delete e k m)),
      Store_Exists = (\<lambda>c k. world_call c (\<lambda>e m. (mem_Exists e k m, m))),
      Store_List = (\<lambda>c p st lim. world_call c (\<lambda>e m. (mem_List e p st lim m, m)))\<rparr>"

subsection \<open>The contract holds\<close>

text \<open>What the other processes of one turn may do: operations of the same store, within \<open>R\<close>. A context ends
  with one of the two errors of the \<open>context\<close> package.\<close>

definition ctx_error :: "gerr \<Rightarrow> bool" where
  "ctx_error e \<longleftrightarrow> e = context_Canceled \<or> e = context_DeadlineExceeded"

definition turn_ok :: "(view \<Rightarrow> view \<Rightarrow> bool) \<Rightarrow> turn \<Rightarrow> bool" where
  "turn_ok R t \<longleftrightarrow>
     (\<forall>m. mem_inv m \<longrightarrow> mem_inv (t_env t m) \<and> mem_evolves m (t_env t m)
        \<and> R\<^sup>=\<^sup>= (mem_view m) (mem_view (t_env t m)))
     \<and> (\<forall>c e. t_cancel t = Some (c, e) \<longrightarrow> ctx_error e)"

definition world_view :: "world \<Rightarrow> view" where "world_view w = mem_view (wd_mem w)"

definition world_issued :: "world \<Rightarrow> string set" where "world_issued w = mem_issued (wd_mem w)"

definition world_inv :: "(view \<Rightarrow> view \<Rightarrow> bool) \<Rightarrow> world \<Rightarrow> bool" where
  "world_inv R w \<longleftrightarrow> mem_inv (wd_mem w) \<and> (\<forall>t \<in> set (wd_script w). turn_ok R t)
     \<and> (\<forall>c e. wd_done w c = Some e \<longrightarrow> ctx_error e)"

definition world_evolves :: "world \<Rightarrow> world \<Rightarrow> bool" where
  "world_evolves w w' \<longleftrightarrow> mem_evolves (wd_mem w) (wd_mem w')"

lemma turn_ok_idle [simp]: "turn_ok R idle_turn"
  by (simp add: turn_ok_def idle_turn_def)

lemma turn_ok_next: "world_inv R w \<Longrightarrow> turn_ok R (next_turn w)"
  by (auto simp: world_inv_def next_turn_def split: list.split)

lemma take_turn_inv:
  assumes "world_inv R w"
  shows "world_inv R (take_turn w) \<and> world_evolves w (take_turn w)
    \<and> R\<^sup>=\<^sup>= (world_view w) (world_view (take_turn w))"
proof -
  let ?t = "next_turn w"
  from turn_ok_next [OF assms] assms
  have m: "mem_inv (t_env ?t (wd_mem w))" "mem_evolves (wd_mem w) (t_env ?t (wd_mem w))"
    "R\<^sup>=\<^sup>= (mem_view (wd_mem w)) (mem_view (t_env ?t (wd_mem w)))"
    by (auto simp: turn_ok_def world_inv_def)
  have "\<forall>t \<in> set (wd_script (take_turn w)). turn_ok R t"
    using assms list.set_sel(2) [of "wd_script w"]
    by (cases "wd_script w") (auto simp: world_inv_def take_turn_def Let_def)
  moreover have "\<forall>c e. wd_done (take_turn w) c = Some e \<longrightarrow> ctx_error e"
    using turn_ok_next [OF assms] assms
    by (auto simp: world_inv_def turn_ok_def take_turn_def Let_def split: option.splits if_splits)
  ultimately show ?thesis
    using m by (simp add: world_inv_def world_evolves_def world_view_def take_turn_def Let_def)
qed

lemma world_call_cases:
  assumes "world_call c f w = (r, w')"
  obtains (before) msg where "r = Inl (ErrMsg msg)" "w' = take_turn w"
  | (after) msg r0 m where "r = Inl (ErrMsg msg)" "w' = take_turn w\<lparr>wd_mem := m\<rparr>"
      "f (wd_done (take_turn w) c) (wd_mem (take_turn w)) = (r0, m)"
  | (reached) m where "w' = take_turn w\<lparr>wd_mem := m\<rparr>"
      "f (wd_done (take_turn w) c) (wd_mem (take_turn w)) = (r, m)"
proof -
  obtain r0 m where f: "f (wd_done (take_turn w) c) (wd_mem (take_turn w)) = (r0, m)" by force
  show ?thesis
  proof (cases "t_fault (next_turn w)")
    case (FailBefore msg)
    then show ?thesis using assms f by (intro before) (auto simp: world_call_def)
  next
    case (FailAfter msg)
    then show ?thesis using assms f by (intro after [OF _ _ f]) (auto simp: world_call_def)
  qed (use assms f in \<open>auto simp: world_call_def intro: reached\<close>)
qed

text \<open>A call that leaves the store as it is.\<close>

lemma world_call_reads:
  assumes "world_call c (\<lambda>e m. (g e m, m)) w = (r, w')"
  shows "w' = take_turn w \<and> ((\<exists>msg. r = Inl (ErrMsg msg)) \<or> r = g (wd_done w' c) (wd_mem w'))"
  using assms by (cases rule: world_call_cases) auto

lemma world_inv_mem:
  assumes "world_inv R w" and "mem_inv m"
  shows "world_inv R (w\<lparr>wd_mem := m\<rparr>)"
  using assms by (simp add: world_inv_def)

lemma store_err_simps [simp]:
  "store_err (ErrMsg m)" "store_err (Wrap m ErrNotFound)" "store_err (Wrap m ErrPreconditionFailed)"
  by (auto simp: store_err_def)

lemma store_err_ctx [simp]: "ctx_error e \<Longrightarrow> store_err e"
  by (auto simp: store_err_def ctx_error_def)

lemma ctx_error_not [simp]:
  "ctx_error e \<Longrightarrow> \<not> errors_is e ErrNotFound" "ctx_error e \<Longrightarrow> \<not> errors_is e ErrPreconditionFailed"
  by (auto simp: ctx_error_def)

lemma world_ctx_error: "world_inv R w \<Longrightarrow> wd_done w c = Some e \<Longrightarrow> ctx_error e"
  by (simp add: world_inv_def)

lemmas world_store_simps = world_Store_def Store.select_convs

lemma world_get_law:
  assumes "world_inv R w" and "Store_Get world_Store c k w = (r, w')"
  shows "world_inv R w' \<and> world_evolves w w' \<and> R\<^sup>=\<^sup>= (world_view w) (world_view w') \<and>
      (case r of
         Inr (src, obj) \<Rightarrow> (\<exists>d. world_view w' k = Some (d, Generation obj) \<and> reads_as src d)
       | Inl e \<Rightarrow> store_err e \<and> (errors_is e ErrNotFound \<longrightarrow> world_view w' k = None))"
proof -
  obtain r0 where call: "world_call c (\<lambda>e m. (mem_Get e k m, m)) w = (r0, w')"
    and r: "r = (case r0 of Inl e \<Rightarrow> Inl e
      | Inr (src, obj) \<Rightarrow> Inr (cut_reader (t_fault (next_turn w)) src, obj))"
    using assms(2) by (auto simp: world_store_simps world_read_def split: prod.splits sum.splits)
  have t: "world_inv R w' \<and> world_evolves w w' \<and> R\<^sup>=\<^sup>= (world_view w) (world_view w')"
    using world_call_reads [OF call] take_turn_inv [OF assms(1)] by auto
  consider msg where "r0 = Inl (ErrMsg msg)" | e where "r0 = Inl e" "ctx_error e"
    | "r0 = mem_Get None k (wd_mem w')"
    using world_call_reads [OF call] world_ctx_error [of R w' c] t
    by (cases "wd_done w' c") (auto simp: mem_Get_def)
  then have "case r of
         Inr (src, obj) \<Rightarrow> (\<exists>d. world_view w' k = Some (d, Generation obj) \<and> reads_as src d)
       | Inl e \<Rightarrow> store_err e \<and> (errors_is e ErrNotFound \<longrightarrow> world_view w' k = None)"
  proof cases
    case 3
    then show ?thesis
      unfolding r by (cases "map_of (objects (wd_mem w')) k")
        (auto simp: mem_Get_def world_view_def mem_view_def entry_object_def reads_as_def cut_reader_def
          bytes_Reader_def read_err_def is_eof_def take_is_prefix split: fault.splits)
  qed (auto simp: r)
  with t show ?thesis by blast
qed

lemma world_put_law:
  assumes "world_inv R w" and "Store_Put world_Store c k (bytes_Reader d) cond w = (r, w')"
  shows "world_inv R w' \<and> world_evolves w w' \<and>
      (case r of
         Inr g \<Rightarrow> g \<notin> world_issued w \<and> g \<noteq> [] \<and>
           (\<exists>v. R\<^sup>=\<^sup>= (world_view w) v \<and> fresh_since (world_issued w) (world_view w) v
              \<and> holds_cond v k cond \<and> world_view w' = v(k \<mapsto> (d, g)))
       | Inl e \<Rightarrow> store_err e \<and>
           (if errors_is e ErrPreconditionFailed
            then R\<^sup>=\<^sup>= (world_view w) (world_view w') \<and> \<not> holds_cond (world_view w') k cond
            else R\<^sup>=\<^sup>= (world_view w) (world_view w') \<or>
              (\<exists>v g. g \<notin> world_issued w \<and> R\<^sup>=\<^sup>= (world_view w) v
                 \<and> fresh_since (world_issued w) (world_view w) v \<and> holds_cond v k cond
                 \<and> world_view w' = v(k \<mapsto> (d, g)))))"
proof -
  let ?w = "take_turn w"
  note t = take_turn_inv [OF assms(1)]
  then have m: "mem_inv (wd_mem ?w)" by (simp add: world_inv_def)
  have put: "world_inv R (?w\<lparr>wd_mem := m'\<rparr>) \<and> world_evolves w (?w\<lparr>wd_mem := m'\<rparr>)"
    if "mem_Put e k (bytes_Reader d) cond (wd_mem ?w) = (r', m')" for e r' m'
    using mem_Put_inv [OF m that] t mem_evolves_trans by (auto simp: world_inv_def world_evolves_def)
  have since: "fresh_since (world_issued w) (world_view w) (mem_view (wd_mem ?w))"
    using t by (simp add: world_evolves_def mem_evolves_def world_view_def world_issued_def)
  have fresh: "localGeneration (int (genSeq (wd_mem ?w) + 1)) (int (length d)) \<notin> world_issued w"
    using t mem_issued_fresh [of "wd_mem ?w"] by (auto simp: world_evolves_def mem_evolves_def world_issued_def)
  from assms(2) have "world_call c (\<lambda>e. mem_Put e k (bytes_Reader d) cond) w = (r, w')"
    by (simp add: world_store_simps)
  then show ?thesis
  proof (cases rule: world_call_cases)
    case (before msg)
    with t show ?thesis by simp
  next
    case (after msg r0 m')
    from after(3) show ?thesis
      by (cases rule: mem_Put_cases)
        (use put [OF after(3)] after t fresh since in \<open>auto simp: world_view_def mem_view_Put simp del: of_nat_add of_nat_Suc\<close>)
  next
    case (reached m')
    from reached(2) show ?thesis
      by (cases rule: mem_Put_cases)
        (use put [OF reached(2)] reached t fresh since world_ctx_error [of R ?w c] in
          \<open>auto simp: world_view_def mem_view_Put simp del: of_nat_add of_nat_Suc\<close>)
  qed
qed

lemma world_delete_law:
  assumes "world_inv R w" and "Store_Delete world_Store c k w = (r, w')"
  shows "world_inv R w' \<and> world_evolves w w' \<and>
      (case r of
         Inr _ \<Rightarrow> (\<exists>v. R\<^sup>=\<^sup>= (world_view w) v \<and> v k \<noteq> None \<and> world_view w' = v(k := None))
       | Inl e \<Rightarrow> store_err e \<and>
           (if errors_is e ErrNotFound then R\<^sup>=\<^sup>= (world_view w) (world_view w') \<and> world_view w' k = None
            else \<exists>v. R\<^sup>=\<^sup>= (world_view w) v \<and> (world_view w' = v \<or> world_view w' = v(k := None))))"
proof -
  let ?w = "take_turn w"
  note t = take_turn_inv [OF assms(1)]
  then have m: "mem_inv (wd_mem ?w)" by (simp add: world_inv_def)
  have del: "world_inv R (?w\<lparr>wd_mem := m'\<rparr>) \<and> world_evolves w (?w\<lparr>wd_mem := m'\<rparr>)"
    if "mem_Delete e k (wd_mem ?w) = (r', m')" for e r' m'
    using mem_Delete_inv [OF m that] t mem_evolves_trans by (auto simp: world_inv_def world_evolves_def)
  from assms(2) have "world_call c (\<lambda>e. mem_Delete e k) w = (r, w')"
    by (simp add: world_store_simps)
  then show ?thesis
  proof (cases rule: world_call_cases)
    case (before msg)
    with t show ?thesis by auto
  next
    case (after msg r0 m')
    from after(3) show ?thesis
      by (cases rule: mem_Delete_cases)
        (use del [OF after(3)] after t in \<open>auto simp: world_view_def mem_view_Delete\<close>)
  next
    case (reached m')
    from reached(2) show ?thesis
      by (cases rule: mem_Delete_cases)
        (use del [OF reached(2)] reached t world_ctx_error [of R ?w c] in
          \<open>auto simp: world_view_def mem_view_Delete\<close>)
  qed
qed

lemma world_exists_law:
  assumes "world_inv R w" and "Store_Exists world_Store c k w = (r, w')"
  shows "world_inv R w' \<and> world_evolves w w' \<and> R\<^sup>=\<^sup>= (world_view w) (world_view w')
    \<and> (\<forall>b. r = Inr b \<longrightarrow> b = (world_view w' k \<noteq> None)) \<and> (\<forall>e. r = Inl e \<longrightarrow> store_err e)"
proof -
  have call: "world_call c (\<lambda>e m. (mem_Exists e k m, m)) w = (r, w')"
    using assms(2) by (simp add: world_store_simps)
  show ?thesis
    using world_call_reads [OF call] take_turn_inv [OF assms(1)] world_ctx_error [of R w' c]
    by (auto simp: mem_Exists_def world_view_def store_simps split: option.splits)
qed

lemma world_list_law:
  assumes "world_inv R w" and "Store_List world_Store c pre start limit w = (r, w')"
  shows "world_inv R w' \<and> world_evolves w w' \<and> R\<^sup>=\<^sup>= (world_view w) (world_view w')
    \<and> (\<forall>objs. r = Inr objs \<longrightarrow> map Key objs = list_keys (world_view w') pre start limit)
    \<and> (\<forall>e. r = Inl e \<longrightarrow> store_err e)"
proof -
  have call: "world_call c (\<lambda>e m. (mem_List e pre start limit m, m)) w = (r, w')"
    using assms(2) by (simp add: world_store_simps)
  from world_call_reads [OF call] have w': "w' = take_turn w"
    and r: "r = Inr objs \<Longrightarrow> mem_List None pre start limit (wd_mem w') = Inr objs" for objs
    by (auto simp: mem_List_def split: option.splits)
  from take_turn_inv [OF assms(1)] have "mem_inv (wd_mem w')" by (simp add: w' world_inv_def)
  with r have "r = Inr objs \<Longrightarrow> map Key objs = list_keys (world_view w') pre start limit" for objs
    unfolding world_view_def by (blast intro: mem_List_keys)
  moreover have "r = Inl e \<Longrightarrow> store_err e" for e
    using world_call_reads [OF call] take_turn_inv [OF assms(1)] world_ctx_error [of R w' c]
    by (auto simp: mem_List_def Let_def split: option.splits)
  ultimately show ?thesis using take_turn_inv [OF assms(1)] by (simp add: w')
qed

interpretation ws: object_store world_Store world_view "world_inv R" world_issued "R\<^sup>=\<^sup>=" world_evolves
  for R
proof (unfold_locales, goal_cases)
  case (2 s)
  then show ?case by (simp add: world_view_def dom_mem_view)
next
  case (3 s k d g)
  then obtain n where "n \<le> genSeq (wd_mem s)" "g = localGeneration (int n) (int (length d))"
    unfolding world_inv_def mem_inv_def world_view_def by blast
  then show ?case by (auto simp: world_issued_def mem_issued_def)
next
  case 4
  then show ?case by (simp add: world_evolves_def mem_evolves_def world_view_def world_issued_def)
next
  case 5
  then show ?case by (rule world_get_law)
next
  case 6
  then show ?case by (rule world_put_law)
next
  case 7
  then show ?case by (rule world_delete_law)
next
  case 8
  then show ?case by (rule world_exists_law)
next
  case 9
  then show ?case by (rule world_list_law)
qed simp

subsection \<open>The script runs out\<close>

text \<open>Every call takes a turn. A world with at most \<open>k\<close> turns left meets the contract too, and keeps that bound;
  this is what the proofs that a retry loop ends count down.\<close>

definition world_inv_upto :: "(view \<Rightarrow> view \<Rightarrow> bool) \<Rightarrow> nat \<Rightarrow> world \<Rightarrow> bool" where
  "world_inv_upto R k w \<longleftrightarrow> world_inv R w \<and> length (wd_script w) \<le> k"

lemma take_turn_script [simp]: "wd_script (take_turn w) = tl (wd_script w)"
  by (simp add: take_turn_def Let_def)

lemma world_call_script: "world_call c f w = (r, w') \<Longrightarrow> wd_script w' = tl (wd_script w)"
  by (cases rule: world_call_cases) auto

lemma world_read_script: "world_read c f w = (r, w') \<Longrightarrow> wd_script w' = tl (wd_script w)"
  by (auto simp: world_read_def dest!: world_call_script split: prod.splits sum.splits)

lemma world_Store_script:
  "Store_Get world_Store c k w = (rg, w') \<Longrightarrow> wd_script w' = tl (wd_script w)"
  "Store_Put world_Store c k src cond w = (rp, w') \<Longrightarrow> wd_script w' = tl (wd_script w)"
  "Store_Delete world_Store c k w = (rd, w') \<Longrightarrow> wd_script w' = tl (wd_script w)"
  "Store_Exists world_Store c k w = (re, w') \<Longrightarrow> wd_script w' = tl (wd_script w)"
  "Store_List world_Store c pre start limit w = (rl, w') \<Longrightarrow> wd_script w' = tl (wd_script w)"
  by (auto simp: world_store_simps dest: world_call_script world_read_script)

lemma world_inv_upto_tl:
  assumes "world_inv_upto R k w" and "world_inv R w'" and "wd_script w' = tl (wd_script w)"
  shows "world_inv_upto R (k - 1) w'" and "world_inv_upto R k w'"
  using assms by (auto simp: world_inv_upto_def)

interpretation wk: object_store world_Store world_view "world_inv_upto R k" world_issued "R\<^sup>=\<^sup>=" world_evolves
  for R k
proof (unfold_locales, goal_cases)
  case (2 s)
  then show ?case by (simp add: world_inv_upto_def ws.finite_view [of R])
next
  case (3 s k d g)
  then show ?case by (metis world_inv_upto_def ws.view_issued [of R])
next
  case 4
  then show ?case by (rule ws.evolves_def)
next
  case (5 s c k r s')
  then have "world_inv R s" by (simp add: world_inv_upto_def)
  from world_get_law [OF this 5(2)] world_inv_upto_tl(2) [OF 5(1) _ world_Store_script(1) [OF 5(2)]]
  show ?case by blast
next
  case (6 s c k d cond r s')
  then have "world_inv R s" by (simp add: world_inv_upto_def)
  from world_put_law [OF this 6(2)] world_inv_upto_tl(2) [OF 6(1) _ world_Store_script(2) [OF 6(2)]]
  show ?case by blast
next
  case (7 s c k r s')
  then have "world_inv R s" by (simp add: world_inv_upto_def)
  from world_delete_law [OF this 7(2)] world_inv_upto_tl(2) [OF 7(1) _ world_Store_script(3) [OF 7(2)]]
  show ?case by blast
next
  case (8 s c k r s')
  then have "world_inv R s" by (simp add: world_inv_upto_def)
  from world_exists_law [OF this 8(2)] world_inv_upto_tl(2) [OF 8(1) _ world_Store_script(4) [OF 8(2)]]
  show ?case by blast
next
  case (9 s c pre start limit r s')
  then have "world_inv R s" by (simp add: world_inv_upto_def)
  from world_list_law [OF this 9(2)] world_inv_upto_tl(2) [OF 9(1) _ world_Store_script(5) [OF 9(2)]]
  show ?case by blast
qed simp

text \<open>With an empty script nobody else moves the store.\<close>

definition no_rely :: "view \<Rightarrow> view \<Rightarrow> bool" where "no_rely v v' \<longleftrightarrow> False"

lemma no_rely_rtrancl [simp]: "no_rely\<^sup>*\<^sup>* v v' \<longleftrightarrow> v' = v"
proof
  show "no_rely\<^sup>*\<^sup>* v v' \<Longrightarrow> v' = v"
    by (induction rule: rtranclp_induct) (auto simp: no_rely_def)
qed simp

lemma world_inv_no_rely: "world_inv_upto R 0 w \<longleftrightarrow> world_inv_upto no_rely 0 w"
  by (auto simp: world_inv_upto_def world_inv_def)

subsection \<open>Without interference and faults\<close>

definition quiet :: "world \<Rightarrow> bool" where
  "quiet w \<longleftrightarrow> wd_script w = [] \<and> (\<forall>c. wd_done w c = None) \<and> mem_inv (wd_mem w)"

lemma quiet_new_world [simp]: "quiet (new_world [])"
  by (simp add: quiet_def new_world_def)

lemma quiet_world_inv: "quiet w \<Longrightarrow> world_inv R w"
  by (simp add: quiet_def world_inv_def)

lemma quiet_call:
  assumes "quiet w"
  shows "world_call c f w = (let (r, m) = f None (wd_mem w) in (r, w\<lparr>wd_mem := m\<rparr>))"
proof -
  from assms have "next_turn w = idle_turn" and "take_turn w = w"
    by (auto simp: quiet_def next_turn_def take_turn_def idle_turn_def)
  with assms show ?thesis by (simp add: world_call_def quiet_def idle_turn_def Let_def split: prod.split)
qed

lemma quiet_read:
  assumes "quiet w"
  shows "world_read c f w = (f None (wd_mem w), w)"
proof -
  have "next_turn w = idle_turn" using assms by (simp add: quiet_def next_turn_def)
  then show ?thesis
    using assms
    by (simp add: world_read_def quiet_call Let_def cut_reader_def idle_turn_def split: sum.splits prod.splits)
qed

end
