(* ===== verification/Logstream.thy ===== *)
theory Logstream
  imports Logkeys Recordio World
begin

text \<open>
  \<open>src/logstream/log.go\<close>: a shared append-only log, one object per batch, keyed by its sequence number.

  A \<open>Log\<close> handle is its prefix and the atomic \<open>lastKnown\<close>; the store is an argument of the operations. The
  loops that publish a larger value in \<open>lastKnown\<close> (lines 68-73 and 85-90) are \<open>raise_known\<close>, the value they
  leave when no other goroutine of the process moves the counter meanwhile. The loops of
  \<open>jump\<close> and \<open>Append\<close> are \<open>partial_function (option)\<close>: \<open>None\<close> is a loop that never ends, and the theorems show
  where that cannot happen. Log messages and timings are left out.

  The locale \<open>log_store\<close> adds to the contract of the object store what a log asks of the other processes: they
  only append to it (\<open>log_rely\<close>).
\<close>

subsection \<open>The code\<close>

abbreviation ErrEndOfStream :: gerr where "ErrEndOfStream \<equiv> Sentinel ''logstream.ErrEndOfStream''"

definition headListLimit :: nat where "headListLimit = 1000"

definition MaxUint64 :: u64 where "MaxUint64 = 18446744073709551615"

record Log =
  l_prefix :: string
  lastKnown :: u64

definition Log_New :: "'s Store option \<Rightarrow> string \<Rightarrow> Log result" where
  "Log_New store pre =
     (if store = None then Inl (ErrMsg ''logstream: nil store'')
      else if \<not> validPrefix pre then Inl (ErrMsg ''logstream: invalid prefix'')
      else Inr \<lparr>l_prefix = pre, lastKnown = 0\<rparr>)"

type_synonym 's probe = "u64 \<Rightarrow> 's \<Rightarrow> bool result \<times> 's"
type_synonym 's jump_result = "((u64 result \<times> nat) \<times> 's) option"

partial_function (option) jump_bisect :: "'s probe \<Rightarrow> u64 \<Rightarrow> u64 \<Rightarrow> nat \<Rightarrow> 's \<Rightarrow> 's jump_result" where
  "jump_bisect probe low high probes s =
     (if low + 1 < high
      then
        (let mid = low + (high - low) div 2; probes = probes + 1
         in case probe mid s of
              (Inl err, s') \<Rightarrow> Some ((Inl err, probes), s')
            | (Inr ok, s') \<Rightarrow>
                if ok then jump_bisect probe mid high probes s'
                else jump_bisect probe low mid probes s')
      else Some ((Inr low, probes), s))"

partial_function (option) jump_up :: "'s probe \<Rightarrow> u64 \<Rightarrow> u64 \<Rightarrow> u64 \<Rightarrow> nat \<Rightarrow> 's \<Rightarrow> 's jump_result" where
  "jump_up probe step low high probes s =
     (let (high, step) = (if step > (MaxUint64 - high) div 2 then (MaxUint64, step)
                          else (high + step * 2, step * 2));
          probes = probes + 1
      in case probe high s of
           (Inl err, s') \<Rightarrow> Some ((Inl err, probes), s')
         | (Inr ok, s') \<Rightarrow>
             if \<not> ok then jump_bisect probe low high probes s'
             else if high = MaxUint64 then Some ((Inr high, probes), s')
             else jump_up probe step high high probes s')"

definition jump :: "u64 \<Rightarrow> 's probe \<Rightarrow> 's \<Rightarrow> 's jump_result" where
  "jump lo probe s =
     (if lo = MaxUint64 then Some ((Inr lo, 0), s)
      else
        (case probe (lo + 1) s of
           (Inl err, s') \<Rightarrow> Some ((Inl err, 1), s')
         | (Inr ex, s') \<Rightarrow>
             if \<not> ex then Some ((Inr lo, 1), s')
             else jump_up probe 1 (lo + 1) (lo + 1) 1 s'))"

definition Log_head :: "'s Store \<Rightarrow> ctx \<Rightarrow> string \<Rightarrow> u64 \<Rightarrow> 's \<Rightarrow> 's jump_result" where
  "Log_head S c pre lo s =
     (let start = (if lo > 0 then segmentKey pre lo else [])
      in case Store_List S c (pre @ ''/'') start (int headListLimit) s of
           (Inl err, s') \<Rightarrow> Some ((Inl err, 0), s')
         | (Inr objs, s') \<Rightarrow>
             if objs = [] then Some ((Inr lo, 0), s')
             else
               (case parseSeq (Key (last objs)) of
                  Inl err \<Rightarrow> Some ((Inl err, 0), s')
                | Inr lst \<Rightarrow>
                    if length objs < headListLimit then Some ((Inr lst, 0), s')
                    else jump lst (\<lambda>seq. Store_Exists S c (segmentKey pre seq)) s'))"

definition Tail :: "'s Store \<Rightarrow> ctx \<Rightarrow> Log \<Rightarrow> 's \<Rightarrow> (u64 result \<times> 's) option" where
  "Tail S c l s =
     (case Log_head S c (l_prefix l) 0 s of None \<Rightarrow> None | Some ((r, _), s') \<Rightarrow> Some (r, s'))"

definition encode_batch :: "bytes list \<Rightarrow> bytes result" where
  "encode_batch records =
     (case write_records (NewWriter bytes_Buffer []) records of
        (Some e, _) \<Rightarrow> Inl e
      | (None, w) \<Rightarrow>
          (case Writer_Close w of
             (Some e, _) \<Rightarrow> Inl e
           | (None, w') \<Rightarrow> Inr (Writer_out w')))"

definition raise_known :: "u64 \<Rightarrow> Log \<Rightarrow> Log" where
  "raise_known t l = (if t \<le> lastKnown l then l else l\<lparr>lastKnown := t\<rparr>)"

partial_function (option) append_loop ::
    "'s Store \<Rightarrow> ctx \<Rightarrow> Log \<Rightarrow> bytes \<Rightarrow> u64 \<Rightarrow> 's \<Rightarrow> (u64 result \<times> Log \<times> 's) option" where
  "append_loop S c l payload seq s =
     (case Store_Put S c (segmentKey (l_prefix l) seq) (bytes_Reader payload) cond_absent s of
        (Inr _, s') \<Rightarrow> Some (Inr seq, raise_known seq l, s')
      | (Inl err, s') \<Rightarrow>
          if \<not> errors_is err ErrPreconditionFailed then Some (Inl err, l, s')
          else
            (case Log_head S c (l_prefix l) seq s' of
               None \<Rightarrow> None
             | Some ((Inl err, _), s'') \<Rightarrow> Some (Inl err, l, s'')
             | Some ((Inr head, _), s'') \<Rightarrow> append_loop S c l payload (head + 1) s''))"

definition Append :: "'s Store \<Rightarrow> ctx \<Rightarrow> Log \<Rightarrow> bytes list \<Rightarrow> 's \<Rightarrow> (u64 result \<times> Log \<times> 's) option" where
  "Append S c l records s =
     (if records = [] then Some (Inl (ErrMsg ''logstream: batch is empty''), l, s)
      else
        (case encode_batch records of
           Inl err \<Rightarrow> Some (Inl err, l, s)
         | Inr payload \<Rightarrow>
             if lastKnown l = 0
             then
               (case Tail S c l s of
                  None \<Rightarrow> None
                | Some (Inl err, s') \<Rightarrow> Some (Inl err, l, s')
                | Some (Inr t, s') \<Rightarrow>
                    (let l' = raise_known t l in append_loop S c l' payload (lastKnown l' + 1) s'))
             else append_loop S c l payload (lastKnown l + 1) s))"

definition Log_Read :: "'s Store \<Rightarrow> ctx \<Rightarrow> Log \<Rightarrow> u64 \<Rightarrow> 's \<Rightarrow> bytes list result \<times> 's" where
  "Log_Read S c l seq s =
     (if seq = 0 then (Inl (ErrMsg ''logstream: sequence number must be greater than zero''), s)
      else
        (case Store_Get S c (segmentKey (l_prefix l) seq) s of
           (Inl err, s') \<Rightarrow> (if errors_is err ErrNotFound then Inl ErrEndOfStream else Inl err, s')
         | (Inr (rc, _), s') \<Rightarrow>
             (case scan_all (NewScanner rc []) of
                (records, sc) \<Rightarrow>
                  (case Scanner_Err sc of Some err \<Rightarrow> Inl err | None \<Rightarrow> Inr records, s'))))"

subsection \<open>Exponential and binary search\<close>

lemma unat_succ: "(x :: u64) < y \<Longrightarrow> unat (x + 1) = unat x + 1"
  using unat_u64_less [of y] by (simp add: unat_plus_if' word_less_nat_alt)

lemma unat_MaxUint64 [simp]: "unat MaxUint64 = 2 ^ 64 - 1"
  by (simp add: MaxUint64_def)

lemma unat_mid:
  assumes "low < (high :: u64)"
  shows "unat (low + (high - low) div 2) = unat low + (unat high - unat low) div 2"
proof -
  have d: "unat ((high - low) div 2) = (unat high - unat low) div 2"
    using assms by (simp add: unat_div unat_sub order_less_imp_le)
  have "unat low + (unat high - unat low) div 2 < 2 ^ 64"
    using assms unat_u64_less [of high] by (simp add: word_less_nat_alt)
  then show ?thesis by (simp add: unat_plus_if' d)
qed

text \<open>
  \<open>I n s\<close> stands for "in state \<open>s\<close> exactly the numbers \<open>1, ..., n\<close> exist". A probe may let \<open>n\<close> grow, and it
  answers for the state it leaves, or with an error of \<open>E\<close>.
\<close>

definition probe_ok :: "(nat \<Rightarrow> 's \<Rightarrow> bool) \<Rightarrow> (gerr \<Rightarrow> bool) \<Rightarrow> 's probe \<Rightarrow> bool" where
  "probe_ok I E probe \<longleftrightarrow> (\<forall>n s seq r s'. I n s \<longrightarrow> probe seq s = (r, s') \<longrightarrow>
     (\<exists>n' \<ge> n. n' < 2 ^ 64 - 1 \<and> I n' s' \<and> (\<forall>b. r = Inr b \<longrightarrow> b = (1 \<le> unat seq \<and> unat seq \<le> n'))
        \<and> (\<forall>e. r = Inl e \<longrightarrow> E e)))"

lemma probe_okE:
  assumes "probe_ok I E probe" and "I n s" and "probe seq s = (r, s')"
  obtains n' where "n \<le> n'" "n' < 2 ^ 64 - 1" "I n' s'"
    "\<forall>b. r = Inr b \<longrightarrow> b = (1 \<le> unat seq \<and> unat seq \<le> n')" "\<forall>e. r = Inl e \<longrightarrow> E e"
proof -
  from assms(1) [unfolded probe_ok_def, rule_format, OF assms(2,3)]
  show ?thesis by (elim exE conjE) (rule that)
qed

text \<open>The search returned, made at most \<open>mx\<close> probes, and found a number that existed when it returned and was
  the last one, or beyond, when it began.\<close>

definition jump_post :: "(nat \<Rightarrow> 's \<Rightarrow> bool) \<Rightarrow> (gerr \<Rightarrow> bool) \<Rightarrow> nat \<Rightarrow> (nat \<Rightarrow> nat \<Rightarrow> bool) \<Rightarrow> 's jump_result \<Rightarrow> bool" where
  "jump_post I E n0 cost res \<longleftrightarrow>
     (\<exists>r pr s' n'. res = Some ((r, pr), s') \<and> n0 \<le> n' \<and> I n' s' \<and> cost n' pr \<and>
        (\<forall>h. r = Inr h \<longrightarrow> n0 \<le> unat h \<and> unat h \<le> n') \<and> (\<forall>e. r = Inl e \<longrightarrow> E e))"

lemma jump_post_error:
  assumes "n0 \<le> n'" and "I n' s'" and "cost n' pr" and "E e"
  shows "jump_post I E n0 cost (Some ((Inl e, pr), s'))"
  using assms unfolding jump_post_def by blast

lemma jump_post_found:
  assumes "n0 \<le> n'" and "I n' s'" and "cost n' pr" and "n0 \<le> unat h" and "unat h \<le> n'"
  shows "jump_post I E n0 cost (Some ((Inr h, pr), s'))"
  using assms unfolding jump_post_def by blast

lemma jump_bisect_step:
  assumes "low + 1 < high" and "mid = low + (high - low) div 2" and "probe mid s = (r, s')"
  shows "jump_bisect probe low high probes s =
    (case r of
       Inl err \<Rightarrow> Some ((Inl err, probes + 1), s')
     | Inr ok \<Rightarrow> if ok then jump_bisect probe mid high (probes + 1) s'
               else jump_bisect probe low mid (probes + 1) s')"
  using assms by (subst jump_bisect.simps) (simp add: Let_def split: sum.split)

lemma jump_bisect_post:
  assumes "probe_ok I E probe" and "I n s" and "low < high" and "1 \<le> unat low" and "unat low \<le> n"
    and "n0 < unat high" and "n0 \<le> n" and "unat high - unat low \<le> 2 ^ k"
    and "\<forall>n' \<ge> n. \<forall>pr \<le> probes + k. cost n' pr"
  shows "jump_post I E n0 cost (jump_bisect probe low high probes s)"
  using assms(2-)
proof (induction "unat high - unat low" arbitrary: n s low high probes k rule: less_induct)
  case less
  note succ = unat_succ [OF less.prems(2)]
  show ?case
  proof (cases "low + 1 < high")
    case False
    with less.prems(2) have "unat high = unat low + 1" by (simp add: word_less_nat_alt succ)
    with less.prems have "jump_post I E n0 cost (Some ((Inr low, probes), s))"
      by (intro jump_post_found [where n' = n]) simp_all
    with False show ?thesis by (simp add: jump_bisect.simps)
  next
    case True
    define mid where "mid = low + (high - low) div 2"
    have mid: "unat mid = unat low + (unat high - unat low) div 2"
      unfolding mid_def by (rule unat_mid) (rule less.prems(2))
    have gap: "unat low + 1 < unat high" using True by (simp add: word_less_nat_alt succ)
    then have lt: "low < mid" "mid < high" by (simp_all add: word_less_nat_alt mid)
    from gap less.prems(7) obtain k' where k: "k = Suc k'" by (cases k) simp_all
    obtain r s' where pr: "probe mid s = (r, s')" by fastforce
    obtain n' where n': "n \<le> n'" "n' < 2 ^ 64 - 1" "I n' s'" "\<forall>b. r = Inr b \<longrightarrow> b = (1 \<le> unat mid \<and> unat mid \<le> n')"
      "\<forall>e. r = Inl e \<longrightarrow> E e"
      by (rule probe_okE [OF assms(1) less.prems(1) pr])
    note eq = jump_bisect_step [of low high mid probe s r s' probes, OF True mid_def pr]
    have b: "\<forall>m \<ge> n'. \<forall>pr \<le> probes + 1 + k'. cost m pr" using less.prems(8) n'(1) k by simp
    show ?thesis
    proof (cases r)
      case (Inl err)
      show ?thesis unfolding eq Inl sum.case
        by (rule jump_post_error [where n' = n']) (use less.prems(6) n'(1,3,5) Inl b in simp_all)
    next
      case (Inr ok)
      show ?thesis
      proof (cases ok)
        case True
        have "jump_post I E n0 cost (jump_bisect probe mid high (probes + 1) s')"
        proof (rule less.hyps [where n = n' and k = k'])
          show "unat mid \<le> n'" using n'(4) Inr True by blast
          show "unat high - unat mid < unat high - unat low" using gap mid by linarith
          show "unat high - unat mid \<le> 2 ^ k'" using less.prems(7) mid k by simp
          show "1 \<le> unat mid" using less.prems(3) mid by simp
        qed (use less.prems(5,6) n'(1,3) lt b in simp_all)
        with Inr True show ?thesis unfolding eq by simp
      next
        case False
        with n'(4) Inr less.prems(3) mid have "n' < unat mid" by auto
        then have "jump_post I E n0 cost (jump_bisect probe low mid (probes + 1) s')"
        proof (intro less.hyps [where n = n' and k = k'])
          show "unat mid - unat low < unat high - unat low" using gap mid by linarith
          show "unat mid - unat low \<le> 2 ^ k'" using less.prems(7) mid k by simp
        qed (use less.prems(3-6) n'(1,3) lt b in simp_all)
        with Inr False show ?thesis unfolding eq by simp
      qed
    qed
  qed
qed

text \<open>
  The doubling loop. At its head \<open>j\<close> rounds are done: \<open>step = 2 ^ j\<close>, \<open>low = high = lo + 2 ^ (j + 1) - 1\<close>
  and \<open>j + 1\<close> probes were made. The number of probes is logarithmic in the distance covered.
\<close>

definition jump_cost :: "nat \<Rightarrow> nat \<Rightarrow> nat \<Rightarrow> bool" where
  "jump_cost lo n pr \<longleftrightarrow> 2 ^ (pr div 2) \<le> n - lo + 1"

lemma jump_cost_mono:
  assumes "2 ^ Suc j \<le> n - lo + 1" and "n \<le> n'" and "pr \<le> 2 * j + 3"
  shows "jump_cost lo n' pr"
proof -
  have "pr div 2 \<le> Suc j" using assms(3) by simp
  then have "(2::nat) ^ (pr div 2) \<le> 2 ^ Suc j" by (rule power_increasing) simp
  also have "\<dots> \<le> n' - lo + 1" using assms(1,2) by simp
  finally show ?thesis unfolding jump_cost_def by simp
qed

lemma jump_up_next:
  assumes "unat step = 2 ^ j" and "unat high + 1 = lo + 2 ^ Suc j" and "unat high < 2 ^ 64 - 1"
    and "(high', step') = (if step > (MaxUint64 - high) div 2 then (MaxUint64, step)
                           else (high + step * 2, step * 2))"
  shows "high < high' \<and> unat high' - unat high \<le> 2 ^ Suc j
    \<and> (high' = MaxUint64 \<or> unat step' = 2 ^ Suc j \<and> unat high' + 1 = lo + 2 ^ Suc (Suc j))"
proof -
  have "unat ((MaxUint64 - high) div 2) = (2 ^ 64 - 1 - unat high) div 2"
    using assms(3) by (simp add: unat_div unat_sub_if' MaxUint64_def)
  then have test: "step > (MaxUint64 - high) div 2 \<longleftrightarrow> (2 ^ 64 - 1 - unat high) div 2 < 2 ^ j"
    by (simp add: word_less_nat_alt assms(1))
  show ?thesis
  proof (cases "step > (MaxUint64 - high) div 2")
    case True
    with assms(4) have "high' = MaxUint64" by simp
    moreover from True test have "2 ^ 64 - 1 - unat high \<le> 2 ^ Suc j" by simp
    ultimately show ?thesis using assms(3) by (simp add: word_less_nat_alt)
  next
    case False
    with test have le: "2 * 2 ^ j \<le> 2 ^ 64 - 1 - unat high" by simp
    from False assms(4) have eq: "high' = high + step * 2" "step' = step * 2" by simp_all
    have st: "unat (step * 2) = 2 * 2 ^ j"
      using le by (simp add: unat_word_ariths(2) assms(1))
    moreover have "unat (high + step * 2) = unat high + 2 * 2 ^ j"
      using le assms(3) by (simp add: unat_plus_if' st)
    ultimately show ?thesis using assms(2) by (simp add: eq word_less_nat_alt)
  qed
qed

lemma jump_up_step:
  assumes "(high', step') = (if step > (MaxUint64 - high) div 2 then (MaxUint64, step)
                             else (high + step * 2, step * 2))"
    and "probe high' s = (r, s')"
  shows "jump_up probe step low high probes s =
    (case r of
       Inl err \<Rightarrow> Some ((Inl err, probes + 1), s')
     | Inr ok \<Rightarrow>
         if \<not> ok then jump_bisect probe low high' (probes + 1) s'
         else if high' = MaxUint64 then Some ((Inr high', probes + 1), s')
         else jump_up probe step' high' high' (probes + 1) s')"
  unfolding jump_up.simps [of probe step low high probes s] assms(1) [symmetric]
  by (simp add: assms(2) Let_def split: sum.split)

lemma jump_up_post:
  assumes "probe_ok I E probe" and "I n s" and "unat step = 2 ^ j" and "unat high + 1 = lo + 2 ^ Suc j"
    and "unat high \<le> n" and "n < 2 ^ 64 - 1" and "n0 \<le> n"
  shows "jump_post I E n0 (jump_cost lo) (jump_up probe step high high (j + 1) s)"
  using assms(2-)
proof (induction "2 ^ 64 - 1 - unat high" arbitrary: n s step high j rule: less_induct)
  case less
  obtain high' step' where upd: "(high', step') = (if step > (MaxUint64 - high) div 2 then (MaxUint64, step)
                           else (high + step * 2, step * 2))"
    by (metis surj_pair)
  have lt: "unat high < 2 ^ 64 - 1" using less.prems(4,5) by simp
  note nxt = jump_up_next [OF less.prems(2,3) lt upd]
  obtain r s' where pr: "probe high' s = (r, s')" by fastforce
  obtain n' where n': "n \<le> n'" "n' < 2 ^ 64 - 1" "I n' s'" "\<forall>b. r = Inr b \<longrightarrow> b = (1 \<le> unat high' \<and> unat high' \<le> n')"
      "\<forall>e. r = Inl e \<longrightarrow> E e"
    by (rule probe_okE [OF assms(1) less.prems(1) pr])
  note eq = jump_up_step [of high' step' high step probe s r s' high "j + 1", OF upd pr]
  have far: "2 ^ Suc j \<le> n - lo + 1" using less.prems(3,4) by simp
  have cost: "jump_cost lo m pr" if "n' \<le> m" "pr \<le> 2 * j + 3" for m pr
    by (rule jump_cost_mono [OF far _ that(2)]) (use that(1) n'(1) in simp)
  have "(1 :: nat) \<le> 2 ^ j" by simp
  with less.prems(3) have pos: "1 \<le> unat high" unfolding power_Suc by linarith
  show ?case
  proof (cases r)
    case (Inl err)
    show ?thesis unfolding eq Inl sum.case
      by (rule jump_post_error [where n' = n']) (use less.prems(6) n'(1,3,5) Inl cost in simp_all)
  next
    case (Inr ok)
    show ?thesis
    proof (cases ok)
      case False
      with n'(4) Inr have "n' < unat high'" using nxt pos by (auto simp: word_less_nat_alt)
      then have "jump_post I E n0 (jump_cost lo) (jump_bisect probe high high' (j + 1 + 1) s')"
        by (intro jump_bisect_post [OF assms(1), where n = n' and k = "Suc j"])
          (use nxt pos less.prems(4,6) n'(1,3) cost in simp_all)
      with Inr False show ?thesis unfolding eq by simp
    next
      case True
      with n'(4) Inr have le: "unat high' \<le> n'" by blast
      with n'(2) have "high' \<noteq> MaxUint64" by auto
      from nxt have "unat high < unat high'" by (simp add: word_less_nat_alt)
      with lt have dec: "2 ^ 64 - 1 - unat high' < 2 ^ 64 - 1 - unat high" by (rule diff_less_mono2 [rotated])
      have "jump_post I E n0 (jump_cost lo) (jump_up probe step' high' high' (Suc j + 1) s')"
        by (intro less.hyps [OF dec, where n = n'])
          (use nxt le less.prems(6) n'(1-3) \<open>high' \<noteq> MaxUint64\<close> in simp_all)
      with Inr True \<open>high' \<noteq> MaxUint64\<close> show ?thesis unfolding eq by simp
    qed
  qed
qed

lemma jump_post_jump:
  assumes "probe_ok I E probe" and "I n s" and "unat lo \<le> n" and "n < 2 ^ 64 - 1"
  shows "jump_post I E n (jump_cost (unat lo)) (jump lo probe s)"
proof -
  from assms(3,4) have lo: "lo \<noteq> MaxUint64" "lo < MaxUint64" by (auto simp: word_less_nat_alt)
  note succ = unat_succ [OF lo(2)]
  obtain r s' where pr: "probe (lo + 1) s = (r, s')" by fastforce
  obtain n' where n': "n \<le> n'" "n' < 2 ^ 64 - 1" "I n' s'" "\<forall>b. r = Inr b \<longrightarrow> b = (1 \<le> unat (lo + 1) \<and> unat (lo + 1) \<le> n')"
      "\<forall>e. r = Inl e \<longrightarrow> E e"
    by (rule probe_okE [OF assms(1,2) pr])
  show ?thesis
  proof (cases r)
    case (Inl e)
    have "jump_post I E n (jump_cost (unat lo)) (Some ((Inl e, 1), s'))"
      by (rule jump_post_error [where n' = n']) (use n' Inl in \<open>simp_all add: jump_cost_def\<close>)
    with lo(1) pr Inl show ?thesis by (simp add: jump_def)
  next
    case (Inr ex)
    show ?thesis
    proof (cases ex)
      case False
      with n'(4) Inr succ have "n' \<le> unat lo" by auto
      with n' assms(3) have "jump_post I E n (jump_cost (unat lo)) (Some ((Inr lo, 1), s'))"
        by (intro jump_post_found [where n' = n']) (simp_all add: jump_cost_def)
      with lo(1) pr Inr False show ?thesis by (simp add: jump_def)
    next
      case True
      with n'(4) Inr have "unat (lo + 1) \<le> n'" by blast
      then have "jump_post I E n (jump_cost (unat lo)) (jump_up probe 1 (lo + 1) (lo + 1) (0 + 1) s')"
        by (intro jump_up_post [OF assms(1), where n = n']) (use n' succ in simp_all)
      with lo(1) pr Inr True show ?thesis by (simp add: jump_def)
    qed
  qed
qed

end
