(* ===== verification/Log_Contract.thy ===== *)
theory Log_Contract
  imports Logstream
begin

text \<open>
  The log as a list. \<open>log_is p xs v\<close> says that in the view \<open>v\<close> the log under the prefix \<open>p\<close> holds the batches
  \<open>xs\<close>: the keys under \<open>p/\<close> are those of the sequence numbers \<open>1, ..., length xs\<close>, and the \<open>i\<close>-th object is
  the \<open>i\<close>-th batch. Sequence numbers stay below \<open>2 ^ 64 - 1\<close>, the last one \<open>Append\<close> can hand out.
  \<open>log_rely\<close> is what the writers of a log promise each other: the list only grows at its end.

  The locale \<open>log_store\<close> is an object store on which they keep that promise; it is interpreted on the world of
  \<open>World\<close>. Its lemmas show that \<open>head\<close> finds the end of the list while it grows, and that \<open>Append\<close>
  implements appending to the list.
\<close>

definition log_is :: "string \<Rightarrow> bytes list \<Rightarrow> view \<Rightarrow> bool" where
  "log_is p xs v \<longleftrightarrow> length xs < 2 ^ 64 - 1
     \<and> (\<forall>k. prefix (p @ ''/'') k \<longrightarrow> (v k \<noteq> None \<longleftrightarrow> (\<exists>i. 1 \<le> i \<and> i \<le> length xs \<and> k = segmentKey p (of_nat i))))
     \<and> (\<forall>i < length xs. \<exists>g. v (segmentKey p (of_nat (Suc i))) = Some (xs ! i, g))"

definition log_rely :: "string \<Rightarrow> view \<Rightarrow> view \<Rightarrow> bool" where
  "log_rely p v v' \<longleftrightarrow> (\<forall>xs. log_is p xs v \<longrightarrow> (\<exists>ys. prefix xs ys \<and> log_is p ys v'))"

lemma log_rely_refl [simp]: "log_rely p v v"
  by (auto simp: log_rely_def)

lemma log_is_length: "log_is p xs v \<Longrightarrow> length xs < 2 ^ 64 - 1"
  by (simp add: log_is_def)

lemma unat_of_nat_u64: "n < 2 ^ 64 \<Longrightarrow> unat (of_nat n :: u64) = n"
  by (simp add: unat_of_nat)

lemma log_is_exists:
  assumes "log_is p xs v"
  shows "v (segmentKey p seq) \<noteq> None \<longleftrightarrow> 1 \<le> unat seq \<and> unat seq \<le> length xs"
proof -
  have "v (segmentKey p seq) \<noteq> None \<longleftrightarrow> (\<exists>i. 1 \<le> i \<and> i \<le> length xs \<and> seq = of_nat i)"
    using assms segmentKey_prefix [of p seq] by (simp add: log_is_def)
  also have "\<dots> \<longleftrightarrow> 1 \<le> unat seq \<and> unat seq \<le> length xs"
  proof
    assume "\<exists>i. 1 \<le> i \<and> i \<le> length xs \<and> seq = of_nat i"
    then obtain i where i: "1 \<le> i" "i \<le> length xs" "seq = of_nat i" by blast
    with log_is_length [OF assms] have "unat seq = i" by (simp add: unat_of_nat_u64)
    with i show "1 \<le> unat seq \<and> unat seq \<le> length xs" by simp
  qed (auto intro!: exI [of _ "unat seq"])
  finally show ?thesis .
qed

lemma log_is_nth:
  assumes "log_is p xs v" and "v (segmentKey p seq) = Some (d, g)"
  shows "1 \<le> unat seq \<and> unat seq \<le> length xs \<and> d = xs ! (unat seq - 1)"
proof -
  have b: "1 \<le> unat seq \<and> unat seq \<le> length xs" using log_is_exists [OF assms(1), of seq] assms(2) by simp
  then have "unat seq - 1 < length xs" and "Suc (unat seq - 1) = unat seq" by linarith+
  moreover from this(2) have "of_nat (Suc (unat seq - 1)) = seq" by (simp del: of_nat_Suc)
  ultimately show ?thesis using assms b unfolding log_is_def by fastforce
qed

lemma log_is_append:
  assumes "log_is p xs v" and "unat q = length xs + 1" and "length xs + 1 < 2 ^ 64 - 1"
  shows "log_is p (xs @ [d]) (v(segmentKey p q \<mapsto> (d, g)))"
proof -
  let ?v = "v(segmentKey p q \<mapsto> (d, g))"
  have "of_nat (unat q) = q" by simp
  then have q: "of_nat (Suc (length xs)) = q" unfolding assms(2) by simp
  have "\<exists>g'. ?v (segmentKey p (of_nat (Suc i))) = Some ((xs @ [d]) ! i, g')" if "i < length (xs @ [d])" for i
  proof (cases "i = length xs")
    case True
    then show ?thesis by (simp add: q del: of_nat_Suc)
  next
    case False
    with that have i: "i < length xs" by simp
    have "unat (of_nat (Suc i) :: u64) = Suc i" by (rule unat_of_nat_u64) (use i assms(3) in simp)
    with i assms(2) have "of_nat (Suc i) \<noteq> q" by auto
    with i assms(1) show ?thesis by (simp add: log_is_def nth_append del: of_nat_Suc)
  qed
  moreover have "?v k \<noteq> None \<longleftrightarrow> (\<exists>i. 1 \<le> i \<and> i \<le> length (xs @ [d]) \<and> k = segmentKey p (of_nat i))"
    if "prefix (p @ ''/'') k" for k
  proof (cases "k = segmentKey p q")
    case True
    then show ?thesis by (auto simp: q [symmetric] simp del: of_nat_Suc intro!: exI [of _ "Suc (length xs)"])
  next
    case False
    then have "k = segmentKey p (of_nat i) \<Longrightarrow> i \<noteq> Suc (length xs)" for i by (auto simp: q simp del: of_nat_Suc)
    with False that assms(1) show ?thesis by (simp add: log_is_def) (metis le_Suc_eq)
  qed
  ultimately show ?thesis using assms(3) by (simp add: log_is_def)
qed

subsection \<open>Listing\<close>

lemma sorted_segmentKeys:
  assumes "n < 2 ^ 64"
  shows "sorted (map (\<lambda>i. segmentKey p (of_nat i)) [lo..<Suc n])"
    and "distinct (map (\<lambda>i. segmentKey p (of_nat i)) [lo..<Suc n])"
proof -
  have less: "segmentKey p (of_nat i) < segmentKey p (of_nat j)" if "i < j" "j \<le> n" for i j
    using that assms by (simp add: segmentKey_less word_less_nat_alt unat_of_nat_u64)
  have "sorted_wrt (<) (map (\<lambda>i. segmentKey p (of_nat i)) [lo..<Suc n])"
    unfolding sorted_wrt_map
    by (rule sorted_wrt_mono_rel [OF _ sorted_wrt_upt]) (use less in auto)
  then show "sorted (map (\<lambda>i. segmentKey p (of_nat i)) [lo..<Suc n])"
    and "distinct (map (\<lambda>i. segmentKey p (of_nat i)) [lo..<Suc n])"
    by (simp_all only: strict_sorted_iff)
qed

lemma segmentKey_pos: "[] < segmentKey p s"
  by (cases p) (simp_all add: segmentKey_def)

lemma log_is_list:
  assumes "log_is p xs v"
  shows "list_keys v (p @ ''/'') (if lo > 0 then segmentKey p lo else []) limit =
    (let ks = map (\<lambda>i. segmentKey p (of_nat i)) [Suc (unat lo)..<Suc (length xs)]
     in if 0 < limit then take (nat limit) ks else ks)"
proof -
  define start where "start = (if lo > 0 then segmentKey p lo else [])"
  let ?ks = "map (\<lambda>i. segmentKey p (of_nat i)) [Suc (unat lo)..<Suc (length xs)]"
  have len: "length xs < 2 ^ 64" using log_is_length [OF assms] by simp
  have after: "start < segmentKey p seq \<longleftrightarrow> unat lo < unat seq" if "seq \<noteq> 0" for seq
    using that unfolding start_def by (auto simp: segmentKey_less word_less_nat_alt segmentKey_pos unat_gt_0)
  have key: "start < segmentKey p (of_nat i) \<longleftrightarrow> unat lo < i" if "1 \<le> i" "i \<le> length xs" for i
  proof -
    have "unat (of_nat i :: u64) = i" by (rule unat_of_nat_u64) (use that len in simp)
    moreover from this that have "(of_nat i :: u64) \<noteq> 0" by auto
    ultimately show ?thesis using after [of "of_nat i"] by simp
  qed
  have "{k \<in> dom v. prefix (p @ ''/'') k \<and> start < k} = set ?ks"
  proof (intro set_eqI iffI)
    fix k assume "k \<in> {k \<in> dom v. prefix (p @ ''/'') k \<and> start < k}"
    then have "v k \<noteq> None" "prefix (p @ ''/'') k" "start < k" by auto
    with assms obtain i where i: "1 \<le> i" "i \<le> length xs" "k = segmentKey p (of_nat i)"
      unfolding log_is_def by blast
    with key [OF i(1,2)] \<open>start < k\<close> have "i \<in> set [Suc (unat lo)..<Suc (length xs)]" by auto
    with i(3) show "k \<in> set ?ks" unfolding set_map by (rule image_eqI)
  next
    fix k assume "k \<in> set ?ks"
    then obtain i where "k = segmentKey p (of_nat i)" "i \<in> set [Suc (unat lo)..<Suc (length xs)]"
      unfolding set_map by (rule imageE)
    then have i: "unat lo < i" "i \<le> length xs" "k = segmentKey p (of_nat i)" by auto
    then have "1 \<le> i" by simp
    have pk: "prefix (p @ ''/'') k" by (simp only: i(3) segmentKey_prefix)
    with \<open>1 \<le> i\<close> i assms have "v k \<noteq> None" unfolding log_is_def by blast
    with pk i key [OF \<open>1 \<le> i\<close> i(2)] show "k \<in> {k \<in> dom v. prefix (p @ ''/'') k \<and> start < k}" by auto
  qed
  then have "sorted_list_of_set {k \<in> dom v. prefix (p @ ''/'') k \<and> start < k} = ?ks"
    using sorted_segmentKeys [OF len, of p "Suc (unat lo)"]
      sorted_list_of_set.idem_if_sorted_distinct [of ?ks] by simp
  then show ?thesis unfolding list_keys_def start_def [symmetric] by simp
qed

text \<open>What \<open>head\<close> makes of a listing: it is empty, or its last key gives the last number listed.\<close>

lemma log_is_listing:
  assumes "log_is p xs v" and "unat lo \<le> length xs"
    and "map Key objs = list_keys v (p @ ''/'') (if lo > 0 then segmentKey p lo else []) (int headListLimit)"
  shows "length objs = min headListLimit (length xs - unat lo)"
    and "objs \<noteq> [] \<Longrightarrow> parseSeq (Key (last objs)) = Inr (of_nat (unat lo + length objs))"
proof -
  let ?is = "take headListLimit [Suc (unat lo)..<Suc (length xs)]"
  have ks: "map Key objs = map (\<lambda>i. segmentKey p (of_nat i)) ?is"
    using assms(3) unfolding log_is_list [OF assms(1)] Let_def by (simp add: headListLimit_def take_map)
  then have "length (map Key objs) = length ?is" by (metis length_map)
  then show len: "length objs = min headListLimit (length xs - unat lo)" by auto
  assume ne: "objs \<noteq> []"
  then have "?is \<noteq> []" using ks by (metis list.map_disc_iff)
  have "Key (last objs) = last (map Key objs)" using ne by (simp add: last_map)
  also have "\<dots> = segmentKey p (of_nat (last ?is))" unfolding ks using \<open>?is \<noteq> []\<close> by (simp add: last_map)
  also have "last ?is = ?is ! (length objs - 1)"
    using \<open>?is \<noteq> []\<close> \<open>length (map Key objs) = length ?is\<close> by (simp add: last_conv_nth del: upt_Suc)
  also have "\<dots> = unat lo + length objs"
  proof -
    from ne obtain m where "length objs = Suc m" by (cases objs) auto
    moreover have "length objs \<le> headListLimit" "length objs \<le> length xs - unat lo" unfolding len by simp_all
    ultimately show ?thesis by (simp add: nth_append del: upt_Suc)
  qed
  finally have key: "Key (last objs) = segmentKey p (of_nat (unat lo + length objs))" .
  have "unat (of_nat (unat lo + length objs) :: u64) = unat lo + length objs"
    by (rule unat_of_nat_u64) (use len log_is_length [OF assms(1)] assms(2) in simp)
  with ne have "(of_nat (unat lo + length objs) :: u64) \<noteq> 0" by auto
  then show "parseSeq (Key (last objs)) = Inr (of_nat (unat lo + length objs))"
    unfolding key by (rule parseSeq_segmentKey)
qed

lemma jump_post_mono:
  assumes "jump_post I E n0' cost' res" and "n0 \<le> n0'" and "\<And>n pr. cost' n pr \<Longrightarrow> cost n pr"
  shows "jump_post I E n0 cost res"
proof -
  from assms(1) obtain r pr s' n' where "res = Some ((r, pr), s')" "n0' \<le> n'" "I n' s'" "cost' n' pr"
    "\<forall>h. r = Inr h \<longrightarrow> n0' \<le> unat h \<and> unat h \<le> n'" "\<forall>e. r = Inl e \<longrightarrow> E e" unfolding jump_post_def by blast
  with assms(2,3) show ?thesis
    unfolding jump_post_def by (intro exI [of _ r] exI [of _ pr] exI [of _ s'] exI [of _ n']) auto
qed

lemma log_is_unique:
  assumes "log_is p xs v" and "log_is p ys v"
  shows "xs = ys"
proof -
  have bound: "length as \<le> length bs" if a: "log_is p as v" and b: "log_is p bs v" for as bs
  proof (cases "as = []")
    case False
    let ?q = "of_nat (length as) :: u64"
    have "unat ?q = length as" by (rule unat_of_nat_u64) (use log_is_length [OF a] in simp)
    with False log_is_exists [OF a, of ?q] log_is_exists [OF b, of ?q] show ?thesis
      by (auto simp: Suc_le_eq)
  qed simp
  have len: "length xs = length ys" using bound assms by (meson le_antisym)
  show ?thesis
  proof (rule nth_equalityI [OF len])
    fix i assume "i < length xs"
    with assms len show "xs ! i = ys ! i" unfolding log_is_def by fastforce
  qed
qed

subsection \<open>The log over an object store\<close>

text \<open>What a call leaves in the store: the log grown by other processes only, or also by the batch \<open>d\<close> at number
  \<open>q\<close>, right behind the batches that were there.\<close>

definition log_grown :: "(view \<Rightarrow> view \<Rightarrow> bool) \<Rightarrow> string \<Rightarrow> view \<Rightarrow> bytes list \<Rightarrow> view \<Rightarrow> bool" where
  "log_grown rely p v0 xs v \<longleftrightarrow> rely\<^sup>*\<^sup>* v0 v \<and> (\<exists>ys. prefix xs ys \<and> log_is p ys v)"

definition log_appended ::
    "(view \<Rightarrow> view \<Rightarrow> bool) \<Rightarrow> string \<Rightarrow> view \<Rightarrow> bytes list \<Rightarrow> bytes \<Rightarrow> u64 \<Rightarrow> view \<Rightarrow> bool" where
  "log_appended rely p v0 xs d q v' \<longleftrightarrow>
     (\<exists>ys v g. rely\<^sup>*\<^sup>* v0 v \<and> prefix xs ys \<and> log_is p ys v \<and> unat q = length ys + 1
        \<and> v' = v(segmentKey p q \<mapsto> (d, g)))"

text \<open>The counter of a handle never runs ahead of the log.\<close>

definition handle_ok :: "string \<Rightarrow> Log \<Rightarrow> view \<Rightarrow> bool" where
  "handle_ok p l v \<longleftrightarrow> l_prefix l = p \<and> (\<forall>ys. log_is p ys v \<longrightarrow> unat (lastKnown l) \<le> length ys)"

lemma log_grown_trans:
  assumes "rely\<^sup>*\<^sup>* v0 v1" and "prefix xs ys" and "log_grown rely p v1 ys v"
  shows "log_grown rely p v0 xs v"
  using assms unfolding log_grown_def by (meson prefix_order.trans rtranclp_trans)

lemma log_appended_trans:
  assumes "rely\<^sup>*\<^sup>* v0 v1" and "prefix xs ys" and "log_appended rely p v1 ys d q v"
  shows "log_appended rely p v0 xs d q v"
proof -
  from assms(3) obtain zs w g where w: "rely\<^sup>*\<^sup>* v1 w" "prefix ys zs"
    "log_is p zs w" "unat q = length zs + 1" "v = w(segmentKey p q \<mapsto> (d, g))"
    unfolding log_appended_def by blast
  moreover have "rely\<^sup>*\<^sup>* v0 w" "prefix xs zs"
    using assms(1,2) w(1,2) by (auto intro: rtranclp_trans prefix_order.trans)
  ultimately show ?thesis unfolding log_appended_def by blast
qed

lemma log_grown_handle:
  assumes "log_grown rely p v0 xs v" and "unat (lastKnown l) \<le> length xs" and "l_prefix l = p"
  shows "handle_ok p l v"
proof -
  from assms(1) obtain ys where "prefix xs ys" "log_is p ys v" unfolding log_grown_def by blast
  then show ?thesis
    using assms(2,3) log_is_unique prefix_length_le unfolding handle_ok_def by (metis le_trans)
qed

lemma log_appended_handle:
  assumes "log_appended rely p v0 xs d q v" and "unat (lastKnown l) \<le> unat q" and "l_prefix l = p"
  shows "handle_ok p l v"
proof -
  from assms(1) have "v (segmentKey p q) \<noteq> None" unfolding log_appended_def by auto
  then show ?thesis
    using assms(2,3) log_is_exists unfolding handle_ok_def by (metis le_trans)
qed

lemma log_appended_beyond:
  "log_appended rely p v0 xs d q v \<Longrightarrow> length xs < unat q"
  unfolding log_appended_def using prefix_length_le by fastforce

lemma encode_batch_frames: "encode_batch records = Inr (frames records)"
proof -
  note nw = NewWriter_bytes_Buffer
  from write_records_healthy [OF nw(1), of records] obtain w
    where w: "write_records (NewWriter bytes_Buffer []) records = (None, w)" "Writer_healthy w"
      "Writer_bytes w = frames records" "sk_close (bw_wr (w_bw w)) = None" using nw by auto
  with Writer_Close_healthy [OF w(2,4)] show ?thesis by (auto simp: encode_batch_def)
qed

lemma NewScanner_default:
  "s_err (NewScanner rc []) = None" "Scanner_avail (NewScanner rc []) = src_rest rc"
  "Scanner_end (NewScanner rc []) = src_end rc" "s_maxRecordSize (NewScanner rc []) = DefaultMaxRecordSize"
  by (simp_all add: NewScanner_def Let_def Scanner_avail_def Scanner_end_def bufr_avail_def bufio_NewReaderSize_def)

locale log_store = object_store S view inv issued rely evolves
  for S :: "'s Store" and view inv issued rely evolves +
  fixes pfx :: string
  assumes rely_log: "rely v v' \<Longrightarrow> log_rely pfx v v'"
begin

text \<open>After a run from \<open>s0\<close>, where the log held \<open>xs\<close>, it holds \<open>n\<close> batches that begin with \<open>xs\<close>.\<close>

definition log_at :: "'s \<Rightarrow> bytes list \<Rightarrow> nat \<Rightarrow> 's \<Rightarrow> bool" where
  "log_at s0 xs n s \<longleftrightarrow> inv s \<and> evolves s0 s \<and> rely\<^sup>*\<^sup>* (view s0) (view s)
     \<and> (\<exists>ys. length ys = n \<and> prefix xs ys \<and> log_is pfx ys (view s))"

lemma log_at_step:
  assumes "log_at s0 xs n s" and "inv s'" and "evolves s s'" and "rely (view s) (view s')"
  obtains zs where "n \<le> length zs" "prefix xs zs" "log_is pfx zs (view s')" "log_at s0 xs (length zs) s'"
proof -
  from assms(1) obtain ys where ys: "length ys = n" "prefix xs ys" "log_is pfx ys (view s)"
    unfolding log_at_def by blast
  with rely_log [OF assms(4)] obtain zs where "prefix ys zs" "log_is pfx zs (view s')"
    unfolding log_rely_def by blast
  moreover have "evolves s0 s'" using assms(1,3) evolves_trans unfolding log_at_def by blast
  moreover have "rely\<^sup>*\<^sup>* (view s0) (view s')"
    using assms(1,4) unfolding log_at_def by (meson rtranclp.rtrancl_into_rtrancl)
  moreover have "prefix xs zs" using ys(2) calculation(1) by (rule prefix_order.trans)
  ultimately show ?thesis
    using that [of zs] assms(2) ys(1) prefix_length_le unfolding log_at_def by blast
qed

lemma log_at_inv: "log_at s0 xs n s \<Longrightarrow> inv s"
  by (simp add: log_at_def)

lemma probe_ok_Exists: "probe_ok (log_at s0 xs) store_err (\<lambda>seq. Store_Exists S c (segmentKey pfx seq))"
  unfolding probe_ok_def
proof (intro allI impI)
  fix n s seq r s'
  assume at: "log_at s0 xs n s" and call: "Store_Exists S c (segmentKey pfx seq) s = (r, s')"
  note e = exists_law [OF log_at_inv [OF at] call]
  with log_at_step [OF at] obtain zs
    where zs: "n \<le> length zs" "log_is pfx zs (view s')" "log_at s0 xs (length zs) s'" by blast
  moreover have "\<forall>b. r = Inr b \<longrightarrow> b = (1 \<le> unat seq \<and> unat seq \<le> length zs)"
    using e log_is_exists [OF zs(2)] by blast
  ultimately show "\<exists>n' \<ge> n. n' < 2 ^ 64 - 1 \<and> log_at s0 xs n' s'
      \<and> (\<forall>b. r = Inr b \<longrightarrow> b = (1 \<le> unat seq \<and> unat seq \<le> n')) \<and> (\<forall>e. r = Inl e \<longrightarrow> store_err e)"
    using e log_is_length [OF zs(2)] by blast
qed

text \<open>\<open>head\<close> from a number that exists returns, and with a number that was the last one, or later, when
  it began and that still exists.\<close>

lemma Log_head_post:
  assumes "log_at s0 xs n s" and "unat lo \<le> n"
  shows "jump_post (log_at s0 xs) store_err n (jump_cost (unat lo)) (Log_head S c pfx lo s)"
proof -
  let ?start = "if lo > 0 then segmentKey pfx lo else []"
  obtain r s' where call: "Store_List S c (pfx @ ''/'') ?start (int headListLimit) s = (r, s')" by fastforce
  note e = list_law [OF log_at_inv [OF assms(1)] call]
  with log_at_step [OF assms(1)] obtain zs
    where zs: "n \<le> length zs" "log_is pfx zs (view s')" "log_at s0 xs (length zs) s'" by blast
  show ?thesis
  proof (cases r)
    case (Inl err)
    then show ?thesis
      using zs call e by (auto simp: Log_head_def jump_cost_def intro!: jump_post_error [where n' = "length zs"])
  next
    case (Inr objs)
    with e have keys: "map Key objs = list_keys (view s') (pfx @ ''/'') ?start (int headListLimit)" by blast
    have lo: "unat lo \<le> length zs" using assms(2) zs(1) by simp
    note listing = log_is_listing [OF zs(2) lo keys]
    define lst where "lst = (of_nat (unat lo + length objs) :: u64)"
    have lst: "unat lst = unat lo + length objs" unfolding lst_def
      by (rule unat_of_nat_u64) (use listing(1) log_is_length [OF zs(2)] lo in simp)
    have found: "jump_post (log_at s0 xs) store_err n (jump_cost (unat lo)) (Some ((Inr h, 0), s'))" if "unat h = length zs" for h
      using that zs by (intro jump_post_found [where n' = "length zs"]) (simp_all add: jump_cost_def)
    consider (empty) "objs = []" | (short) "objs \<noteq> []" "length objs < headListLimit"
      | (full) "objs \<noteq> []" "\<not> length objs < headListLimit" by blast
    then show ?thesis
    proof cases
      case empty
      with listing(1) lo have "unat lo = length zs" by (simp add: headListLimit_def)
      with found [of lo] empty Inr call show ?thesis by (simp add: Log_head_def)
    next
      case short
      with listing(1) lo have "unat lst = length zs" by (simp add: lst)
      with found [of lst] short Inr call listing(2) show ?thesis by (simp add: Log_head_def lst_def)
    next
      case full
      have "jump_post (log_at s0 xs) store_err (length zs) (jump_cost (unat lst))
          (jump lst (\<lambda>seq. Store_Exists S c (segmentKey pfx seq)) s')"
        by (rule jump_post_jump [OF probe_ok_Exists zs(3)])
          (use listing(1) lo log_is_length [OF zs(2)] in \<open>simp_all add: lst\<close>)
      then have "jump_post (log_at s0 xs) store_err n (jump_cost (unat lo))
          (jump lst (\<lambda>seq. Store_Exists S c (segmentKey pfx seq)) s')"
        by (rule jump_post_mono [OF _ zs(1)]) (auto simp: jump_cost_def lst)
      with full Inr call listing(2) show ?thesis by (simp add: Log_head_def lst_def)
    qed
  qed
qed

text \<open>
  One run of the loop of \<open>Append\<close>. The batch is either in the log at the end (at the number returned, or, when the
  store's answer was lost, at a number that is not returned), or it is not there at all; nothing else changed
  but through the other processes.
\<close>

definition append_post :: "'s \<Rightarrow> bytes list \<Rightarrow> Log \<Rightarrow> bytes \<Rightarrow> u64 result \<times> Log \<times> 's \<Rightarrow> bool" where
  "append_post s0 xs l payload res \<longleftrightarrow>
     (case res of (r, l', s') \<Rightarrow>
        inv s' \<and> evolves s0 s' \<and>
        (case r of
           Inr q \<Rightarrow> l' = raise_known q l \<and> log_appended rely pfx (view s0) xs payload q (view s')
         | Inl e \<Rightarrow> l' = l \<and> store_err e \<and> (log_grown rely pfx (view s0) xs (view s')
             \<or> (\<exists>q. log_appended rely pfx (view s0) xs payload q (view s')))))"

lemma log_at_grown: "log_at s0 xs n s \<Longrightarrow> log_grown rely pfx (view s0) xs (view s)"
  by (auto simp: log_at_def log_grown_def)

lemma log_at_put:
  assumes "log_at s0 xs n s" and "unat q \<le> n + 1" and "1 \<le> unat q"
    and "rely (view s) v" and "holds_cond v (segmentKey pfx q) cond_absent"
    and "v' = v(segmentKey pfx q \<mapsto> (payload, g))"
  shows "log_appended rely pfx (view s0) xs payload q v'"
proof -
  from assms(1) obtain ys where ys: "length ys = n" "prefix xs ys" "log_is pfx ys (view s)"
    unfolding log_at_def by blast
  with rely_log [OF assms(4)] obtain zs where zs: "prefix ys zs" "log_is pfx zs v"
    unfolding log_rely_def by blast
  from assms(5) log_is_exists [OF zs(2), of q] assms(3) have "length zs < unat q"
    by (simp add: holds_cond_def)
  with assms(2) ys(1) prefix_length_le [OF zs(1)] have "unat q = length zs + 1" by simp
  moreover have "prefix xs zs" using ys(2) zs(1) by (rule prefix_order.trans)
  moreover have "rely\<^sup>*\<^sup>* (view s0) v"
    using assms(1,4) unfolding log_at_def by (meson rtranclp.rtrancl_into_rtrancl)
  ultimately show ?thesis using zs(2) assms(6) unfolding log_appended_def by blast
qed

lemma append_body_post:
  assumes "(case Store_Put S c (segmentKey pfx seq) (bytes_Reader payload) cond_absent s of
        (Inl err, s') \<Rightarrow>
          if \<not> errors_is err ErrPreconditionFailed then Some (Inl err, l, s')
          else case Log_head S c pfx seq s' of None \<Rightarrow> None
               | Some ((Inl err, x), s'') \<Rightarrow> Some (Inl err, l, s'')
               | Some ((Inr head, x), s'') \<Rightarrow> loop S c l payload (head + 1) s''
        | (Inr x, s') \<Rightarrow> Some (Inr seq, raise_known seq l, s')) = Some res"
    and at: "log_at s0 xs n s" and seq: "1 \<le> unat seq" "unat seq \<le> n + 1"
    and again: "\<And>h s'' n'. loop S c l payload (h + 1) s'' = Some res \<Longrightarrow> log_at s0 xs n' s'' \<Longrightarrow>
      unat h \<le> n' \<Longrightarrow> append_post s0 xs l payload res"
  shows "append_post s0 xs l payload res"
proof -
  obtain r s' where put: "Store_Put S c (segmentKey pfx seq) (bytes_Reader payload) cond_absent s = (r, s')"
    by fastforce
  note law = put_law [OF log_at_inv [OF at] put]
  note body = assms(1) [unfolded put prod.case]
  have ev: "evolves s0 s'" using at law evolves_trans unfolding log_at_def by blast
  note added = log_at_put [OF at seq(2,1)]
  show ?thesis
  proof (cases r)
    case (Inr g)
    with body have res: "res = (Inr seq, raise_known seq l, s')" by simp
    from law Inr obtain v where "rely (view s) v" "holds_cond v (segmentKey pfx seq) cond_absent"
      "view s' = v(segmentKey pfx seq \<mapsto> (payload, g))" by auto
    from added [OF this] law ev show ?thesis by (simp add: append_post_def res)
  next
    case (Inl e)
    note law = law [unfolded Inl sum.case] and body = body [unfolded Inl sum.case]
    show ?thesis
    proof (cases "errors_is e ErrPreconditionFailed")
      case False
      with body have res: "res = (Inl e, l, s')" by simp
      from law False consider "rely (view s) (view s')"
        | v g where "rely (view s) v" "holds_cond v (segmentKey pfx seq) cond_absent"
            "view s' = v(segmentKey pfx seq \<mapsto> (payload, g))" by auto
      then have "log_grown rely pfx (view s0) xs (view s')
          \<or> (\<exists>q. log_appended rely pfx (view s0) xs payload q (view s'))"
      proof cases
        case 1
        with law have "inv s'" "evolves s s'" "rely (view s) (view s')" by simp_all
        then obtain zs where "n \<le> length zs" "prefix xs zs" "log_is pfx zs (view s')"
          and zs: "log_at s0 xs (length zs) s'" by (rule log_at_step [OF at])
        from log_at_grown [OF zs] show ?thesis ..
      next
        case 2
        from added [OF this] show ?thesis by (intro disjI2 exI)
      qed
      with res law ev show ?thesis by (simp add: append_post_def)
    next
      case True
      with law have s': "inv s'" "evolves s s'" "rely (view s) (view s')"
        and no: "\<not> holds_cond (view s') (segmentKey pfx seq) cond_absent" by simp_all
      obtain zs where "n \<le> length zs" "prefix xs zs"
        and zs: "log_is pfx zs (view s')" "log_at s0 xs (length zs) s'" by (rule log_at_step [OF at s'])
      from no log_is_exists [OF zs(1), of seq] have "unat seq \<le> length zs" by (auto simp: holds_cond_def)
      from Log_head_post [OF zs(2) this, of c]
      obtain rh pr s'' n' where head: "Log_head S c pfx seq s' = Some ((rh, pr), s'')"
        and n': "log_at s0 xs n' s''" "\<forall>h. rh = Inr h \<longrightarrow> length zs \<le> unat h \<and> unat h \<le> n'"
          "\<forall>e. rh = Inl e \<longrightarrow> store_err e"
        unfolding jump_post_def by blast
      show ?thesis
      proof (cases rh)
        case (Inl e')
        with body True head have "res = (Inl e', l, s'')" by simp
        with n'(1,3) Inl log_at_grown [OF n'(1)] show ?thesis by (simp add: append_post_def log_at_def)
      next
        case (Inr h)
        with body True head have "loop S c l payload (h + 1) s'' = Some res" by simp
        from again [OF this n'(1)] n'(2) Inr show ?thesis by blast
      qed
    qed
  qed
qed

lemma append_loop_post:
  assumes "append_loop S c l payload seq s = Some res" and "l_prefix l = pfx"
    and "log_at s0 xs n s" and "1 \<le> unat seq" and "unat seq \<le> n + 1"
  shows "append_post s0 xs l payload res"
proof -
  define P where "P = (\<lambda>T (c :: ctx) l payload (seq :: u64) s res. T = S \<longrightarrow> l_prefix l = pfx \<longrightarrow>
    (\<forall>n. log_at s0 xs n s \<longrightarrow> 1 \<le> unat seq \<longrightarrow> unat seq \<le> n + 1 \<longrightarrow> append_post s0 xs l payload res))"
  from assms(1) have "P S c l payload seq s res"
  proof (rule append_loop.raw_induct [rotated])
    fix loop T c l payload seq s res
    assume IH: "\<And>T c l payload seq s res. loop T c l payload seq s = Some res \<Longrightarrow> P T c l payload seq s res"
      and body: "(case Store_Put T c (segmentKey (l_prefix l) seq) (bytes_Reader payload) cond_absent s of
        (Inl err, s') \<Rightarrow>
          if \<not> errors_is err ErrPreconditionFailed then Some (Inl err, l, s')
          else case Log_head T c (l_prefix l) seq s' of None \<Rightarrow> None
               | Some ((Inl err, x), s'') \<Rightarrow> Some (Inl err, l, s'')
               | Some ((Inr head, x), s'') \<Rightarrow> loop T c l payload (head + 1) s''
        | (Inr x, s') \<Rightarrow> Some (Inr seq, raise_known seq l, s')) = Some res"
    have "append_post s0 xs l payload res"
      if T: "T = S" "l_prefix l = pfx" and at: "log_at s0 xs n s" "1 \<le> unat seq" "unat seq \<le> n + 1" for n
    proof (rule append_body_post [where loop = loop, OF body [unfolded T] at])
      fix h s'' n'
      assume "loop S c l payload (h + 1) s'' = Some res" and at': "log_at s0 xs n' s''" "unat h \<le> n'"
      moreover have "n' < 2 ^ 64 - 1" using at'(1) log_is_length unfolding log_at_def by blast
      with at'(2) have "unat (h + 1) = unat h + 1" by (simp add: unat_plus_if')
      ultimately show "append_post s0 xs l payload res"
        using IH [of S c l payload "h + 1" s'' res] T(2) unfolding P_def by simp
    qed
    then show "P T c l payload seq s res" unfolding P_def by blast
  qed
  with assms(2-) show ?thesis unfolding P_def by blast
qed

lemma append_loop_from:
  assumes "append_loop S c l payload (lastKnown l + 1) s1 = Some (r, l', s')"
    and "log_at s xs n s1" and "l_prefix l = pfx" and "unat (lastKnown l) \<le> n"
  shows "inv s' \<and> evolves s s' \<and> handle_ok pfx l' (view s') \<and>
    (case r of
       Inr q \<Rightarrow> log_appended rely pfx (view s) xs payload q (view s') \<and> lastKnown l' = q
     | Inl e \<Rightarrow> store_err e \<and> (log_grown rely pfx (view s) xs (view s')
         \<or> (\<exists>q. log_appended rely pfx (view s) xs payload q (view s'))))"
proof -
  from assms(2) obtain ys where ys: "length ys = n" "prefix xs ys" "log_is pfx ys (view s1)"
    and s1: "inv s1" "evolves s s1" "rely\<^sup>*\<^sup>* (view s) (view s1)" unfolding log_at_def by blast
  then have at: "log_at s1 ys n s1" by (auto simp: log_at_def evolves_refl)
  have "n < 2 ^ 64 - 1" using ys(1) log_is_length [OF ys(3)] by simp
  with assms(4) have seq: "unat (lastKnown l + 1) = unat (lastKnown l) + 1" by (simp add: unat_plus_if')
  have post: "append_post s1 ys l payload (r, l', s')"
    by (rule append_loop_post [OF assms(1,3) at]) (use assms(4) seq in simp_all)
  then have inv': "inv s'" "evolves s s'"
    using evolves_trans [OF s1(2)] by (auto simp: append_post_def)
  note trans = log_appended_trans [OF s1(3) ys(2)] log_grown_trans [OF s1(3) ys(2)]
  show ?thesis
  proof (cases r)
    case (Inr q)
    with post have l': "l' = raise_known q l"
      and app: "log_appended rely pfx (view s1) ys payload q (view s')" by (simp_all add: append_post_def)
    have "unat (lastKnown l) < unat q" using log_appended_beyond [OF app] assms(4) ys(1) by simp
    then have known: "lastKnown l' = q" "l_prefix l' = pfx"
      using assms(3) by (auto simp: l' raise_known_def word_le_nat_alt)
    then have "handle_ok pfx l' (view s')" by (intro log_appended_handle [OF app]) simp_all
    with Inr inv' known trans(1) [OF app] show ?thesis by simp
  next
    case (Inl e)
    with post have l': "l' = l" and se: "store_err e" and "log_grown rely pfx (view s1) ys (view s')
        \<or> (\<exists>q. log_appended rely pfx (view s1) ys payload q (view s'))"
      by (simp_all add: append_post_def)
    from this(3) show ?thesis
    proof
      assume g: "log_grown rely pfx (view s1) ys (view s')"
      have "handle_ok pfx l (view s')" by (rule log_grown_handle [OF g]) (use assms(3,4) ys(1) in simp_all)
      with Inl inv' trans(2) [OF g] l' se show ?thesis by simp
    next
      assume "\<exists>q. log_appended rely pfx (view s1) ys payload q (view s')"
      then obtain q where app: "log_appended rely pfx (view s1) ys payload q (view s')" ..
      have "handle_ok pfx l (view s')"
        by (rule log_appended_handle [OF app]) (use assms(3,4) ys(1) log_appended_beyond [OF app] in simp_all)
      with Inl inv' trans(1) [OF app] l' se show ?thesis by auto
    qed
  qed
qed

lemma Tail_post:
  assumes "inv s" and "log_is pfx xs (view s)" and "l_prefix l = pfx"
  shows "\<exists>r s' n. Tail S c l s = Some (r, s') \<and> log_at s xs n s' \<and>
    (\<forall>t. r = Inr t \<longrightarrow> length xs \<le> unat t \<and> unat t \<le> n) \<and> (\<forall>e. r = Inl e \<longrightarrow> store_err e)"
proof -
  have "log_at s xs (length xs) s" using assms(1,2) by (auto simp: log_at_def evolves_refl)
  from Log_head_post [OF this, of 0 c] obtain r pr s' n where
    "Log_head S c pfx 0 s = Some ((r, pr), s')" "log_at s xs n s'"
    "\<forall>h. r = Inr h \<longrightarrow> length xs \<le> unat h \<and> unat h \<le> n" "\<forall>e. r = Inl e \<longrightarrow> store_err e"
    unfolding jump_post_def by auto
  with assms(3) show ?thesis
    by (intro exI [of _ r] exI [of _ s'] exI [of _ n]) (simp add: Tail_def)
qed

lemma Append_spec:
  assumes "inv s" and "log_is pfx xs (view s)" and "handle_ok pfx l (view s)"
    and "records \<noteq> []" and "Append S c l records s = Some (r, l', s')"
  shows "inv s' \<and> evolves s s' \<and> handle_ok pfx l' (view s') \<and>
    (case r of
       Inr q \<Rightarrow> log_appended rely pfx (view s) xs (frames records) q (view s') \<and> lastKnown l' = q
     | Inl e \<Rightarrow> store_err e \<and> (log_grown rely pfx (view s) xs (view s')
         \<or> (\<exists>q. log_appended rely pfx (view s) xs (frames records) q (view s'))))"
proof (cases "lastKnown l = 0")
  case False
  have "log_at s xs (length xs) s" using assms(1,2) by (auto simp: log_at_def evolves_refl)
  moreover have "l_prefix l = pfx" "unat (lastKnown l) \<le> length xs"
    using assms(2,3) by (auto simp: handle_ok_def)
  moreover have "append_loop S c l (frames records) (lastKnown l + 1) s = Some (r, l', s')"
    using assms(4,5) False by (simp add: Append_def encode_batch_frames)
  ultimately show ?thesis by (intro append_loop_from)
next
  case True
  have lp: "l_prefix l = pfx" using assms(3) by (simp add: handle_ok_def)
  from Tail_post [OF assms(1,2) lp, of c] obtain rt s1 n
    where tail: "Tail S c l s = Some (rt, s1)" "log_at s xs n s1"
      "\<forall>t. rt = Inr t \<longrightarrow> length xs \<le> unat t \<and> unat t \<le> n" "\<forall>e. rt = Inl e \<longrightarrow> store_err e" by blast
  show ?thesis
  proof (cases rt)
    case (Inl e)
    with tail(1) True assms(4,5) have "r = Inl e" "l' = l" "s' = s1"
      by (simp_all add: Append_def encode_batch_frames)
    moreover have g: "log_grown rely pfx (view s) xs (view s1)" by (rule log_at_grown [OF tail(2)])
    moreover have "handle_ok pfx l (view s1)" by (rule log_grown_handle [OF g]) (simp_all add: True lp)
    ultimately show ?thesis using tail(2,4) Inl by (simp add: log_at_def)
  next
    case (Inr t)
    define k where "k = raise_known t l"
    have "l_prefix k = pfx" "unat (lastKnown k) \<le> n"
      using tail(3) Inr True lp by (auto simp: k_def raise_known_def)
    moreover have "append_loop S c k (frames records) (lastKnown k + 1) s1 = Some (r, l', s')"
      using tail(1) Inr True assms(4,5) by (simp add: Append_def encode_batch_frames k_def Let_def)
    ultimately show ?thesis by (intro append_loop_from [OF _ tail(2)])
  qed
qed

text \<open>Reading. A batch that \<open>Append\<close> wrote comes back as its records; a number behind the end is the end of the
  stream; and a reader cut short by the network is an error, never a shorter batch.\<close>

lemma Log_Read_spec:
  assumes "inv s" and "log_is pfx xs (view s)" and "l_prefix l = pfx"
    and "Log_Read S c l seq s = (r, s')"
  shows "inv s' \<and> evolves s s' \<and> rely (view s) (view s') \<and>
    (\<exists>ys. prefix xs ys \<and> log_is pfx ys (view s') \<and>
      (\<forall>e. r = Inl e \<longrightarrow> errors_is e ErrEndOfStream \<longrightarrow> length ys < unat seq) \<and>
      (\<forall>records. r = Inr records \<longrightarrow>
         1 \<le> unat seq \<and> unat seq \<le> length ys \<and> ys ! (unat seq - 1) = frames records \<and>
         (\<forall>d \<in> set records. int (length d) \<le> DefaultMaxRecordSize)))"
proof (cases "seq = 0")
  case True
  with assms show ?thesis by (auto simp: Log_Read_def evolves_refl rely_refl)
next
  case False
  obtain rg s1 where get: "Store_Get S c (segmentKey pfx seq) s = (rg, s1)" by fastforce
  note law = get_law [OF assms(1) get]
  have s1: "s' = s1" using assms(3,4) False get by (auto simp: Log_Read_def split: sum.splits prod.splits)
  from law rely_log assms(2) obtain ys where ys: "prefix xs ys" "log_is pfx ys (view s')"
    unfolding log_rely_def s1 by blast
  have err: "length ys < unat seq" if "r = Inl e" "errors_is e ErrEndOfStream" for e
  proof (cases rg)
    case (Inl err)
    with law that assms(3,4) False get have "errors_is err ErrNotFound"
      by (auto simp: Log_Read_def store_err_def split: if_splits)
    with law Inl have "view s' (segmentKey pfx seq) = None" by (simp add: s1)
    with log_is_exists [OF ys(2), of seq] False show ?thesis by (auto simp: unat_gt_0 Suc_le_eq)
  next
    case (Inr p)
    then obtain rc obj where p: "rg = Inr (rc, obj)" by (cases p) auto
    obtain rs sc where scan: "scan_all (NewScanner rc []) = (rs, sc)" by fastforce
    with p assms(3,4) False get that have "s_err sc = Some e"
      by (auto simp: Log_Read_def Scanner_Err_def split: option.splits)
    from scan_all_error_kind [OF NewScanner_default(1) scan this] law p that(2) show ?thesis
      by (auto simp: reads_as_def read_err_def store_err_def NewScanner_default is_eof_def)
  qed
  have "1 \<le> unat seq \<and> unat seq \<le> length ys \<and> ys ! (unat seq - 1) = frames records \<and>
      (\<forall>d \<in> set records. int (length d) \<le> DefaultMaxRecordSize)"
    if "r = Inr records" for records
  proof -
    from that assms(3,4) False get obtain rc obj sc where p: "rg = Inr (rc, obj)"
      and scan: "scan_all (NewScanner rc []) = (records, sc)" "Scanner_Err sc = None"
      by (auto simp: Log_Read_def split: sum.splits prod.splits option.splits if_splits)
    from law p obtain d where d: "view s' (segmentKey pfx seq) = Some (d, Generation obj)" "reads_as rc d"
      by (auto simp: s1)
    from scan_all_accepts [OF NewScanner_default(1) scan(1)] scan(2) d(2) have "d = frames records"
      by (auto simp: NewScanner_default reads_as_def read_err_def)
    with log_is_nth [OF ys(2) d(1)] scan_all_bounded [OF NewScanner_default(1) _ scan(1)] show ?thesis
      by (simp add: NewScanner_default)
  qed
  with law ys err show ?thesis unfolding s1 by blast
qed

end

end
