(* ===== verification/Log_Properties.thy ===== *)
theory Log_Properties
  imports Log_Contract
begin

text \<open>
  The log on the world of \<open>World\<close>: the contract of \<open>Log_Contract\<close> is interpreted on the in-memory store with
  other writers, faults and ended contexts, and the properties of \<open>src/logstream/log.go\<close> are stated over it.
\<close>

interpretation wl: log_store world_Store world_view "world_inv_upto (log_rely p) k" world_issued
    "(log_rely p)\<^sup>=\<^sup>=" world_evolves p
  for p k
  by unfold_locales auto

interpretation wq: log_store world_Store world_view "world_inv_upto no_rely 0" world_issued
    "no_rely\<^sup>=\<^sup>=" world_evolves p
  for p
  by unfold_locales (auto simp: no_rely_def)

subsection \<open>The retry loop ends\<close>

lemma append_loop_last:
  assumes "world_inv_upto R 0 w" and "log_is (l_prefix l) xs (world_view w)" and "unat seq = length xs + 1"
  shows "\<exists>res. append_loop world_Store c l payload seq w = Some res"
proof -
  obtain r w' where put: "Store_Put world_Store c (segmentKey (l_prefix l) seq) (bytes_Reader payload) cond_absent w
    = (r, w')" by fastforce
  from assms(1) world_inv_no_rely have inv: "world_inv_upto no_rely 0 w" by blast
  from log_is_exists [OF assms(2), of seq] assms(3) have "world_view w (segmentKey (l_prefix l) seq) = None"
    by (cases "world_view w (segmentKey (l_prefix l) seq)") auto
  with wk.put_law [OF inv put] have "\<not> errors_is e ErrPreconditionFailed" if "r = Inl e" for e
    using that by (auto simp: no_rely_def holds_cond_def)
  with put show ?thesis
    by (subst append_loop.simps) (cases r, auto)
qed

lemma append_loop_returns_quiet:
  assumes "world_inv_upto R 0 w" and "log_is (l_prefix l) xs (world_view w)"
    and "1 \<le> unat seq" and "unat seq \<le> length xs + 1"
  shows "\<exists>res. append_loop world_Store c l payload seq w = Some res"
proof (cases "unat seq = length xs + 1")
  case True
  with append_loop_last [OF assms(1,2)] show ?thesis by blast
next
  case False
  with assms(4) have le: "unat seq \<le> length xs" by simp
  obtain r w' where put: "Store_Put world_Store c (segmentKey (l_prefix l) seq) (bytes_Reader payload) cond_absent w
    = (r, w')" by fastforce
  from assms(1) world_inv_no_rely have inv: "world_inv_upto no_rely 0 w" by blast
  note law = wk.put_law [OF inv put]
  show ?thesis
  proof (cases "\<exists>e. r = Inl e \<and> errors_is e ErrPreconditionFailed")
    case False
    with put show ?thesis by (subst append_loop.simps) (cases r, auto)
  next
    case True
    then obtain e where e: "r = Inl e" "errors_is e ErrPreconditionFailed" by blast
    with law have w': "world_inv_upto no_rely 0 w'" "world_view w' = world_view w" by (auto simp: no_rely_def)
    then have "wq.log_at (l_prefix l) w' xs (length xs) w'"
      using assms(2) by (auto simp: wq.log_at_def wk.evolves_refl)
    from wq.Log_head_post [OF this le, of c] obtain rh pr w'' n where
      head: "Log_head world_Store c (l_prefix l) seq w' = Some ((rh, pr), w'')"
      and at: "wq.log_at (l_prefix l) w' xs n w''"
      and h: "\<forall>h. rh = Inr h \<longrightarrow> length xs \<le> unat h \<and> unat h \<le> n" unfolding jump_post_def by blast
    from at w'(2) have w'': "world_inv_upto no_rely 0 w''" "world_view w'' = world_view w"
      and n: "\<exists>ys. length ys = n \<and> log_is (l_prefix l) ys (world_view w'')" by (auto simp: wq.log_at_def)
    from n w''(2) assms(2) log_is_unique have n: "n = length xs" by metis
    have "\<exists>res. append_loop world_Store c l payload (hd + 1) w'' = Some res" if "rh = Inr hd" for hd
    proof -
      have "unat hd = length xs" using h n that by auto
      then have "unat (hd + 1) = length xs + 1"
        using log_is_length [OF assms(2)] by (simp add: unat_plus_if')
      then show ?thesis
        using append_loop_last [of no_rely w'' l xs] w'' assms(2) by simp
    qed
    with put e head show ?thesis
      by (subst append_loop.simps) (cases rh, auto)
  qed
qed

lemma append_loop_returns:
  assumes "world_inv_upto (log_rely p) k w" and "l_prefix l = p" and "log_is p xs (world_view w)"
    and "1 \<le> unat seq" and "unat seq \<le> length xs + 1"
  shows "\<exists>res. append_loop world_Store c l payload seq w = Some res"
  using assms
proof (induction k arbitrary: w xs seq)
  case 0
  then show ?case using append_loop_returns_quiet by blast
next
  case (Suc k)
  obtain r w' where put: "Store_Put world_Store c (segmentKey p seq) (bytes_Reader payload) cond_absent w
    = (r, w')" by fastforce
  note law = wk.put_law [OF Suc.prems(1) put]
  show ?case
  proof (cases "\<exists>e. r = Inl e \<and> errors_is e ErrPreconditionFailed")
    case False
    with put Suc.prems(2) show ?thesis by (subst append_loop.simps) (cases r, auto)
  next
    case True
    then obtain e where e: "r = Inl e" "errors_is e ErrPreconditionFailed" by blast
    with law have w': "world_inv_upto (log_rely p) k w'" "(log_rely p)\<^sup>=\<^sup>= (world_view w) (world_view w')"
      "\<not> holds_cond (world_view w') (segmentKey p seq) cond_absent"
      using world_inv_upto_tl(1) [OF Suc.prems(1) _ world_Store_script(2) [OF put]]
      by (auto simp: world_inv_upto_def)
    from wl.rely_log [OF w'(2)] Suc.prems(3) obtain ys where ys: "log_is p ys (world_view w')"
      unfolding log_rely_def by blast
    from w'(3) log_is_exists [OF ys, of seq] have le: "unat seq \<le> length ys" by (auto simp: holds_cond_def)
    have "wl.log_at p k w' ys (length ys) w'"
      using ys w'(1) by (auto simp: wl.log_at_def wk.evolves_refl)
    from wl.Log_head_post [OF this le, of c] obtain rh pr w'' n where
      head: "Log_head world_Store c p seq w' = Some ((rh, pr), w'')"
      and at: "wl.log_at p k w' ys n w''"
      and h: "\<forall>h. rh = Inr h \<longrightarrow> length ys \<le> unat h \<and> unat h \<le> n" unfolding jump_post_def by blast
    from at obtain zs where zs: "length zs = n" "log_is p zs (world_view w'')" and w'': "world_inv_upto (log_rely p) k w''"
      by (auto simp: wl.log_at_def)
    have "\<exists>res. append_loop world_Store c l payload (hd + 1) w'' = Some res" if "rh = Inr hd" for hd
    proof (rule Suc.IH [OF w'' Suc.prems(2) zs(2)])
      have "unat hd \<le> length zs" using h that zs(1) by auto
      then have "unat (hd + 1) = unat hd + 1"
        using log_is_length [OF zs(2)] by (simp add: unat_plus_if')
      with \<open>unat hd \<le> length zs\<close> show "1 \<le> unat (hd + 1)" "unat (hd + 1) \<le> length zs + 1" by simp_all
    qed
    with put e head Suc.prems(2) show ?thesis
      by (subst append_loop.simps) (cases rh, auto)
  qed
qed

lemma Append_returns_lemma:
  assumes "world_inv (log_rely p) w" and "log_is p xs (world_view w)" and "handle_ok p l (world_view w)"
  shows "\<exists>res. Append world_Store c l records w = Some res"
proof -
  define k where "k = length (wd_script w)"
  have inv: "world_inv_upto (log_rely p) k w" using assms(1) by (simp add: world_inv_upto_def k_def)
  have lp: "l_prefix l = p" and known: "unat (lastKnown l) \<le> length xs"
    using assms(2,3) by (auto simp: handle_ok_def)
  have succ: "unat (q + 1) = unat q + 1" if "unat q \<le> length ys" "log_is p ys v" for q :: u64 and ys v
    using that(1) log_is_length [OF that(2)] by (simp add: unat_plus_if')
  show ?thesis
  proof (cases "records = [] \<or> lastKnown l \<noteq> 0")
    case True
    have "\<exists>res. append_loop world_Store c l (frames records) (lastKnown l + 1) w = Some res"
      by (rule append_loop_returns [OF inv lp assms(2)]) (use succ [OF known assms(2)] known in simp_all)
    with True show ?thesis by (auto simp: Append_def encode_batch_frames)
  next
    case False
    from wl.Tail_post [OF inv assms(2) lp, of c] obtain r w1 n where tail: "Tail world_Store c l w = Some (r, w1)"
      and at: "wl.log_at p k w xs n w1" and r: "\<forall>t. r = Inr t \<longrightarrow> length xs \<le> unat t \<and> unat t \<le> n" by blast
    from at obtain ys where ys: "length ys = n" "log_is p ys (world_view w1)"
      and w1: "world_inv_upto (log_rely p) k w1" unfolding wl.log_at_def by blast
    have "\<exists>res. append_loop world_Store c (raise_known t l) (frames records) (lastKnown (raise_known t l) + 1) w1 = Some res"
      if "r = Inr t" for t
    proof (rule append_loop_returns [OF w1 _ ys(2)])
      have "lastKnown (raise_known t l) = t" using False by (auto simp: raise_known_def)
      moreover have "unat t \<le> length ys" using r that ys(1) by blast
      ultimately show "1 \<le> unat (lastKnown (raise_known t l) + 1)"
        "unat (lastKnown (raise_known t l) + 1) \<le> length ys + 1" using succ [OF _ ys(2)] by simp_all
    qed (simp add: raise_known_def lp)
    with False tail show ?thesis by (cases r) (auto simp: Append_def encode_batch_frames Let_def)
  qed
qed

subsection \<open>Another writer\<close>

text \<open>A turn in which another process appends the batch \<open>d\<close> to the log, at number \<open>q\<close>, on the condition that
  \<open>q - 1\<close> batches are there, as \<open>Append\<close> does.\<close>

definition writer_turn :: "string \<Rightarrow> u64 \<Rightarrow> bytes \<Rightarrow> turn" where
  "writer_turn p q d = \<lparr>t_env = (\<lambda>m. if q = 1 \<or> mem_Exists None (segmentKey p (q - 1)) m = Inr True
       then snd (mem_Put None (segmentKey p q) (bytes_Reader d) cond_absent m) else m),
     t_cancel = None, t_fault = NoFault\<rparr>"

lemma writer_turn_ok:
  assumes "q \<noteq> 0" and "unat q < 2 ^ 64 - 1"
  shows "turn_ok (log_rely p) (writer_turn p q d)"
proof -
  have "log_rely p (mem_view m) (mem_view m')"
    if put: "mem_Put None (segmentKey p q) (bytes_Reader d) cond_absent m = (r, m')"
      and prev: "q = 1 \<or> mem_view m (segmentKey p (q - 1)) \<noteq> None" for m r m'
    unfolding log_rely_def
  proof (intro allI impI)
    fix xs assume xs: "log_is p xs (mem_view m)"
    from put show "\<exists>ys. prefix xs ys \<and> log_is p ys (mem_view m')"
    proof (cases rule: mem_Put_cases)
      case (stored g)
      have "\<not> (1 \<le> unat q \<and> unat q \<le> length xs)"
        using stored(3) log_is_exists [OF xs, of q] by (simp add: holds_cond_def)
      moreover have "unat (q - 1) = unat q - 1" using assms(1) by (simp add: unat_minus_one)
      with prev log_is_exists [OF xs, of "q - 1"] have "unat q = 1 \<or> unat q - 1 \<le> length xs" by auto
      ultimately have "unat q = length xs + 1" using assms(1) by (auto simp: unat_gt_0 Suc_le_eq)
      then have "log_is p (xs @ [d]) ((mem_view m)(segmentKey p q \<mapsto> (d, g)))"
        using assms(2) by (intro log_is_append [OF xs]) simp_all
      then show ?thesis unfolding stored(4) mem_view_Put by (intro exI [of _ "xs @ [d]"]) simp
    qed (use xs in auto)
  qed
  then have put: "mem_inv m' \<and> mem_evolves m m' \<and> log_rely p (mem_view m) (mem_view m')"
    if "mem_inv m" "m' = snd (mem_Put None (segmentKey p q) (bytes_Reader d) cond_absent m)"
      "q = 1 \<or> mem_view m (segmentKey p (q - 1)) \<noteq> None" for m m'
    using that mem_Put_inv by (metis prod.collapse)
  show ?thesis
    unfolding turn_ok_def writer_turn_def turn.select_convs
  proof (intro conjI allI impI, goal_cases)
    case (1 m)
    then show ?case using put [OF 1 refl] by (auto simp: mem_Exists_def store_simps)
  next
    case (2 m)
    then show ?case using put [OF 2 refl] by (auto simp: mem_Exists_def store_simps)
  next
    case (3 m)
    then show ?case using put [OF 3 refl] by (auto simp: mem_Exists_def store_simps)
  qed simp
qed

abbreviation fresh_log :: "string \<Rightarrow> Log" where "fresh_log p \<equiv> \<lparr>l_prefix = p, lastKnown = 0\<rparr>"

lemma log_is_new_world [simp]: "log_is p [] (world_view (new_world ts))"
  by (simp add: log_is_def new_world_def world_view_def mem_view_def newMemStore_def)

lemma handle_ok_fresh [simp]: "handle_ok p (fresh_log p) v"
  by (simp add: handle_ok_def)

lemma world_inv_new_world: "\<forall>t \<in> set ts. turn_ok R t \<Longrightarrow> world_inv R (new_world ts)"
  by (simp add: world_inv_def new_world_def)

text \<open>The first append to an empty store, computed.\<close>

definition first_append :: "string \<Rightarrow> bytes list \<Rightarrow> world" where
  "first_append p records = (new_world [])\<lparr>wd_mem := \<lparr>
     objects = [(segmentKey p 1, \<lparr>e_data = frames records,
                   e_generation = localGeneration 1 (int (length (frames records)))\<rparr>)],
     genSeq = 1\<rparr>\<rparr>"

lemma Append_new_world:
  assumes "records \<noteq> []"
  shows "Append world_Store c (fresh_log p) records (new_world [])
    = Some (Inr 1, \<lparr>l_prefix = p, lastKnown = 1\<rparr>, first_append p records)"
proof -
  let ?w = "new_world []"
  have "Store_List world_Store c (p @ ''/'') [] (int headListLimit) ?w = (Inr [], ?w)"
    by (simp add: world_store_simps quiet_call)
      (simp add: new_world_def newMemStore_def mem_List_def)
  then have tail: "Tail world_Store c (fresh_log p) ?w = Some (Inr 0, ?w)"
    by (simp add: Tail_def Log_head_def)
  have put: "Store_Put world_Store c (segmentKey p 1) (bytes_Reader (frames records)) cond_absent ?w
      = (Inr (localGeneration 1 (int (length (frames records)))), first_append p records)"
    by (simp add: world_store_simps quiet_call mem_Put_eq first_append_def)
      (simp add: new_world_def newMemStore_def holds_cond_def mem_view_def Let_def)
  show ?thesis
    using assms tail put
    by (simp add: Append_def encode_batch_frames raise_known_def append_loop.simps)
qed

lemma quiet_first_append: "quiet (first_append p records)"
  by (auto simp: quiet_def first_append_def new_world_def mem_inv_def mem_view_def intro!: exI [of _ "1 :: nat"]
      split: if_splits)

lemma Log_Read_first_append:
  assumes "\<forall>r \<in> set records. int (length r) \<le> DefaultMaxRecordSize"
  shows "Log_Read world_Store c \<lparr>l_prefix = p, lastKnown = q\<rparr> 1 (first_append p records)
    = (Inr records, first_append p records)"
proof -
  let ?s = "NewScanner (bytes_Reader (frames records)) []"
  obtain s' where "scan_all ?s = (records, s')" "s_err s' = None"
    using scan_all_whole [of ?s records] assms
    by (auto simp: NewScanner_default bytes_Reader_def is_eof_def)
  moreover have "mem_Get None (segmentKey p 1) (wd_mem (first_append p records))
      = Inr (bytes_Reader (frames records), \<lparr>Key = segmentKey p 1,
          Generation = localGeneration 1 (int (length (frames records))), Size = length (frames records)\<rparr>)"
    by (simp add: first_append_def mem_Get_def entry_object_def)
  ultimately show ?thesis
    by (simp add: Log_Read_def world_store_simps quiet_read [OF quiet_first_append] Scanner_Err_def)
qed

text \<open>A world in which another process appends a batch just before the third call, the first put after
  the two listings and the probe of ours.\<close>

definition race_world :: world where
  "race_world = new_world [writer_turn ''wal'' 1 [7], writer_turn ''wal'' 2 [8]]"

lemma race_world_inv: "world_inv (log_rely ''wal'') race_world"
  unfolding race_world_def by (rule world_inv_new_world) (simp add: writer_turn_ok)

subsection \<open>Properties\<close>

text \<open>
  C7. Append is atomic and loses nothing. With any number of other writers that append too, with lost requests and
  lost answers, a call that returns a sequence number has put its batch right behind a log that began with the
  old one, under that very number, and changed no other object. A call that returns an error has
  added nothing, or exactly its batch (when only the answer was lost). The handle's counter stays within the log.
\<close>

theorem Append_appends:
  assumes "world_inv (log_rely p) w" and "log_is p xs (world_view w)" and "handle_ok p l (world_view w)"
    and "records \<noteq> []" and "Append world_Store c l records w = Some (r, l', w')"
  shows "world_inv (log_rely p) w' \<and> handle_ok p l' (world_view w') \<and>
    (case r of
       Inr q \<Rightarrow> lastKnown l' = q \<and> (\<exists>ys v g. (log_rely p)\<^sup>*\<^sup>* (world_view w) v \<and> prefix xs ys \<and> log_is p ys v
         \<and> unat q = length ys + 1 \<and> world_view w' = v(segmentKey p q \<mapsto> (frames records, g)))
     | Inl e \<Rightarrow> (\<exists>ys v. (log_rely p)\<^sup>*\<^sup>* (world_view w) v \<and> prefix xs ys \<and> log_is p ys v \<and>
         (world_view w' = v \<or>
          (\<exists>q g. unat q = length ys + 1 \<and> world_view w' = v(segmentKey p q \<mapsto> (frames records, g))))))"
proof -
  have "world_inv_upto (log_rely p) (length (wd_script w)) w" using assms(1) by (simp add: world_inv_upto_def)
  note spec = wl.Append_spec [OF this assms(2-)]
  have ok: "world_inv (log_rely p) w' \<and> handle_ok p l' (world_view w')"
    using spec by (simp add: world_inv_upto_def)
  show ?thesis
  proof (cases r)
    case (Inr q)
    with ok spec show ?thesis unfolding log_appended_def rtranclp_reflclp by simp
  next
    case (Inl e)
    with spec have "log_grown (log_rely p)\<^sup>=\<^sup>= p (world_view w) xs (world_view w') \<or>
      (\<exists>q. log_appended (log_rely p)\<^sup>=\<^sup>= p (world_view w) xs (frames records) q (world_view w'))" by simp
    then have "\<exists>ys v. (log_rely p)\<^sup>*\<^sup>* (world_view w) v \<and> prefix xs ys \<and> log_is p ys v \<and>
       (world_view w' = v \<or>
        (\<exists>q g. unat q = length ys + 1 \<and> world_view w' = v(segmentKey p q \<mapsto> (frames records, g))))"
      unfolding log_appended_def log_grown_def rtranclp_reflclp by blast
    with ok Inl show ?thesis by simp
  qed
qed

text \<open>The call in a world where two batches of another writer arrive between its steps.\<close>

theorem Append_appends_witness:
  "\<exists>r l' w'. Append world_Store 0 (fresh_log ''wal'') [[1, 2]] race_world = Some (r, l', w')
     \<and> world_inv (log_rely ''wal'') w' \<and> handle_ok ''wal'' l' (world_view w')
     \<and> (\<forall>q. r = Inr q \<longrightarrow> lastKnown l' = q)"
proof -
  have log: "log_is ''wal'' [] (world_view race_world)" by (simp add: race_world_def)
  from Append_returns_lemma [OF race_world_inv log handle_ok_fresh] obtain r l' w'
    where run: "Append world_Store 0 (fresh_log ''wal'') [[1, 2]] race_world = Some (r, l', w')"
    by (metis prod_cases3)
  from Append_appends [OF race_world_inv log handle_ok_fresh _ run] run show ?thesis
    by (cases r) auto
qed

text \<open>
  C8. Append returns. Its retry loop, and the searches inside it, end in every world whose other processes take
  finitely many turns: once they are done, the next attempt succeeds or fails for another reason
  than a collision.
\<close>

theorem Append_returns:
  assumes "world_inv (log_rely p) w" and "log_is p xs (world_view w)" and "handle_ok p l (world_view w)"
  shows "\<exists>res. Append world_Store c l records w = Some res"
  by (rule Append_returns_lemma [OF assms])

theorem Append_returns_witness:
  "\<exists>res. Append world_Store 0 (fresh_log ''wal'') [[1, 2]] race_world = Some res"
  by (rule Append_returns [OF race_world_inv, where xs = "[]"]) (simp_all add: race_world_def)



text \<open>
  C10. Reading the log. A \<open>Read\<close> that returns records returns what the batch at that number consists of, and the
  number lies within the log as it is after the read; it reports the end of the stream only for a number behind the
  last batch. A reader that the network cuts short gives an error, never fewer records.
\<close>

theorem Log_Read_faithful:
  assumes "world_inv (log_rely p) w" and "log_is p xs (world_view w)" and "l_prefix l = p"
    and "Log_Read world_Store c l seq w = (r, w')"
  shows "world_inv (log_rely p) w' \<and> (\<exists>ys. prefix xs ys \<and> log_is p ys (world_view w') \<and>
    (\<forall>e. r = Inl e \<longrightarrow> errors_is e ErrEndOfStream \<longrightarrow> length ys < unat seq) \<and>
    (\<forall>records. r = Inr records \<longrightarrow>
       1 \<le> unat seq \<and> unat seq \<le> length ys \<and> ys ! (unat seq - 1) = frames records))"
proof -
  have "world_inv_upto (log_rely p) (length (wd_script w)) w" using assms(1) by (simp add: world_inv_upto_def)
  from wl.Log_Read_spec [OF this assms(2-)] show ?thesis unfolding world_inv_upto_def by blast
qed

text \<open>A read of a stored batch whose reader the network cuts after five bytes is an error.\<close>

theorem Log_Read_faithful_witness:
  "\<exists>r w'. Log_Read world_Store 0 (fresh_log ''wal'') 1
       ((first_append ''wal'' [[1]])\<lparr>wd_script := [idle_turn\<lparr>t_fault := ReadFail 5 ''reset''\<rparr>]\<rparr>) = (r, w')
     \<and> world_inv (log_rely ''wal'') w'"
proof -
  let ?w = "(first_append ''wal'' [[1]])\<lparr>wd_script := [idle_turn\<lparr>t_fault := ReadFail 5 ''reset''\<rparr>]\<rparr>"
  have "turn_ok (log_rely ''wal'') (idle_turn\<lparr>t_fault := ReadFail 5 ''reset''\<rparr>)"
    by (simp add: turn_ok_def idle_turn_def)
  with quiet_first_append [of "''wal''" "[[1]]"] have inv: "world_inv (log_rely ''wal'') ?w"
    by (simp add: world_inv_def quiet_def)
  have "log_is ''wal'' ([] @ [frames [[1]]]) ((world_view (new_world []))
      (segmentKey ''wal'' 1 \<mapsto> (frames [[1]], localGeneration 1 (int (length (frames [[1]]))))))"
    by (rule log_is_append [OF log_is_new_world]) simp_all
  moreover have "world_view ?w = (world_view (new_world []))
      (segmentKey ''wal'' 1 \<mapsto> (frames [[1]], localGeneration 1 (int (length (frames [[1]])))))"
    by (rule ext) (simp add: world_view_def first_append_def new_world_def newMemStore_def mem_view_def)
  ultimately have log: "log_is ''wal'' [frames [[1]]] (world_view ?w)" by simp
  obtain r w' where run: "Log_Read world_Store 0 (fresh_log ''wal'') 1 ?w = (r, w')" by fastforce
  from Log_Read_faithful [OF inv log _ run] run show ?thesis by auto
qed

text \<open>
  C11. The search for the end of the log. On a log of \<open>n\<close> batches, started at any existing number, \<open>jump\<close>
  returns exactly \<open>n\<close>, and it asks for at most \<open>2 * log2 (n - lo + 1) + 1\<close> objects.
\<close>

theorem jump_finds_end:
  assumes "unat lo \<le> n" and "n < 2 ^ 64 - 1"
    and "\<forall>seq. probe seq s = (Inr (1 \<le> unat seq \<and> unat seq \<le> n), s)"
  shows "\<exists>pr. jump lo probe s = Some ((Inr (of_nat n), pr), s) \<and> 2 ^ (pr div 2) \<le> n - unat lo + 1"
proof -
  let ?I = "\<lambda>m s'. m = n \<and> s' = s"
  have "probe_ok ?I (\<lambda>_. False) probe" unfolding probe_ok_def using assms(2,3) by auto
  from jump_post_jump [of ?I "\<lambda>_. False" probe n s lo, OF this _ assms(1,2)] obtain r pr s' n'
    where j: "jump lo probe s = Some ((r, pr), s')" "n' = n \<and> s' = s" "jump_cost (unat lo) n' pr"
      "\<forall>h. r = Inr h \<longrightarrow> n \<le> unat h \<and> unat h \<le> n'" "\<forall>e. r \<noteq> Inl e" unfolding jump_post_def by blast
  then obtain h where h: "r = Inr h" by (cases r) auto
  with j have "unat h = n" by auto
  then have "h = of_nat n" by (metis word_unat_eq_iff unat_of_nat_u64 unat_u64_less)
  with j h show ?thesis by (simp add: jump_cost_def)
qed

theorem jump_finds_end_witness:
  "\<exists>pr. jump 3 (\<lambda>seq s. (Inr (1 \<le> unat seq \<and> unat seq \<le> 1000000), s)) () = Some ((Inr (of_nat 1000000), pr), ())
     \<and> 2 ^ (pr div 2) \<le> (1000000 :: nat) - unat (3 :: u64) + 1"
  by (rule jump_finds_end) simp_all

text \<open>
  C12. Keys and sequence numbers. Every number but 0 is recovered from its key, different numbers have
  different keys, and keys sort as their numbers do, which is what makes a listing end with the newest batch.
\<close>

theorem segmentKey_parseSeq:
  "(seq \<noteq> 0 \<longrightarrow> parseSeq (segmentKey p seq) = Inr seq) \<and>
   (segmentKey p seq < segmentKey p seq' \<longleftrightarrow> seq < seq') \<and> (segmentKey p seq = segmentKey p seq' \<longleftrightarrow> seq = seq')"
  by (simp add: parseSeq_segmentKey segmentKey_less)

theorem segmentKey_parseSeq_witness:
  "parseSeq (segmentKey ''wal'' 42) = Inr 42 \<and> segmentKey ''wal'' 9 < segmentKey ''wal'' 10"
  using segmentKey_parseSeq [of 42 "''wal''" 0] segmentKey_parseSeq [of 9 "''wal''" 10] by simp

end
