(* ===== verification/Cas.thy ===== *)
theory Cas
  imports World
begin

text \<open>
  Read-modify-write on one object, the pattern shared by the tenant catalog, the branch list, the tenants
  file and the branch manifests: read and decode an object, change the value, write it back on the condition that the
  object is still the one that was read, and start over when it is not.

  The message codecs (\<open>protojson\<close>, \<open>proto\<close>) are not part of the repository. A \<open>codec\<close> stands for the pair of
  \<open>Marshal\<close> and \<open>Unmarshal\<close> at one message type; \<open>codec_ok\<close> is what the code relies on: what was marshalled
  unmarshals to the same message, and the errors of the codec are its own. A Go loop \<open>for { ... continue ... }\<close>
  is \<open>retry\<close> of its body, which returns a result or asks for another round.
\<close>

subsection \<open>Codecs\<close>

record 'a codec =
  marshal :: "'a \<Rightarrow> bytes result"
  unmarshal :: "bytes \<Rightarrow> 'a result"

definition own_err :: "gerr \<Rightarrow> bool" where
  "own_err e \<longleftrightarrow> (\<forall>n. \<not> errors_is e (Sentinel n))"

definition codec_ok :: "'a codec \<Rightarrow> bool" where
  "codec_ok cd \<longleftrightarrow> (\<forall>x d. marshal cd x = Inr d \<longrightarrow> unmarshal cd d = Inr x)
     \<and> (\<forall>x e. marshal cd x = Inl e \<longrightarrow> own_err e) \<and> (\<forall>d e. unmarshal cd d = Inl e \<longrightarrow> own_err e)"

text \<open>A codec that knows two messages, for concrete runs.\<close>

definition two_codec :: "'a \<Rightarrow> 'a \<Rightarrow> 'a codec" where
  "two_codec x y =
     \<lparr>marshal = (\<lambda>z. if z = x then Inr [1] else if z = y then Inr [2] else Inl (ErrMsg ''unknown message'')),
      unmarshal = (\<lambda>d. if d = [1] then Inr x else if d = [2] then Inr y else Inl (ErrMsg ''syntax error''))\<rparr>"

lemma codec_ok_two [simp]: "codec_ok (two_codec x y)"
  by (auto simp: codec_ok_def two_codec_def own_err_def split: if_splits)

text \<open>Reading an object as a message: \<open>store.Get\<close>, \<open>io.ReadAll\<close>, \<open>Unmarshal\<close>.\<close>

definition decode_object :: "'a codec \<Rightarrow> string \<Rightarrow> string \<Rightarrow> source \<times> Object \<Rightarrow> ('a \<times> string) result" where
  "decode_object cd rmsg umsg ro =
     (case ReadAll (fst ro) of
        Inl err \<Rightarrow> Inl (Wrap rmsg err)
      | Inr data \<Rightarrow>
          (case unmarshal cd data of
             Inl err \<Rightarrow> Inl (Wrap umsg err)
           | Inr x \<Rightarrow> Inr (x, Generation (snd ro))))"

definition get_decode ::
    "'s Store \<Rightarrow> 'a codec \<Rightarrow> string \<Rightarrow> string \<Rightarrow> ctx \<Rightarrow> string \<Rightarrow> 's \<Rightarrow> ('a \<times> string) result \<times> 's" where
  "get_decode S cd rmsg umsg c key s =
     (case Store_Get S c key s of
        (Inl err, s') \<Rightarrow> (Inl err, s')
      | (Inr ro, s') \<Rightarrow> (decode_object cd rmsg umsg ro, s'))"

text \<open>The condition of a write after a read: the object is absent if there was none to read, unchanged otherwise.\<close>

definition match_cond :: "string \<Rightarrow> Condition" where
  "match_cond gen = (if gen = [] then cond_absent else cond_generation gen)"

subsection \<open>Retry loops\<close>

partial_function (option) retry :: "('s \<Rightarrow> (('r + unit) \<times> 's) option) \<Rightarrow> 's \<Rightarrow> ('r \<times> 's) option" where
  "retry body s =
     (case body s of
        None \<Rightarrow> None
      | Some (Inl r, s') \<Rightarrow> Some (r, s')
      | Some (Inr _, s') \<Rightarrow> retry body s')"

lemma retry_induct:
  assumes "retry body s = Some (r, s')" and "I s"
    and again: "\<And>s s1. I s \<Longrightarrow> body s = Some (Inr (), s1) \<Longrightarrow> I s1"
    and return: "\<And>s s1 r. I s \<Longrightarrow> body s = Some (Inl r, s1) \<Longrightarrow> Q r s1"
  shows "Q r s'"
proof -
  define P where "P = (\<lambda>b s res. b = body \<longrightarrow> I s \<longrightarrow> Q (fst res) (snd res))"
  from assms(1) have "P body s (r, s')"
  proof (rule retry.raw_induct [rotated])
    fix loop b s res
    assume IH: "\<And>b s res. loop b s = Some res \<Longrightarrow> P b s res"
      and step: "(case b s of None \<Rightarrow> None | Some (Inl r, s') \<Rightarrow> Some (r, s') | Some (Inr x, s') \<Rightarrow> loop b s') = Some res"
    show "P b s res"
      unfolding P_def
    proof (intro impI)
      assume b: "b = body" "I s"
      from step obtain x s1 where bs: "b s = Some (x, s1)" by (auto split: option.splits)
      show "Q (fst res) (snd res)"
      proof (cases x)
        case (Inl r1)
        with step bs have "res = (r1, s1)" by simp
        with return b bs Inl show ?thesis by auto
      next
        case (Inr u)
        with step bs have "loop b s1 = Some res" by simp
        with IH [of b s1 res] again b bs Inr show ?thesis unfolding P_def by auto
      qed
    qed
  qed
  with assms(2) show ?thesis by (simp add: P_def)
qed

lemma retry_returns:
  fixes m :: "'s \<Rightarrow> nat"
  assumes "I s"
    and "\<And>s. I s \<Longrightarrow> \<exists>x s1. body s = Some (x, s1) \<and> (x = Inr () \<longrightarrow> I s1 \<and> m s1 < m s)"
  shows "\<exists>res. retry body s = Some res"
  using assms(1)
proof (induction "m s" arbitrary: s rule: less_induct)
  case less
  from assms(2) [OF less.prems] obtain x s1
    where x: "body s = Some (x, s1)" "x = Inr () \<longrightarrow> I s1 \<and> m s1 < m s" by blast
  show ?case
  proof (cases x)
    case (Inl r)
    with x(1) show ?thesis by (simp add: retry.simps)
  next
    case (Inr u)
    with x less.hyps [of s1] obtain res where "retry body s1 = Some res" by auto
    with x(1) Inr show ?thesis by (simp add: retry.simps)
  qed
qed

text \<open>
  The loop body the catalogs share. \<open>rd\<close> reads the value and its generation or ends the loop, \<open>decide\<close> computes the
  new value or ends the loop, \<open>write\<close> writes it on the condition that the object is the one that was read; a failed
  condition asks for another round, any other error ends the loop.
\<close>

definition cas_body ::
    "('s \<Rightarrow> ('r + 'a \<times> string) \<times> 's) \<Rightarrow> ('a \<Rightarrow> string \<Rightarrow> 'r + 'a) \<Rightarrow> ('a \<Rightarrow> string \<Rightarrow> 's \<Rightarrow> string result \<times> 's)
      \<Rightarrow> ('a \<Rightarrow> string \<Rightarrow> 'r) \<Rightarrow> (gerr \<Rightarrow> 'r) \<Rightarrow> 's \<Rightarrow> (('r + unit) \<times> 's) option" where
  "cas_body rd decide write ok perr s =
     (case rd s of
        (Inl r, s1) \<Rightarrow> Some (Inl r, s1)
      | (Inr (y, gen), s1) \<Rightarrow>
          (case decide y gen of
             Inl r \<Rightarrow> Some (Inl r, s1)
           | Inr x \<Rightarrow>
               (case write x gen s1 of
                  (Inr gen', s2) \<Rightarrow> Some (Inl (ok x gen'), s2)
                | (Inl e, s2) \<Rightarrow>
                    if errors_is e ErrPreconditionFailed then Some (Inr (), s2)
                    else Some (Inl (perr e), s2))))"

text \<open>Writing a message: \<open>Marshal\<close>, then \<open>store.Put\<close> on the condition of the read.\<close>

definition put_message ::
    "'s Store \<Rightarrow> 'a codec \<Rightarrow> string \<Rightarrow> ctx \<Rightarrow> string \<Rightarrow> 'a \<Rightarrow> string \<Rightarrow> 's \<Rightarrow> string result \<times> 's" where
  "put_message S cd mmsg c key x gen s =
     (case marshal cd x of
        Inl err \<Rightarrow> (Inl (Wrap mmsg err), s)
      | Inr data \<Rightarrow> Store_Put S c key (bytes_Reader data) (match_cond gen) s)"

definition rewrap :: "gerr \<Rightarrow> gerr \<Rightarrow> bool" where
  "rewrap e e' \<longleftrightarrow> e' = e \<or> (\<exists>m. e' = Wrap m e)"

definition writes_as ::
    "'s Store \<Rightarrow> ctx \<Rightarrow> string \<Rightarrow> 'a codec \<Rightarrow> ('a \<Rightarrow> string \<Rightarrow> 's \<Rightarrow> string result \<times> 's) \<Rightarrow> bool" where
  "writes_as S c key cd write \<longleftrightarrow>
     (\<forall>x gen s. case marshal cd x of
        Inl err \<Rightarrow> \<exists>m. write x gen s = (Inl (Wrap m err), s)
      | Inr d \<Rightarrow>
          (case Store_Put S c key (bytes_Reader d) (match_cond gen) s of
             (Inr g, s') \<Rightarrow> write x gen s = (Inr g, s')
           | (Inl e, s') \<Rightarrow> \<exists>e'. rewrap e e' \<and> write x gen s = (Inl e', s')))"

lemma writes_as_put_message: "writes_as S c key cd (put_message S cd mmsg c key)"
  by (auto simp: writes_as_def put_message_def rewrap_def split: sum.split prod.split)

lemma writes_as_marshal_error:
  assumes "writes_as S c key cd write" and "marshal cd x = Inl err"
  shows "\<exists>m. write x gen s = (Inl (Wrap m err), s)"
  using assms(1) [unfolded writes_as_def, THEN spec, of x, THEN spec, of gen, THEN spec, of s] assms(2) by simp

lemma writes_as_put:
  assumes "writes_as S c key cd write" and "marshal cd x = Inr d"
    and "Store_Put S c key (bytes_Reader d) (match_cond gen) s = (r, s')"
  shows "case r of Inr g \<Rightarrow> write x gen s = (Inr g, s') | Inl e \<Rightarrow> \<exists>e'. rewrap e e' \<and> write x gen s = (Inl e', s')"
  using assms(1) [unfolded writes_as_def, THEN spec, of x, THEN spec, of gen, THEN spec, of s] assms(2,3) by (cases r) auto

lemma rewrap_store_err: "rewrap e e' \<Longrightarrow> store_err e \<Longrightarrow> store_err e'"
  unfolding rewrap_def by (elim disjE exE) (simp_all add: store_err_def)

lemma rewrap_errors_is: "rewrap e e' \<Longrightarrow> errors_is e' (Sentinel n) \<longleftrightarrow> errors_is e (Sentinel n)"
  by (auto simp: rewrap_def)

text \<open>A read whose error ends the loop with the result \<open>k err\<close>.\<close>

definition on_error :: "(gerr \<Rightarrow> 'r) \<Rightarrow> ('s \<Rightarrow> ('a \<times> string) result \<times> 's) \<Rightarrow> 's \<Rightarrow> ('r + 'a \<times> string) \<times> 's" where
  "on_error k read s = (case read s of (Inl err, s') \<Rightarrow> (Inl (k err), s') | (Inr cg, s') \<Rightarrow> (Inr cg, s'))"

subsection \<open>The step of a compare-and-swap\<close>

text \<open>What an object means: the default when it is absent, the message it decodes to otherwise.\<close>

definition meaning :: "'a codec \<Rightarrow> 'a \<Rightarrow> view \<Rightarrow> string \<Rightarrow> 'a \<Rightarrow> bool" where
  "meaning cd dflt v key x \<longleftrightarrow>
     (case v key of None \<Rightarrow> x = dflt | Some (d, _) \<Rightarrow> unmarshal cd d = Inr x)"

text \<open>\<open>seen v key g\<close>: the object (or its absence) that a read with generation \<open>g\<close> saw.\<close>

definition seen :: "view \<Rightarrow> string \<Rightarrow> string \<Rightarrow> bool" where
  "seen v key g \<longleftrightarrow> (case v key of None \<Rightarrow> g = [] | Some (d, g') \<Rightarrow> g' = g \<and> g \<noteq> [])"

lemma meaning_unique: "meaning cd dflt v key x \<Longrightarrow> meaning cd dflt v key y \<Longrightarrow> x = y"
  by (auto simp: meaning_def split: option.splits)

lemma meaning_cong: "v key = v' key \<Longrightarrow> meaning cd dflt v key x = meaning cd dflt v' key x"
  by (simp add: meaning_def)

lemma meaning_upd [simp]: "codec_ok cd \<Longrightarrow> marshal cd x = Inr d \<Longrightarrow> meaning cd dflt (v(key \<mapsto> (d, g))) key x"
  by (auto simp: meaning_def codec_ok_def)

text \<open>A context in which this process writes \<open>x\<close> over the value \<open>y\<close> that others left at \<open>key\<close>.\<close>

definition swapped ::
    "(view \<Rightarrow> view \<Rightarrow> bool) \<Rightarrow> 'a codec \<Rightarrow> 'a \<Rightarrow> string \<Rightarrow> view \<Rightarrow> 'a \<Rightarrow> 'a \<Rightarrow> string \<Rightarrow> view \<Rightarrow> bool" where
  "swapped rely cd dflt key v0 y x g v' \<longleftrightarrow>
     (\<exists>v d. rely\<^sup>*\<^sup>* v0 v \<and> meaning cd dflt v key y \<and> marshal cd x = Inr d \<and> v' = v(key \<mapsto> (d, g)))"

context object_store
begin

lemma get_decode_law:
  assumes "codec_ok cd" and "inv s" and "get_decode S cd rmsg umsg c key s = (r, s')"
  shows "inv s' \<and> evolves s s' \<and> rely (view s) (view s') \<and>
    (case r of
       Inr (x, g) \<Rightarrow> seen (view s') key g \<and> g \<noteq> [] \<and> (\<forall>dflt. meaning cd dflt (view s') key x)
     | Inl e \<Rightarrow> store_err e \<and> (errors_is e ErrNotFound \<longrightarrow> view s' key = None))"
proof -
  obtain rg s1 where get: "Store_Get S c key s = (rg, s1)" by fastforce
  note law = get_law [OF assms(2) get]
  note defs = get_decode_def decode_object_def
  have s1: "s1 = s'" using assms(3) get by (auto simp: defs split: sum.splits)
  show ?thesis
  proof (cases rg)
    case (Inl e)
    with law assms(3) get s1 show ?thesis by (auto simp: defs)
  next
    case (Inr p)
    then obtain rc obj where p: "rg = Inr (rc, obj)" by (cases p) auto
    with law s1 obtain d where d: "view s' key = Some (d, Generation obj)" "reads_as rc d" by auto
    have g: "Generation obj \<noteq> []" using view_issued [of s' key d] law d(1) s1 by auto
    have inv': "inv s' \<and> evolves s s' \<and> rely (view s) (view s')" using law s1 by simp
    show ?thesis
    proof (cases "ReadAll rc")
      case (Inl e)
      with d(2) have "read_err e" by (auto simp: ReadAll_def reads_as_def split: if_splits)
      moreover have "r = Inl (Wrap rmsg e)" using assms(3) get p Inl by (simp add: defs)
      ultimately show ?thesis using inv' by (auto simp: read_err_def store_err_def)
    next
      case (Inr data)
      with d(2) have data: "data = d" by (auto simp: ReadAll_def reads_as_def read_err_def is_eof_def split: if_splits)
      show ?thesis
      proof (cases "unmarshal cd d")
        case (Inl e)
        with assms(1) have "own_err e" by (auto simp: codec_ok_def)
        moreover have "r = Inl (Wrap umsg e)" using assms(3) get p Inr Inl data by (simp add: defs)
        ultimately show ?thesis using inv' by (auto simp: own_err_def store_err_def)
      next
        case x: (Inr x)
        then have "r = Inr (x, Generation obj)" using assms(3) get p Inr data by (simp add: defs)
        with inv' d(1) g x show ?thesis by (auto simp: seen_def meaning_def)
      qed
    qed
  qed
qed

text \<open>The write succeeds only on the object that was read.\<close>

lemma seen_cond:
  assumes "inv s0" and "seen (view s0) key g" and "evolves s0 s"
    and "fresh_since (issued s) (view s) v" and "holds_cond v key (match_cond g)"
  shows "v key = view s0 key"
proof (cases "g = []")
  case True
  with assms(2,5) show ?thesis
    by (auto simp: seen_def match_cond_def holds_cond_def split: option.splits)
next
  case False
  with assms(2) obtain d where d: "view s0 key = Some (d, g)" by (auto simp: seen_def split: option.splits)
  from False assms(5) obtain d' where d': "v key = Some (d', g)"
    by (auto simp: match_cond_def holds_cond_def)
  have "g \<in> issued s0" using view_issued [OF assms(1) d] by simp
  with assms(3) have "g \<in> issued s" by (auto simp: evolves_def)
  with d' assms(4) have "view s key = Some (d', g)" by (auto simp: fresh_since_def)
  with \<open>g \<in> issued s0\<close> assms(3) have "view s0 key = Some (d', g)" by (auto simp: evolves_def fresh_since_def)
  with d' show ?thesis by simp
qed

lemma swap_put:
  assumes "inv s0" and "seen (view s0) key g" and "meaning cd dflt (view s0) key y"
    and "evolves s0 s" and "rely\<^sup>*\<^sup>* v0 (view s)" and "inv s" and "marshal cd x = Inr d"
    and "Store_Put S c key (bytes_Reader d) (match_cond g) s = (r, s')"
  shows "inv s' \<and> evolves s s' \<and>
    (case r of
       Inr g' \<Rightarrow> g' \<noteq> [] \<and> swapped rely cd dflt key v0 y x g' (view s')
     | Inl e \<Rightarrow> store_err e \<and>
         (rely\<^sup>*\<^sup>* v0 (view s') \<or> \<not> errors_is e ErrPreconditionFailed
           \<and> (\<exists>g'. swapped rely cd dflt key v0 y x g' (view s'))))"
proof -
  note law = put_law [OF assms(6,8)]
  have swap: "swapped rely cd dflt key v0 y x g' (view s')"
    if "rely (view s) v" "fresh_since (issued s) (view s) v" "holds_cond v key (match_cond g)"
      "view s' = v(key \<mapsto> (d, g'))" for v g'
  proof -
    have "v key = view s0 key" by (rule seen_cond [OF assms(1,2,4) that(2,3)])
    with assms(3) have "meaning cd dflt v key y" by (simp add: meaning_def)
    moreover have "rely\<^sup>*\<^sup>* v0 v" using assms(5) that(1) by simp
    ultimately show ?thesis using that(4) assms(7) unfolding swapped_def by blast
  qed
  have step: "rely\<^sup>*\<^sup>* v0 (view s')" if "rely (view s) (view s')"
    using assms(5) that by simp
  show ?thesis
  proof (cases r)
    case (Inr g')
    with law obtain v where "rely (view s) v" "fresh_since (issued s) (view s) v"
      "holds_cond v key (match_cond g)" "view s' = v(key \<mapsto> (d, g'))" by auto
    from swap [OF this] law Inr show ?thesis by simp
  next
    case (Inl e)
    show ?thesis
    proof (cases "errors_is e ErrPreconditionFailed \<or> rely (view s) (view s')")
      case True
      with law Inl step show ?thesis by (auto split: if_splits)
    next
      case False
      with law Inl obtain v g' where "rely (view s) v" "fresh_since (issued s) (view s) v"
        "holds_cond v key (match_cond g)" "view s' = v(key \<mapsto> (d, g'))" by auto
      from swap [OF this] law Inl False show ?thesis by auto
    qed
  qed
qed

text \<open>How a loop of \<open>cas_body\<close> ends: the read ended it (\<open>bad\<close> says how reads fail), the decision did, the swap was
  done, or the write failed, after or without having been done.\<close>

definition cas_post ::
    "'a codec \<Rightarrow> 'a \<Rightarrow> string \<Rightarrow> ('r \<Rightarrow> view \<Rightarrow> bool) \<Rightarrow> ('a \<Rightarrow> string \<Rightarrow> 'r + 'a)
      \<Rightarrow> ('a \<Rightarrow> string \<Rightarrow> 'r) \<Rightarrow> (gerr \<Rightarrow> 'r) \<Rightarrow> view \<Rightarrow> 'r \<Rightarrow> view \<Rightarrow> bool" where
  "cas_post cd dflt key bad decide ok perr v0 r v' \<longleftrightarrow>
     rely\<^sup>*\<^sup>* v0 v' \<and> bad r v'
     \<or> (\<exists>y gen. rely\<^sup>*\<^sup>* v0 v' \<and> seen v' key gen \<and> meaning cd dflt v' key y \<and> decide y gen = Inl r)
     \<or> (\<exists>y gen x gen'. decide y gen = Inr x \<and> swapped rely cd dflt key v0 y x gen' v' \<and> gen' \<noteq> [] \<and> r = ok x gen')
     \<or> (\<exists>y gen x e. decide y gen = Inr x \<and> r = perr e \<and> store_err e \<and> \<not> errors_is e ErrPreconditionFailed
          \<and> (rely\<^sup>*\<^sup>* v0 v' \<or> (\<exists>g. swapped rely cd dflt key v0 y x g v')))"

lemma cas_post_intros:
  "rely\<^sup>*\<^sup>* v0 v' \<Longrightarrow> bad r v' \<Longrightarrow> cas_post cd dflt key bad decide ok perr v0 r v'"
  "rely\<^sup>*\<^sup>* v0 v' \<Longrightarrow> seen v' key gen \<Longrightarrow> meaning cd dflt v' key y \<Longrightarrow> decide y gen = Inl r \<Longrightarrow>
     cas_post cd dflt key bad decide ok perr v0 r v'"
  "decide y gen = Inr x \<Longrightarrow> swapped rely cd dflt key v0 y x gen' v' \<Longrightarrow> gen' \<noteq> [] \<Longrightarrow>
     cas_post cd dflt key bad decide ok perr v0 (ok x gen') v'"
  "decide y gen = Inr x \<Longrightarrow> store_err e \<Longrightarrow> \<not> errors_is e ErrPreconditionFailed \<Longrightarrow>
     rely\<^sup>*\<^sup>* v0 v' \<or> (\<exists>g. swapped rely cd dflt key v0 y x g v') \<Longrightarrow>
     cas_post cd dflt key bad decide ok perr v0 (perr e) v'"
  unfolding cas_post_def by metis+

text \<open>The write of a round, from the state in which the value was read.\<close>

lemma swap_write:
  assumes cd: "codec_ok cd" and "writes_as S c key cd write"
    and "inv s" and "seen (view s) key g" and "meaning cd dflt (view s) key y" and "rely\<^sup>*\<^sup>* v0 (view s)"
    and "write x g s = (r, s')"
  shows "inv s' \<and> evolves s s' \<and>
    (case r of
       Inr g' \<Rightarrow> g' \<noteq> [] \<and> swapped rely cd dflt key v0 y x g' (view s')
     | Inl e \<Rightarrow> store_err e \<and>
         (rely\<^sup>*\<^sup>* v0 (view s') \<or> \<not> errors_is e ErrPreconditionFailed
           \<and> (\<exists>g'. swapped rely cd dflt key v0 y x g' (view s'))))"
proof (cases "marshal cd x")
  case (Inl err)
  with cd have "own_err err" by (auto simp: codec_ok_def)
  moreover from writes_as_marshal_error [OF assms(2) Inl, of g s] assms(7) obtain m where "r = Inl (Wrap m err)" "s' = s"
    by fastforce
  ultimately show ?thesis using assms(3,6) by (auto simp: evolves_refl store_err_def own_err_def)
next
  case (Inr d)
  obtain rp s2 where put: "Store_Put S c key (bytes_Reader d) (match_cond g) s = (rp, s2)" by fastforce
  note swap = swap_put [OF assms(3-5) evolves_refl assms(6,3) Inr put]
  note w = writes_as_put [OF assms(2) Inr put]
  show ?thesis
  proof (cases rp)
    case (Inr g')
    with w assms(7) swap show ?thesis by simp
  next
    case (Inl e)
    with w assms(7) obtain e' where "r = Inl e'" "s' = s2" "rewrap e e'" by auto
    with Inl swap rewrap_store_err rewrap_errors_is [of e e'] show ?thesis by auto
  qed
qed

definition reader_ok :: "'a codec \<Rightarrow> 'a \<Rightarrow> string \<Rightarrow> ('r \<Rightarrow> view \<Rightarrow> bool) \<Rightarrow> ('s \<Rightarrow> ('r + 'a \<times> string) \<times> 's) \<Rightarrow> bool" where
  "reader_ok cd dflt key bad rd \<longleftrightarrow>
     (\<forall>s x s'. inv s \<longrightarrow> rd s = (x, s') \<longrightarrow> inv s' \<and> evolves s s' \<and> rely (view s) (view s') \<and>
        (case x of Inl r \<Rightarrow> bad r (view s') | Inr (y, gen) \<Rightarrow> seen (view s') key gen \<and> meaning cd dflt (view s') key y))"

lemma reader_ok_on_error:
  assumes "\<forall>s r s'. inv s \<longrightarrow> read s = (r, s') \<longrightarrow> inv s' \<and> evolves s s' \<and> rely (view s) (view s') \<and>
      (case r of Inl e \<Rightarrow> bad (k e) (view s') | Inr (y, gen) \<Rightarrow> seen (view s') key gen \<and> meaning cd dflt (view s') key y)"
  shows "reader_ok cd dflt key bad (on_error k read)"
  unfolding reader_ok_def
proof (intro allI impI)
  fix s x s' assume s: "inv s" "on_error k read s = (x, s')"
  then obtain r where "read s = (r, s')" "x = (case r of Inl e \<Rightarrow> Inl (k e) | Inr cg \<Rightarrow> Inr cg)"
    by (auto simp: on_error_def split: prod.splits sum.splits)
  with assms [rule_format, OF s(1), of r s'] show "inv s' \<and> evolves s s' \<and> rely (view s) (view s') \<and>
      (case x of Inl r \<Rightarrow> bad r (view s') | Inr (y, gen) \<Rightarrow> seen (view s') key gen \<and> meaning cd dflt (view s') key y)"
    by (cases r) auto
qed

lemma cas_body_post:
  assumes cd: "codec_ok cd" and wr: "writes_as S c key cd write" and rd: "reader_ok cd dflt key bad rd"
    and s: "inv s" "rely\<^sup>*\<^sup>* v0 (view s)"
    and body: "cas_body rd decide write ok perr s = Some (res, s')"
  shows "inv s' \<and> evolves s s' \<and>
    (case res of
       Inl r \<Rightarrow> cas_post cd dflt key bad decide ok perr v0 r (view s')
     | Inr _ \<Rightarrow> rely\<^sup>*\<^sup>* v0 (view s'))"
proof -
  obtain x s1 where r: "rd s = (x, s1)" by fastforce
  note law = rd [unfolded reader_ok_def, rule_format, OF s(1) r]
  with s(2) have s1: "inv s1" "evolves s s1" "rely\<^sup>*\<^sup>* v0 (view s1)" by auto
  show ?thesis
  proof (cases x)
    case (Inl r')
    with body r law s1 show ?thesis by (auto simp: cas_body_def intro: cas_post_intros(1))
  next
    case (Inr p)
    then obtain y gen where x: "x = Inr (y, gen)" by (cases p) auto
    with law have see: "seen (view s1) key gen" "meaning cd dflt (view s1) key y" by auto
    show ?thesis
    proof (cases "decide y gen")
      case (Inl r')
      with body r x s1 see show ?thesis by (auto simp: cas_body_def intro: cas_post_intros(2))
    next
      case dec: (Inr z)
      obtain rp s2 where w: "write z gen s1 = (rp, s2)" by fastforce
      note swap = swap_write [OF cd wr s1(1) see s1(3) w]
      have ev: "evolves s s2" using swap evolves_trans [OF s1(2)] by blast
      show ?thesis
      proof (cases rp)
        case (Inr gen')
        with body r x dec w have "res = Inl (ok z gen')" "s' = s2" by (auto simp: cas_body_def)
        with swap ev Inr dec show ?thesis by (auto intro: cas_post_intros(3))
      next
        case (Inl e)
        show ?thesis
        proof (cases "errors_is e ErrPreconditionFailed")
          case True
          with body r x dec w Inl swap ev show ?thesis by (auto simp: cas_body_def)
        next
          case False
          with body r x dec w Inl have "res = Inl (perr e)" "s' = s2" by (auto simp: cas_body_def)
          with swap ev Inl False dec show ?thesis by (auto intro: cas_post_intros(4))
        qed
      qed
    qed
  qed
qed

lemma cas_loop_post:
  assumes cd: "codec_ok cd" and wr: "writes_as S c key cd write" and rd: "reader_ok cd dflt key bad rd"
    and "inv s" and loop: "retry (cas_body rd decide write ok perr) s = Some (r, s')"
  shows "inv s' \<and> evolves s s' \<and> cas_post cd dflt key bad decide ok perr (view s) r (view s')"
proof (rule retry_induct [where I = "\<lambda>s1. inv s1 \<and> evolves s s1 \<and> rely\<^sup>*\<^sup>* (view s) (view s1)"
      and Q = "\<lambda>r s'. inv s' \<and> evolves s s' \<and> cas_post cd dflt key bad decide ok perr (view s) r (view s')", OF loop])
  show "inv s \<and> evolves s s \<and> rely\<^sup>*\<^sup>* (view s) (view s)" using assms(4) by (simp add: evolves_refl)
next
  fix a b assume a: "inv a \<and> evolves s a \<and> rely\<^sup>*\<^sup>* (view s) (view a)"
    and "cas_body rd decide write ok perr a = Some (Inr (), b)"
  from cas_body_post [OF cd wr rd conjunct1 [OF a] conjunct2 [OF conjunct2 [OF a]] this(2)] evolves_trans [of s a b] a
  show "inv b \<and> evolves s b \<and> rely\<^sup>*\<^sup>* (view s) (view b)" by simp
next
  fix a b r assume a: "inv a \<and> evolves s a \<and> rely\<^sup>*\<^sup>* (view s) (view a)"
    and "cas_body rd decide write ok perr a = Some (Inl r, b)"
  from cas_body_post [OF cd wr rd conjunct1 [OF a] conjunct2 [OF conjunct2 [OF a]] this(2)] evolves_trans [of s a b] a
  show "inv b \<and> evolves s b \<and> cas_post cd dflt key bad decide ok perr (view s) r (view b)" by simp
qed

end

subsection \<open>The loop ends\<close>

lemma seen_holds: "seen v key g \<Longrightarrow> holds_cond v key (match_cond g)"
  by (auto simp: seen_def match_cond_def holds_cond_def split: option.splits)

text \<open>A condition fails only because another process moved the object after the read.\<close>

lemma no_conflict_when_quiet:
  assumes "world_inv_upto R 0 w" and "seen (world_view w) key g"
    and "Store_Put world_Store c key (bytes_Reader d) (match_cond g) w = (Inl e, w')"
  shows "\<not> errors_is e ErrPreconditionFailed"
proof
  assume pf: "errors_is e ErrPreconditionFailed"
  have "world_inv_upto no_rely 0 w" using assms(1) world_inv_no_rely by blast
  from wk.put_law [OF this assms(3)] pf have "world_view w' = world_view w"
    "\<not> holds_cond (world_view w') key (match_cond g)" by (auto simp: no_rely_def)
  with seen_holds [OF assms(2)] show False by simp
qed

lemma write_conflict:
  assumes "codec_ok cd" and "writes_as world_Store c key cd write" and "world_inv R w"
    and "write x g w = (Inl e, w')" and "errors_is e ErrPreconditionFailed"
  shows "world_inv R w' \<and> wd_script w' = tl (wd_script w)
    \<and> (\<exists>d e0. Store_Put world_Store c key (bytes_Reader d) (match_cond g) w = (Inl e0, w') \<and> errors_is e0 ErrPreconditionFailed)"
proof (cases "marshal cd x")
  case (Inl err)
  with assms(1) have "own_err err" by (auto simp: codec_ok_def)
  with writes_as_marshal_error [OF assms(2) Inl, of g w] assms(4,5) show ?thesis by (auto simp: own_err_def)
next
  case (Inr d)
  obtain rp w2 where put: "Store_Put world_Store c key (bytes_Reader d) (match_cond g) w = (rp, w2)" by fastforce
  from writes_as_put [OF assms(2) Inr put] assms(4,5) obtain e0
    where "rp = Inl e0" "errors_is e0 ErrPreconditionFailed" "w2 = w'" by (cases rp) (auto simp: rewrap_errors_is)
  with put world_put_law [OF assms(3) put] world_Store_script(2) [OF put] show ?thesis by auto
qed

lemma cas_loop_returns:
  assumes "codec_ok cd" and "writes_as world_Store c key cd write" and "world_inv R w"
    and read: "\<And>w r w'. world_inv R w \<Longrightarrow> read w = (r, w') \<Longrightarrow>
      world_inv R w' \<and> wd_script w' = tl (wd_script w) \<and>
      (case r of Inl _ \<Rightarrow> True | Inr (y, gen) \<Rightarrow> seen (world_view w') key gen)"
    and rd_def: "rd = on_error k read"
  shows "\<exists>res. retry (cas_body rd decide write ok perr) w = Some res"
proof (rule retry_returns [where I = "world_inv R" and m = "\<lambda>w. length (wd_script w)", OF assms(3)])
  fix w assume inv: "world_inv R w"
  obtain r0 w1 where r0: "read w = (r0, w1)" by fastforce
  define x where "x = (case r0 of Inl e \<Rightarrow> Inl (k e) | Inr cg \<Rightarrow> Inr cg)"
  have r: "rd w = (x, w1)" using r0 by (simp add: rd_def x_def on_error_def split: sum.split)
  have law: "world_inv R w1 \<and> wd_script w1 = tl (wd_script w) \<and>
      (case x of Inl _ \<Rightarrow> True | Inr (y, gen) \<Rightarrow> seen (world_view w1) key gen)"
    using read [OF inv r0] by (cases r0) (auto simp: x_def)
  show "\<exists>x w2. cas_body rd decide write ok perr w = Some (x, w2) \<and>
      (x = Inr () \<longrightarrow> world_inv R w2 \<and> length (wd_script w2) < length (wd_script w))"
  proof (cases "\<exists>y gen z. x = Inr (y, gen) \<and> decide y gen = Inr z")
    case False
    with r show ?thesis by (auto simp: cas_body_def split: sum.splits prod.splits)
  next
    case True
    then obtain y gen z where x: "x = Inr (y, gen)" "decide y gen = Inr z" by blast
    obtain rp w2 where wr: "write z gen w1 = (rp, w2)" by fastforce
    have body: "cas_body rd decide write ok perr w =
        (case rp of Inr gen' \<Rightarrow> Some (Inl (ok z gen'), w2)
         | Inl e \<Rightarrow> if errors_is e ErrPreconditionFailed then Some (Inr (), w2) else Some (Inl (perr e), w2))"
      using r x wr by (simp add: cas_body_def split: sum.split)
    have "world_inv R w2 \<and> length (wd_script w2) < length (wd_script w)"
      if "rp = Inl e" "errors_is e ErrPreconditionFailed" for e
    proof -
      from law have w1: "world_inv R w1" by simp
      note c = write_conflict [OF assms(1,2) w1 wr [unfolded that(1)] that(2)]
      show ?thesis
      proof (cases "wd_script w")
        case Nil
        with law x have "world_inv_upto R 0 w1" "seen (world_view w1) key gen" by (auto simp: world_inv_upto_def)
        with no_conflict_when_quiet c show ?thesis by blast
      qed (use c law in auto)
    qed
    then show ?thesis unfolding body by (cases rp) auto
  qed
qed

subsection \<open>Without interference and faults\<close>

definition quiet_put :: "string \<Rightarrow> bytes \<Rightarrow> world \<Rightarrow> world" where
  "quiet_put k d w =
     (let m = wd_mem w; n = genSeq m + 1
      in w\<lparr>wd_mem := m\<lparr>genSeq := n,
             objects := AList.update k \<lparr>e_data = d, e_generation = localGeneration (int n) (int (length d))\<rparr> (objects m)\<rparr>\<rparr>)"

definition quiet_gen :: "bytes \<Rightarrow> world \<Rightarrow> string" where
  "quiet_gen d w = localGeneration (int (genSeq (wd_mem w) + 1)) (int (length d))"

lemma quiet_gen_nonempty [simp]: "quiet_gen d w \<noteq> []"
  by (simp add: quiet_gen_def)

lemma quiet_put_view [simp]: "world_view (quiet_put k d w) = (world_view w)(k \<mapsto> (d, quiet_gen d w))"
  by (simp add: quiet_put_def world_view_def Let_def mem_view_Put quiet_gen_def)

lemma quiet_Get:
  assumes "quiet w"
  shows "Store_Get world_Store c k w =
    (case world_view w k of
       None \<Rightarrow> Inl (Wrap ''key'' ErrNotFound)
     | Some (d, g) \<Rightarrow> Inr (bytes_Reader d, \<lparr>Key = k, Generation = g, Size = length d\<rparr>), w)"
  using assms
  by (auto simp: world_store_simps quiet_read mem_Get_def world_view_def mem_view_def entry_object_def split: option.split)

lemma ReadAll_bytes [simp]: "ReadAll (bytes_Reader d) = Inr d"
  by (simp add: ReadAll_def bytes_Reader_def)

lemma quiet_get_decode:
  assumes "quiet w"
  shows "world_view w key = None \<Longrightarrow> get_decode world_Store cd rmsg umsg c key w = (Inl (Wrap ''key'' ErrNotFound), w)"
    and "world_view w key = Some (d, g) \<Longrightarrow> unmarshal cd d = Inr x \<Longrightarrow>
      get_decode world_Store cd rmsg umsg c key w = (Inr (x, g), w)"
  using assms by (simp_all add: get_decode_def decode_object_def quiet_Get)

lemma quiet_Put:
  assumes "quiet w" and "seen (world_view w) k g" and "g = [] \<or> validLocalGeneration g"
  shows "Store_Put world_Store c k (bytes_Reader d) (match_cond g) w = (Inr (quiet_gen d w), quiet_put k d w)"
proof -
  have inv: "mem_inv (wd_mem w)" using assms(1) by (simp add: quiet_def)
  have "holds_cond (mem_view (wd_mem w)) k (match_cond g)"
    using seen_holds [OF assms(2)] by (simp add: world_view_def)
  moreover have "GenerationMatch (match_cond g) = [] \<or> validLocalGeneration (GenerationMatch (match_cond g))"
    using assms(3) by (auto simp: match_cond_def)
  ultimately show ?thesis
    using assms(1)
    by (auto simp: world_store_simps quiet_call mem_Put_eq Let_def quiet_gen_def quiet_put_def)
qed

lemma quiet_quiet_put:
  assumes "quiet w"
  shows "quiet (quiet_put k d w)"
proof -
  have "mem_Put None k (bytes_Reader d) \<lparr>Absent = False, GenerationMatch = []\<rparr> (wd_mem w)
      = (Inr (quiet_gen d w), wd_mem (quiet_put k d w))"
    by (simp add: mem_Put_eq holds_cond_def quiet_gen_def quiet_put_def Let_def)
  from mem_Put_inv [OF _ this] assms show ?thesis by (simp add: quiet_def quiet_put_def Let_def)
qed

lemma quiet_cas:
  assumes "quiet w" and "rd w = (Inr (y, gen), w)" and "seen (world_view w) key gen"
    and "decide y gen = Inr x" and "marshal cd x = Inr d" and "writes_as world_Store c key cd write"
    and "gen = [] \<or> validLocalGeneration gen"
  shows "retry (cas_body rd decide write ok perr) w = Some (ok x (quiet_gen d w), quiet_put key d w)"
  using assms writes_as_put [OF assms(6,5) quiet_Put [OF assms(1,3,7)]] by (simp add: retry.simps cas_body_def)

lemma quiet_cas_end:
  assumes "rd w = (Inl r, w) \<or> (\<exists>y gen. rd w = (Inr (y, gen), w) \<and> decide y gen = Inl r)"
  shows "retry (cas_body rd decide write ok perr) w = Some (r, w)"
  using assms by (auto simp: retry.simps cas_body_def)

end
