(* ===== verification/Paths.thy ===== *)
theory Paths
  imports Prelude
begin

text \<open>
  \<open>path.Clean\<close> and \<open>path.Join\<close> of the Go standard library, on which every object key is built, and the lemma
  the keys need: a list of ordinary components joins to the components with single slashes in between, and can be
  read back from the result.
\<close>

fun split_slash :: "string \<Rightarrow> string list" where
  "split_slash [] = [[]]"
| "split_slash (c # cs) =
     (if c = CHR ''/'' then [] # split_slash cs
      else (case split_slash cs of [] \<Rightarrow> [[c]] | w # ws \<Rightarrow> (c # w) # ws))"

fun join_slash :: "string list \<Rightarrow> string" where
  "join_slash [] = []"
| "join_slash [w] = w"
| "join_slash (w # ws) = w @ ''/'' @ join_slash ws"

text \<open>\<open>Clean\<close> works through the components with a stack of those kept so far, newest first: empty ones and \<open>"."\<close>
  are dropped, \<open>".."\<close> removes the one before it, and where there is none to remove it stays, unless the path
  is rooted.\<close>

definition clean_step :: "bool \<Rightarrow> string list \<Rightarrow> string \<Rightarrow> string list" where
  "clean_step rooted out w =
     (if w = [] \<or> w = ''.'' then out
      else if w = ''..''
      then (case out of
              [] \<Rightarrow> if rooted then [] else [''..'']
            | h # t \<Rightarrow> if h \<noteq> ''..'' then t else if rooted then out else ''..'' # out)
      else w # out)"

definition path_Clean :: "string \<Rightarrow> string" where
  "path_Clean p =
     (if p = [] then ''.''
      else
        (let rooted = (hd p = CHR ''/'');
             s = join_slash (rev (foldl (clean_step rooted) [] (split_slash p)))
         in if rooted then CHR ''/'' # s else if s = [] then ''.'' else s))"

definition join_step :: "string \<Rightarrow> string \<Rightarrow> string" where
  "join_step buf e = (if buf \<noteq> [] then buf @ ''/'' @ e else e)"

definition path_Join :: "string list \<Rightarrow> string" where
  "path_Join elem = (if concat elem = [] then [] else path_Clean (foldl join_step [] elem))"

subsection \<open>Ordinary components\<close>

definition plain :: "string \<Rightarrow> bool" where
  "plain w \<longleftrightarrow> w \<noteq> [] \<and> CHR ''/'' \<notin> set w \<and> w \<noteq> ''.'' \<and> w \<noteq> ''..''"

lemma split_slash_not_Nil [simp]: "split_slash s \<noteq> []"
  by (induction s) (auto split: list.split)

lemma split_slash_plain: "CHR ''/'' \<notin> set w \<Longrightarrow> split_slash w = [w]"
  by (induction w) auto

lemma split_slash_append:
  "CHR ''/'' \<notin> set w \<Longrightarrow> split_slash (w @ CHR ''/'' # s) = w # split_slash s"
  by (induction w) auto

lemma split_join:
  "ws \<noteq> [] \<Longrightarrow> \<forall>w \<in> set ws. CHR ''/'' \<notin> set w \<Longrightarrow> split_slash (join_slash ws) = ws"
  by (induction ws rule: join_slash.induct) (auto simp: split_slash_plain split_slash_append)

lemma plain_no_slash: "\<forall>w \<in> set ws. plain w \<Longrightarrow> \<forall>w \<in> set ws. CHR ''/'' \<notin> set w"
  by (auto simp: plain_def)

lemma join_slash_inject:
  assumes "\<forall>w \<in> set as. plain w" and "\<forall>w \<in> set bs. plain w" and "as \<noteq> []" and "bs \<noteq> []"
  shows "join_slash as = join_slash bs \<longleftrightarrow> as = bs"
  using split_join [OF assms(3) plain_no_slash [OF assms(1)]]
    split_join [OF assms(4) plain_no_slash [OF assms(2)]] by metis

lemma join_slash_append:
  "as \<noteq> [] \<Longrightarrow> bs \<noteq> [] \<Longrightarrow> join_slash (as @ bs) = join_slash as @ ''/'' @ join_slash bs"
proof (induction as rule: join_slash.induct)
  case (2 w)
  then show ?case by (cases bs) auto
qed auto

lemma foldl_clean_plain: "\<forall>w \<in> set ws. plain w \<Longrightarrow> foldl (clean_step r) out ws = rev ws @ out"
  by (induction ws arbitrary: out) (auto simp: clean_step_def plain_def)

lemma join_slash_Cons: "\<exists>t. join_slash (w # ws) = w @ t"
  by (cases ws) auto

lemma join_slash_Nil:
  assumes "ws \<noteq> []" and "\<forall>w \<in> set ws. plain w"
  shows "join_slash ws \<noteq> [] \<and> hd (join_slash ws) \<noteq> CHR ''/''"
proof -
  from assms(1) obtain w ws' where ws: "ws = w # ws'" by (cases ws) auto
  with assms(2) have "w \<noteq> []" "CHR ''/'' \<notin> set w" by (auto simp: plain_def)
  moreover from this have "hd w \<noteq> CHR ''/''" by (metis hd_in_set)
  moreover obtain t where "join_slash ws = w @ t" unfolding ws using join_slash_Cons by blast
  ultimately show ?thesis by simp
qed

lemma path_Clean_plain:
  assumes "ws \<noteq> []" and "\<forall>w \<in> set ws. plain w"
  shows "path_Clean (join_slash ws) = join_slash ws"
  using join_slash_Nil [OF assms] split_join [OF assms(1) plain_no_slash [OF assms(2)]]
  by (simp add: path_Clean_def Let_def foldl_clean_plain [OF assms(2)])

lemma path_Join_plain:
  assumes "as \<noteq> []" and "bs \<noteq> []" and "\<forall>w \<in> set as \<union> set bs. plain w"
  shows "path_Join [join_slash as, join_slash bs] = join_slash (as @ bs)"
proof -
  have "join_slash as \<noteq> []" using join_slash_Nil [OF assms(1)] assms(3) by simp
  then show ?thesis
    using path_Clean_plain [of "as @ bs"] assms
    by (simp add: path_Join_def join_step_def join_slash_append)
qed

lemma split_join_append:
  assumes "as \<noteq> []" and "\<forall>w \<in> set as. CHR ''/'' \<notin> set w"
  shows "split_slash (join_slash as @ CHR ''/'' # t) = as @ split_slash t"
  using assms by (induction as rule: join_slash.induct) (auto simp: split_slash_append)

lemma prefix_join:
  assumes "as \<noteq> []" and "\<forall>w \<in> set as. plain w" and "bs \<noteq> []" and "\<forall>w \<in> set bs. plain w"
    and "prefix (join_slash as @ ''/'') (join_slash bs)"
  shows "prefix as bs"
proof -
  from assms(5) obtain t where "join_slash bs = join_slash as @ CHR ''/'' # t" by (auto simp: prefix_def)
  then have "split_slash (join_slash bs) = as @ split_slash t"
    using split_join_append [OF assms(1) plain_no_slash [OF assms(2)]] by simp
  then have "bs = as @ split_slash t" using split_join [OF assms(3) plain_no_slash [OF assms(4)]] by simp
  then show ?thesis by (rule prefixI)
qed

lemma split_slash_double: "[] \<in> set (tl (split_slash (a @ CHR ''/'' # CHR ''/'' # b)))"
proof (induction a)
  case (Cons c a)
  then show ?case by (auto split: list.split dest: list.set_sel(2) [rotated])
qed simp

end
