(* ===== verification/Namespace.thy ===== *)
theory Namespace
  imports Paths Logkeys
begin

text \<open>
  \<open>src/namespace/namespace.go\<close>: names of tenants, namespaces and branches, and the layout of the object keys of a
  namespace. The lemmas give every key in plain form for valid names, and show that keys of different kinds,
  different namespaces or different branches never meet.
\<close>

definition DefaultTenant :: string where "DefaultTenant = ''cloudy''"
definition DefaultNamespace :: string where "DefaultNamespace = ''default''"
definition DefaultBranch :: string where "DefaultBranch = ''main''"
definition CatalogFile :: string where "CatalogFile = ''ns.json''"
definition namespaceDir :: string where "namespaceDir = ''ns''"
definition refHeads :: string where "refHeads = ''refs/heads''"

abbreviation ErrInvalidName :: gerr where "ErrInvalidName \<equiv> Sentinel ''namespace.ErrInvalidName''"

definition name_letter :: "char \<Rightarrow> bool" where
  "name_letter c \<longleftrightarrow> (CHR ''a'' \<le> c \<and> c \<le> CHR ''z'') \<or> (CHR ''A'' \<le> c \<and> c \<le> CHR ''Z'')"

definition name_char :: "char \<Rightarrow> bool" where
  "name_char c \<longleftrightarrow> name_letter c \<or> (CHR ''0'' \<le> c \<and> c \<le> CHR ''9'') \<or> c = CHR ''-'' \<or> c = CHR ''_''"

definition ValidateName :: "string \<Rightarrow> unit result" where
  "ValidateName name =
     (case name of
        [] \<Rightarrow> Inl (Wrap ''empty name'' ErrInvalidName)
      | first # rest \<Rightarrow>
          if \<not> name_letter first then Inl (Wrap ''must start with letter'' ErrInvalidName)
          else if \<not> list_all name_char rest then Inl (Wrap ''invalid character'' ErrInvalidName)
          else Inr ())"

record Scope =
  sc_Namespace :: string

definition Scope_Validate :: "Scope \<Rightarrow> unit result" where
  "Scope_Validate s = ValidateName (sc_Namespace s)"

definition Scope_Prefix :: "Scope \<Rightarrow> string" where
  "Scope_Prefix s = path_Join [namespaceDir, sc_Namespace s]"

definition Scope_Path :: "Scope \<Rightarrow> string \<Rightarrow> string" where
  "Scope_Path s subpath = path_Join [Scope_Prefix s, subpath]"

definition WALPrefix :: "Scope \<Rightarrow> string" where
  "WALPrefix s = Scope_Path s ''wal''"

definition ManifestKey :: "Scope \<Rightarrow> string \<Rightarrow> string" where
  "ManifestKey s branch = Scope_Path s (path_Join [refHeads, branch @ ''.json''])"

definition SegmentsPrefix :: "Scope \<Rightarrow> string" where
  "SegmentsPrefix s = Scope_Path s ''segments''"

definition SegmentKey :: "Scope \<Rightarrow> string \<Rightarrow> string" where
  "SegmentKey s segID = Scope_Path s (path_Join [''segments'', segID @ ''.recordio''])"

definition branchesKey :: "Scope \<Rightarrow> string" where
  "branchesKey s = Scope_Path s ''branches.json''"

subsection \<open>Valid names\<close>

abbreviation valid_name :: "string \<Rightarrow> bool" where
  "valid_name name \<equiv> ValidateName name = Inr ()"

abbreviation valid_scope :: "Scope \<Rightarrow> bool" where
  "valid_scope s \<equiv> Scope_Validate s = Inr ()"

lemma ValidateName_iff:
  "valid_name name \<longleftrightarrow> name \<noteq> [] \<and> name_letter (hd name) \<and> list_all name_char name"
  by (cases name) (auto simp: ValidateName_def name_char_def)

lemma ValidateName_error: "ValidateName name = Inl e \<Longrightarrow> errors_is e ErrInvalidName"
  by (auto simp: ValidateName_def split: list.splits if_splits)

lemma name_char_not [simp]: "\<not> name_char (CHR ''/'')" "\<not> name_char (CHR ''.'')"
  by (simp_all add: name_char_def name_letter_def less_eq_char_def)

lemma valid_name_chars:
  assumes "valid_name name"
  shows "name \<noteq> []" and "CHR ''/'' \<notin> set name" and "CHR ''.'' \<notin> set name"
proof -
  have "\<forall>c \<in> set name. name_char c" "name \<noteq> []" using assms by (auto simp: ValidateName_iff list_all_iff)
  then show "name \<noteq> []" "CHR ''/'' \<notin> set name" "CHR ''.'' \<notin> set name" using name_char_not by blast+
qed

lemma valid_name_plain: "valid_name name \<Longrightarrow> plain name"
  using valid_name_chars [of name] by (auto simp: plain_def)

lemma plain_suffix: "CHR ''/'' \<notin> set w \<Longrightarrow> CHR ''/'' \<notin> set e \<Longrightarrow> 2 < length e \<Longrightarrow> plain (w @ e)"
  by (auto simp: plain_def dest: arg_cong [of _ _ length])

subsection \<open>Keys in plain form\<close>

lemma valid_scope_plain: "valid_scope s \<Longrightarrow> plain (sc_Namespace s)"
  by (simp add: Scope_Validate_def valid_name_plain)

lemma plain_words [simp]:
  "plain ''ns''" "plain ''wal''" "plain ''segments''" "plain ''refs''" "plain ''heads''" "plain ''branches.json''"
  "plain ''ns.json''"
  by (simp_all add: plain_def)

lemma Scope_Prefix_eq:
  assumes "valid_scope s"
  shows "Scope_Prefix s = join_slash [''ns'', sc_Namespace s]"
  using path_Join_plain [of "[''ns'']" "[sc_Namespace s]"] valid_scope_plain [OF assms]
  by (simp add: Scope_Prefix_def namespaceDir_def)

lemma Scope_Path_eq:
  assumes "valid_scope s" and "ws \<noteq> []" and "\<forall>w \<in> set ws. plain w"
  shows "Scope_Path s (join_slash ws) = join_slash (''ns'' # sc_Namespace s # ws)"
  using path_Join_plain [of "[''ns'', sc_Namespace s]" ws] valid_scope_plain [OF assms(1)] assms(2,3)
  by (simp add: Scope_Path_def Scope_Prefix_eq [OF assms(1)])

lemma WALPrefix_eq:
  assumes "valid_scope s"
  shows "WALPrefix s = join_slash [''ns'', sc_Namespace s, ''wal'']"
  using Scope_Path_eq [OF assms, of "[''wal'']"] by (simp add: WALPrefix_def)

lemma branchesKey_eq:
  assumes "valid_scope s"
  shows "branchesKey s = join_slash [''ns'', sc_Namespace s, ''branches.json'']"
  using Scope_Path_eq [OF assms, of "[''branches.json'']"] by (simp add: branchesKey_def)

lemma SegmentsPrefix_eq:
  assumes "valid_scope s"
  shows "SegmentsPrefix s = join_slash [''ns'', sc_Namespace s, ''segments'']"
  using Scope_Path_eq [OF assms, of "[''segments'']"] by (simp add: SegmentsPrefix_def)

lemma ManifestKey_eq:
  assumes "valid_scope s" and "CHR ''/'' \<notin> set branch"
  shows "ManifestKey s branch = join_slash [''ns'', sc_Namespace s, ''refs'', ''heads'', branch @ ''.json'']"
proof -
  have p: "plain (branch @ ''.json'')" by (rule plain_suffix) (use assms(2) in auto)
  have "path_Join [refHeads, branch @ ''.json''] = join_slash [''refs'', ''heads'', branch @ ''.json'']"
    using path_Join_plain [of "[''refs'', ''heads'']" "[branch @ ''.json'']"] p by (simp add: refHeads_def)
  then show ?thesis
    using Scope_Path_eq [OF assms(1), of "[''refs'', ''heads'', branch @ ''.json'']"] p
    by (simp add: ManifestKey_def)
qed

lemma SegmentKey_eq:
  assumes "valid_scope s" and "CHR ''/'' \<notin> set segID"
  shows "SegmentKey s segID = join_slash [''ns'', sc_Namespace s, ''segments'', segID @ ''.recordio'']"
proof -
  have p: "plain (segID @ ''.recordio'')" by (rule plain_suffix) (use assms(2) in auto)
  have "path_Join [''segments'', segID @ ''.recordio''] = join_slash [''segments'', segID @ ''.recordio'']"
    using path_Join_plain [of "[''segments'']" "[segID @ ''.recordio'']"] p by simp
  then show ?thesis
    using Scope_Path_eq [OF assms(1), of "[''segments'', segID @ ''.recordio'']"] p
    by (simp add: SegmentKey_def)
qed

lemma segmentKey_WAL_eq:
  assumes "valid_scope s"
  shows "segmentKey (WALPrefix s) seq = join_slash [''ns'', sc_Namespace s, ''wal'', fmt_020d (unat seq) @ ''.recordio'']"
  by (simp add: segmentKey_def WALPrefix_eq [OF assms] recordio_suffix_def)

subsection \<open>Keys never meet\<close>

text \<open>The objects of a tenant: the catalog, and for each namespace its branch list, the manifest of each branch, its
  segments and the batches of its log.\<close>

datatype tenant_object =
    Catalog
  | Branches Scope
  | Manifest Scope string
  | Segment Scope string
  | Batch Scope u64

fun object_key :: "tenant_object \<Rightarrow> string" where
  "object_key Catalog = CatalogFile"
| "object_key (Branches s) = branchesKey s"
| "object_key (Manifest s branch) = ManifestKey s branch"
| "object_key (Segment s segID) = SegmentKey s segID"
| "object_key (Batch s seq) = segmentKey (WALPrefix s) seq"

fun object_ok :: "tenant_object \<Rightarrow> bool" where
  "object_ok Catalog = True"
| "object_ok (Branches s) = valid_scope s"
| "object_ok (Manifest s branch) = (valid_scope s \<and> CHR ''/'' \<notin> set branch)"
| "object_ok (Segment s segID) = (valid_scope s \<and> CHR ''/'' \<notin> set segID)"
| "object_ok (Batch s seq) = valid_scope s"

fun object_path :: "tenant_object \<Rightarrow> string list" where
  "object_path Catalog = [''ns.json'']"
| "object_path (Branches s) = [''ns'', sc_Namespace s, ''branches.json'']"
| "object_path (Manifest s branch) = [''ns'', sc_Namespace s, ''refs'', ''heads'', branch @ ''.json'']"
| "object_path (Segment s segID) = [''ns'', sc_Namespace s, ''segments'', segID @ ''.recordio'']"
| "object_path (Batch s seq) = [''ns'', sc_Namespace s, ''wal'', fmt_020d (unat seq) @ ''.recordio'']"

lemma object_key_path: "object_ok ob \<Longrightarrow> object_key ob = join_slash (object_path ob)"
  by (cases ob) (simp_all add: CatalogFile_def branchesKey_eq ManifestKey_eq SegmentKey_eq segmentKey_WAL_eq)

lemma object_path_plain: "object_ok ob \<Longrightarrow> \<forall>w \<in> set (object_path ob). plain w"
  by (cases ob) (auto simp: valid_scope_plain fmt_020d_no_slash intro!: plain_suffix)

lemma object_path_inject: "object_path a = object_path b \<Longrightarrow> a = b"
  by (cases a; cases b) (auto simp: word_unat_eq_iff)

lemma object_key_inject:
  assumes "object_ok a" and "object_ok b"
  shows "object_key a = object_key b \<longleftrightarrow> a = b"
proof -
  have ne: "object_path a \<noteq> []" "object_path b \<noteq> []" by (cases a; simp) (cases b; simp)
  show ?thesis
    using join_slash_inject [OF object_path_plain [OF assms(1)] object_path_plain [OF assms(2)] ne]
      object_key_path assms object_path_inject by metis
qed

lemma WAL_region:
  assumes "valid_scope s" and "object_ok ob" and "prefix (WALPrefix s @ ''/'') (object_key ob)"
  shows "\<exists>seq. ob = Batch s seq"
proof -
  have ne: "object_path ob \<noteq> []" by (cases ob) simp_all
  have "prefix [''ns'', sc_Namespace s, ''wal''] (object_path ob)"
    using assms(3) unfolding WALPrefix_eq [OF assms(1)] object_key_path [OF assms(2)]
    by (intro prefix_join ne object_path_plain assms(2)) (auto simp: valid_scope_plain [OF assms(1)])
  then show ?thesis by (cases ob) (auto simp: valid_scope_plain)
qed

lemma WALPrefix_valid:
  assumes "valid_scope s"
  shows "validPrefix (WALPrefix s)"
proof -
  have ns: "sc_Namespace s \<noteq> []" "\<forall>c \<in> set (sc_Namespace s). name_char c" "CHR ''/'' \<notin> set (sc_Namespace s)"
    using assms valid_name_chars(2) [of "sc_Namespace s"] by (auto simp: Scope_Validate_def ValidateName_iff list_all_iff)
  have "prefix_char c" if "name_char c" for c
    using that by (auto simp: prefix_char_def name_char_def name_letter_def)
  moreover have "prefix_char (CHR ''n'')" "prefix_char (CHR ''s'')" "prefix_char (CHR ''/'')" "prefix_char (CHR ''w'')"
    "prefix_char (CHR ''a'')" "prefix_char (CHR ''l'')"
    by (simp_all add: prefix_char_def less_eq_char_def)
  moreover have "\<not> sublist ''//'' (WALPrefix s)"
  proof
    assume "sublist ''//'' (WALPrefix s)"
    then obtain a b where "WALPrefix s = a @ CHR ''/'' # CHR ''/'' # b" by (auto simp: sublist_def)
    then have "[] \<in> set (tl (split_slash (WALPrefix s)))" by (simp add: split_slash_double)
    moreover have "split_slash (WALPrefix s) = [''ns'', sc_Namespace s, ''wal'']"
      unfolding WALPrefix_eq [OF assms] by (rule split_join) (use ns(3) in auto)
    ultimately show False using ns(1) by auto
  qed
  ultimately show ?thesis
    using ns by (auto simp: validPrefix_def WALPrefix_eq [OF assms])
qed

end
