(* ===== verification/Branches.thy ===== *)
theory Branches
  imports Cas Namespace "HOL-Library.Finite_Map"
begin

text \<open>
  \<open>src/namespace/branch.go\<close>: the list of branches of a namespace, one object that every process updates by
  compare-and-swap. The map of the message is a finite map; \<open>BranchMetadata\<close> has no fields. The closure that
  \<open>updateBranches\<close> takes returns whether it changed the map, here the changed map or \<open>None\<close>.
\<close>

type_synonym BranchMetadata = unit

record BranchCatalog =
  bc_Branches :: "(string, BranchMetadata) fmap"

definition empty_branches :: BranchCatalog where
  "empty_branches = \<lparr>bc_Branches = fmempty\<rparr>"

definition readBranchCatalog ::
    "'s Store \<Rightarrow> BranchCatalog codec \<Rightarrow> ctx \<Rightarrow> string \<Rightarrow> 's \<Rightarrow> (BranchCatalog \<times> string) result \<times> 's" where
  "readBranchCatalog S cd c key s =
     (case Store_Get S c key s of
        (Inl err, s') \<Rightarrow>
          (if errors_is err ErrNotFound then Inr (empty_branches, []) else Inl err, s')
      | (Inr ro, s') \<Rightarrow>
          (decode_object cd ''namespace: read branches'' ''namespace: unmarshal branches'' ro, s'))"

definition ListBranches :: "'s Store \<Rightarrow> BranchCatalog codec \<Rightarrow> ctx \<Rightarrow> Scope \<Rightarrow> 's \<Rightarrow> string list result \<times> 's" where
  "ListBranches S cd c sc s =
     (case readBranchCatalog S cd c (branchesKey sc) s of
        (Inl err, s') \<Rightarrow> (Inl (Wrap ''namespace: list branches'' err), s')
      | (Inr (catalog, _), s') \<Rightarrow>
          (Inr (if bc_Branches catalog = fmempty then [DefaultBranch]
                else sorted_list_of_fset (fmdom (bc_Branches catalog))), s'))"

definition writeBranches ::
    "'s Store \<Rightarrow> BranchCatalog codec \<Rightarrow> ctx \<Rightarrow> string \<Rightarrow> BranchCatalog \<Rightarrow> string \<Rightarrow> 's \<Rightarrow> string result \<times> 's" where
  "writeBranches S cd c key catalog gen s =
     (case marshal cd catalog of
        Inl err \<Rightarrow> (Inl (Wrap ''namespace: marshal branches'' err), s)
      | Inr data \<Rightarrow>
          (case Store_Put S c key (bytes_Reader data) (match_cond gen) s of
             (Inl err, s') \<Rightarrow> (Inl (Wrap ''namespace: write branches'' err), s')
           | (Inr g, s') \<Rightarrow> (Inr g, s')))"

definition updateBranches ::
    "'s Store \<Rightarrow> BranchCatalog codec \<Rightarrow> ctx \<Rightarrow> Scope \<Rightarrow> ((string, BranchMetadata) fmap \<Rightarrow> (string, BranchMetadata) fmap option)
      \<Rightarrow> 's \<Rightarrow> (unit result \<times> 's) option" where
  "updateBranches S cd c sc change =
     (let key = branchesKey sc
      in retry (cas_body
           (on_error (\<lambda>err. Inl err) (readBranchCatalog S cd c key))
           (\<lambda>catalog gen. case change (bc_Branches catalog) of
                            None \<Rightarrow> Inl (Inr ())
                          | Some branches \<Rightarrow> Inr (catalog\<lparr>bc_Branches := branches\<rparr>))
           (writeBranches S cd c key)
           (\<lambda>_ _. Inr ())
           (\<lambda>err. Inl err)))"

definition AddBranch :: "'s Store \<Rightarrow> BranchCatalog codec \<Rightarrow> ctx \<Rightarrow> Scope \<Rightarrow> string \<Rightarrow> 's \<Rightarrow> (unit result \<times> 's) option" where
  "AddBranch S cd c sc branch =
     updateBranches S cd c sc
       (\<lambda>branches. if fmlookup branches branch \<noteq> None then None else Some (fmupd branch () branches))"

definition RemoveBranch :: "'s Store \<Rightarrow> BranchCatalog codec \<Rightarrow> ctx \<Rightarrow> Scope \<Rightarrow> string \<Rightarrow> 's \<Rightarrow> (unit result \<times> 's) option" where
  "RemoveBranch S cd c sc branch =
     updateBranches S cd c sc
       (\<lambda>branches. if fmlookup branches branch = None then None else Some (fmdrop branch branches))"

subsection \<open>The list under concurrent updates\<close>

abbreviation branches_are :: "BranchCatalog codec \<Rightarrow> view \<Rightarrow> Scope \<Rightarrow> (string, BranchMetadata) fmap \<Rightarrow> bool" where
  "branches_are cd v sc m \<equiv> meaning cd empty_branches v (branchesKey sc) \<lparr>bc_Branches = m\<rparr>"

lemma writes_as_branches: "writes_as S c key cd (writeBranches S cd c key)"
  by (auto simp: writes_as_def writeBranches_def rewrap_def split: sum.split prod.split)

context object_store
begin

lemma readBranchCatalog_law:
  assumes "codec_ok cd" and "inv s" and "readBranchCatalog S cd c key s = (r, s')"
  shows "inv s' \<and> evolves s s' \<and> rely (view s) (view s') \<and>
    (case r of
       Inr (x, g) \<Rightarrow> seen (view s') key g \<and> meaning cd empty_branches (view s') key x
     | Inl e \<Rightarrow> store_err e)"
proof -
  obtain r0 s1 where get: "get_decode S cd ''namespace: read branches'' ''namespace: unmarshal branches'' c key s = (r0, s1)"
    by fastforce
  note law = get_decode_law [OF assms(1,2) get]
  obtain rg s2 where g: "Store_Get S c key s = (rg, s2)" by fastforce
  show ?thesis
  proof (cases rg)
    case (Inl e)
    with get g have "r0 = Inl e" "s1 = s2" by (auto simp: get_decode_def)
    with law assms(3) g Inl show ?thesis
      by (auto simp: readBranchCatalog_def seen_def meaning_def split: if_splits)
  next
    case (Inr ro)
    with get g assms(3) have "r = r0" "s' = s1" by (auto simp: get_decode_def readBranchCatalog_def)
    with law show ?thesis by (auto split: sum.splits)
  qed
qed

text \<open>An update that returns without an error was done in one step on the list as it was at that moment, or
  found nothing to do; one that returns an error may have been done.\<close>

lemma updateBranches_spec:
  assumes "codec_ok cd" and "inv s" and "updateBranches S cd c sc change s = Some (r, s')"
  shows "inv s' \<and> evolves s s' \<and>
    (rely\<^sup>*\<^sup>* (view s) (view s') \<and>
       (r = Inr () \<longrightarrow> (\<exists>m. branches_are cd (view s') sc m \<and> change m = None))
     \<or> (\<exists>m m' g. change m = Some m' \<and>
          swapped rely cd empty_branches (branchesKey sc) (view s) \<lparr>bc_Branches = m\<rparr> \<lparr>bc_Branches = m'\<rparr> g (view s')))"
proof -
  define read where "read = readBranchCatalog S cd c (branchesKey sc)"
  have "reader_ok cd empty_branches (branchesKey sc) (\<lambda>r v. \<exists>e. r = Inl e) (on_error (\<lambda>err. Inl err :: unit result) read)"
    by (rule reader_ok_on_error, unfold read_def, intro allI impI)
      (drule (1) readBranchCatalog_law [OF assms(1)], auto split: sum.splits)
  note post = cas_loop_post [OF assms(1) writes_as_branches this assms(2) assms(3) [unfolded updateBranches_def Let_def read_def [symmetric]]]
  have upd: "\<exists>m m' g. change m = Some m' \<and>
      swapped rely cd empty_branches (branchesKey sc) (view s) \<lparr>bc_Branches = m\<rparr> \<lparr>bc_Branches = m'\<rparr> g (view s')"
    if "(case change (bc_Branches y) of None \<Rightarrow> Inl (Inr ()) | Some branches \<Rightarrow> Inr (y\<lparr>bc_Branches := branches\<rparr>))
        = (Inr x :: unit result + BranchCatalog)" "swapped rely cd empty_branches (branchesKey sc) (view s) y x g (view s')"
    for y x g
    using that by (cases y) (auto split: option.splits; blast)
  from post show ?thesis
    unfolding cas_post_def
  proof (elim conjE disjE exE, goal_cases)
    case (2 y gen)
    then show ?case by (cases y) (auto split: option.splits)
  next
    case (3 y gen x gen')
    then show ?case using upd [of y x] by blast
  next
    case (5 y gen x e)
    then show ?case using upd [of y x] by blast
  qed auto
qed

end

text \<open>A read consumes one turn of the script, so the loops of the world end.\<close>

lemma readBranchCatalog_world:
  assumes "codec_ok cd" and "world_inv R w" and "readBranchCatalog world_Store cd c key w = (r, w')"
  shows "world_inv R w' \<and> wd_script w' = tl (wd_script w) \<and>
    (case r of Inl _ \<Rightarrow> True | Inr (y, gen) \<Rightarrow> seen (world_view w') key gen)"
proof -
  obtain r0 w0 where get: "Store_Get world_Store c key w = (r0, w0)" by fastforce
  with assms(3) have "w0 = w'" by (auto simp: readBranchCatalog_def split: sum.splits)
  with world_Store_script(1) [OF get] ws.readBranchCatalog_law [OF assms] show ?thesis
    by (auto split: sum.splits)
qed

lemma updateBranches_returns:
  assumes "codec_ok cd" and "world_inv R w"
  shows "\<exists>res. updateBranches world_Store cd c sc change w = Some res"
  unfolding updateBranches_def Let_def
  by (rule cas_loop_returns [OF assms(1) writes_as_branches assms(2) readBranchCatalog_world [OF assms(1)] refl])

end
