(* ===== verification/Catalog.thy ===== *)
theory Catalog
  imports Branches
begin

text \<open>
  \<open>src/namespace/catalog.go\<close>: the catalog of a tenant's namespaces, one object updated by compare-and-swap, and the
  cache a server keeps of it. A namespace is deleted by stamping it, never by removing it from the map.

  The functions check for a nil store, so the store is an option. They return a value, a generation and an
  error together. \<open>now\<close> is the clock reading in seconds. \<open>proto.Clone\<close> copies a message and is
  the identity on values. The mutex of the cache makes each of its accesses one step. \<open>Run\<close> is driven by
  the list of events its \<open>select\<close> receives.
\<close>

abbreviation ns_ErrNilStore :: gerr where "ns_ErrNilStore \<equiv> Sentinel ''namespace.ErrNilStore''"
abbreviation ErrNamespaceAlreadyExists :: gerr where
  "ErrNamespaceAlreadyExists \<equiv> Sentinel ''namespace.ErrNamespaceAlreadyExists''"
abbreviation ErrNamespaceNotFound :: gerr where "ErrNamespaceNotFound \<equiv> Sentinel ''namespace.ErrNamespaceNotFound''"
abbreviation ErrNamespaceDeleted :: gerr where "ErrNamespaceDeleted \<equiv> Sentinel ''namespace.ErrNamespaceDeleted''"
abbreviation ErrGenerationMismatch :: gerr where "ErrGenerationMismatch \<equiv> Sentinel ''namespace.ErrGenerationMismatch''"

record NamespaceMetadata =
  nm_Epoch :: u64
  nm_CreatedAt :: int
  nm_DeletedAt :: int

record TenantCatalog =
  tc_Tenant :: string
  tc_Namespaces :: "(string, NamespaceMetadata) fmap"

definition empty_catalog :: TenantCatalog where
  "empty_catalog = \<lparr>tc_Tenant = [], tc_Namespaces = fmempty\<rparr>"

subsection \<open>The catalog object\<close>

definition ReadTenantCatalog ::
    "'s Store option \<Rightarrow> TenantCatalog codec \<Rightarrow> ctx \<Rightarrow> 's \<Rightarrow> (TenantCatalog \<times> string) result \<times> 's" where
  "ReadTenantCatalog store cd c s =
     (case store of
        None \<Rightarrow> (Inl ns_ErrNilStore, s)
      | Some S \<Rightarrow> get_decode S cd ''namespace: read catalog'' ''namespace: unmarshal catalog'' c CatalogFile s)"

definition ReadTenantCatalogIfGeneration ::
    "'s Store option \<Rightarrow> TenantCatalog codec \<Rightarrow> ctx \<Rightarrow> string \<Rightarrow> 's \<Rightarrow> (TenantCatalog option \<times> string \<times> gerr option) \<times> 's" where
  "ReadTenantCatalogIfGeneration store cd c generation s =
     (case ReadTenantCatalog store cd c s of
        (Inl err, s') \<Rightarrow> ((None, [], Some err), s')
      | (Inr (catalog, got), s') \<Rightarrow>
          (if generation \<noteq> got then (None, got, Some ErrGenerationMismatch) else (Some catalog, got, None), s'))"

definition readCatalogOrEmpty ::
    "'s Store option \<Rightarrow> TenantCatalog codec \<Rightarrow> ctx \<Rightarrow> 's \<Rightarrow> (TenantCatalog \<times> string) result \<times> 's" where
  "readCatalogOrEmpty store cd c s =
     (case ReadTenantCatalog store cd c s of
        (Inr cg, s') \<Rightarrow> (Inr cg, s')
      | (Inl err, s') \<Rightarrow>
          (if \<not> errors_is err ErrNotFound then Inl err else Inr (empty_catalog, []), s'))"

type_synonym ns_result = "NamespaceMetadata option \<times> string \<times> gerr option"

definition putTenantCatalog ::
    "'s Store \<Rightarrow> TenantCatalog codec \<Rightarrow> ctx \<Rightarrow> TenantCatalog \<Rightarrow> string \<Rightarrow> 's \<Rightarrow> string result \<times> 's" where
  "putTenantCatalog S cd c catalog generation s =
     put_message S cd ''namespace: marshal catalog'' c CatalogFile catalog generation s"

definition CreateNamespace ::
    "'s Store option \<Rightarrow> TenantCatalog codec \<Rightarrow> ctx \<Rightarrow> string \<Rightarrow> int \<Rightarrow> 's \<Rightarrow> (ns_result \<times> 's) option" where
  "CreateNamespace store cd c name now s =
     (case store of
        None \<Rightarrow> Some ((None, [], Some ns_ErrNilStore), s)
      | Some S \<Rightarrow>
          (case ValidateName name of
             Inl err \<Rightarrow> Some ((None, [], Some err), s)
           | Inr _ \<Rightarrow>
               (let createdAt = max now 0; meta = \<lparr>nm_Epoch = 0, nm_CreatedAt = createdAt, nm_DeletedAt = 0\<rparr>
                in retry (cas_body
                     (on_error (\<lambda>err. (None, [], Some err)) (readCatalogOrEmpty store cd c))
                     (\<lambda>catalog generation.
                        if fmlookup (tc_Namespaces catalog) name \<noteq> None
                        then Inl (None, generation, Some ErrNamespaceAlreadyExists)
                        else Inr (catalog\<lparr>tc_Namespaces := fmupd name meta (tc_Namespaces catalog)\<rparr>))
                     (putTenantCatalog S cd c)
                     (\<lambda>_ newGen. (Some meta, newGen, None))
                     (\<lambda>err. (None, [], Some err))) s)))"

definition DeleteNamespace ::
    "'s Store option \<Rightarrow> TenantCatalog codec \<Rightarrow> ctx \<Rightarrow> string \<Rightarrow> int \<Rightarrow> 's \<Rightarrow> (ns_result \<times> 's) option" where
  "DeleteNamespace store cd c name now s =
     (case store of
        None \<Rightarrow> Some ((None, [], Some ns_ErrNilStore), s)
      | Some S \<Rightarrow>
          (case ValidateName name of
             Inl err \<Rightarrow> Some ((None, [], Some err), s)
           | Inr _ \<Rightarrow>
               (let deletedAt = max now 1
                in retry (cas_body
                     (on_error (\<lambda>err. (None, [], Some (if errors_is err ErrNotFound then ErrNamespaceNotFound else err)))
                        (ReadTenantCatalog store cd c))
                     (\<lambda>catalog generation.
                        case fmlookup (tc_Namespaces catalog) name of
                          None \<Rightarrow> Inl (None, generation, Some ErrNamespaceNotFound)
                        | Some meta \<Rightarrow>
                            if nm_DeletedAt meta \<noteq> 0 then Inl (Some meta, generation, None)
                            else Inr (catalog\<lparr>tc_Namespaces :=
                                   fmupd name (meta\<lparr>nm_DeletedAt := deletedAt\<rparr>) (tc_Namespaces catalog)\<rparr>))
                     (putTenantCatalog S cd c)
                     (\<lambda>catalog newGen. (fmlookup (tc_Namespaces catalog) name, newGen, None))
                     (\<lambda>err. (None, [], Some err))) s)))"

definition ActiveNamespaces :: "'s Store option \<Rightarrow> TenantCatalog codec \<Rightarrow> ctx \<Rightarrow> 's \<Rightarrow> string list result \<times> 's" where
  "ActiveNamespaces store cd c s =
     (case ReadTenantCatalog store cd c s of
        (Inl err, s') \<Rightarrow> (if errors_is err ErrNotFound then Inr [DefaultNamespace] else Inl err, s')
      | (Inr (cat, _), s') \<Rightarrow>
          (let names = sorted_list_of_fset (fmdom (fmfilter
                 (\<lambda>name. case fmlookup (tc_Namespaces cat) name of None \<Rightarrow> False | Some meta \<Rightarrow> nm_DeletedAt meta = 0)
                 (tc_Namespaces cat)))
           in (Inr (if names = [] then [DefaultNamespace] else names), s')))"

subsection \<open>The cache\<close>

record CatalogCache =
  cc_syncInterval :: int
  cc_catalog :: "TenantCatalog option"
  cc_generation :: string

definition defaultSyncInterval :: int where "defaultSyncInterval = 60 * 1000000000"

definition NewCatalogCache :: "'s Store option \<Rightarrow> int \<Rightarrow> CatalogCache result" where
  "NewCatalogCache store syncInterval =
     (if store = None then Inl ns_ErrNilStore
      else Inr \<lparr>cc_syncInterval = (if syncInterval \<le> 0 then defaultSyncInterval else syncInterval),
                cc_catalog = None, cc_generation = []\<rparr>)"

definition cache_refresh ::
    "'s Store \<Rightarrow> TenantCatalog codec \<Rightarrow> ctx \<Rightarrow> CatalogCache \<Rightarrow> 's \<Rightarrow> (TenantCatalog \<times> string) result \<times> CatalogCache \<times> 's" where
  "cache_refresh S cd c cache s =
     (case readCatalogOrEmpty (Some S) cd c s of
        (Inl err, s') \<Rightarrow> (Inl err, cache, s')
      | (Inr (catalog, generation), s') \<Rightarrow>
          (Inr (catalog, generation), cache\<lparr>cc_catalog := Some catalog, cc_generation := generation\<rparr>, s'))"

definition lookupCached :: "CatalogCache \<Rightarrow> string \<Rightarrow> NamespaceMetadata option" where
  "lookupCached cache name =
     (case cc_catalog cache of None \<Rightarrow> None | Some catalog \<Rightarrow> fmlookup (tc_Namespaces catalog) name)"

definition LookupNamespace ::
    "'s Store \<Rightarrow> TenantCatalog codec \<Rightarrow> ctx \<Rightarrow> string \<Rightarrow> CatalogCache \<Rightarrow> 's \<Rightarrow> NamespaceMetadata result \<times> CatalogCache \<times> 's" where
  "LookupNamespace S cd c name cache s =
     (case ValidateName name of
        Inl err \<Rightarrow> (Inl err, cache, s)
      | Inr _ \<Rightarrow>
          (case lookupCached cache name of
             Some meta \<Rightarrow> (if nm_DeletedAt meta \<noteq> 0 then Inl ErrNamespaceDeleted else Inr meta, cache, s)
           | None \<Rightarrow>
               (case cache_refresh S cd c cache s of
                  (Inl err, cache', s') \<Rightarrow> (Inl err, cache', s')
                | (Inr (cat, _), cache', s') \<Rightarrow>
                    (case fmlookup (tc_Namespaces cat) name of
                       None \<Rightarrow> Inl ErrNamespaceNotFound
                     | Some meta \<Rightarrow> if nm_DeletedAt meta \<noteq> 0 then Inl ErrNamespaceDeleted else Inr meta,
                     cache', s'))))"

definition cache_Refresh ::
    "'s Store \<Rightarrow> TenantCatalog codec \<Rightarrow> ctx \<Rightarrow> CatalogCache \<Rightarrow> 's \<Rightarrow> (TenantCatalog \<times> string) result \<times> CatalogCache \<times> 's" where
  "cache_Refresh S cd c cache s = cache_refresh S cd c cache s"

definition cache_Invalidate :: "CatalogCache \<Rightarrow> CatalogCache" where
  "cache_Invalidate cache = cache\<lparr>cc_catalog := None, cc_generation := []\<rparr>"

datatype cache_event = Tick | CtxDone gerr

text \<open>\<open>Run\<close> until it returns (\<open>Some\<close> its error) or the events are used up and it waits for the next one (\<open>None\<close>).\<close>

fun cache_Run ::
    "'s Store \<Rightarrow> TenantCatalog codec \<Rightarrow> ctx \<Rightarrow> cache_event list \<Rightarrow> CatalogCache \<Rightarrow> 's \<Rightarrow> gerr option \<times> CatalogCache \<times> 's" where
  "cache_Run S cd c [] cache s = (None, cache, s)"
| "cache_Run S cd c (CtxDone err # evs) cache s = (Some err, cache, s)"
| "cache_Run S cd c (Tick # evs) cache s =
     (case cache_refresh S cd c cache s of
        (Inr _, cache', s') \<Rightarrow> cache_Run S cd c evs cache' s'
      | (Inl err, cache', s') \<Rightarrow>
          if \<not> errors_is err ErrNotFound
             \<and> (errors_is err context_Canceled \<or> errors_is err context_DeadlineExceeded)
          then (Some err, cache', s')
          else cache_Run S cd c evs cache' s')"

subsection \<open>The catalog under concurrent updates\<close>

abbreviation catalog_is :: "TenantCatalog codec \<Rightarrow> view \<Rightarrow> TenantCatalog \<Rightarrow> bool" where
  "catalog_is cd v cat \<equiv> meaning cd empty_catalog v CatalogFile cat"

text \<open>The two changes to the catalog, each of them one compare-and-swap: a name is added, a name is stamped.\<close>

definition created ::
    "(view \<Rightarrow> view \<Rightarrow> bool) \<Rightarrow> TenantCatalog codec \<Rightarrow> string \<Rightarrow> NamespaceMetadata \<Rightarrow> view \<Rightarrow> string \<Rightarrow> view \<Rightarrow> bool" where
  "created rely cd name meta v0 g v' \<longleftrightarrow>
     (\<exists>cat. fmlookup (tc_Namespaces cat) name = None \<and>
        swapped rely cd empty_catalog CatalogFile v0 cat
          (cat\<lparr>tc_Namespaces := fmupd name meta (tc_Namespaces cat)\<rparr>) g v')"

definition stamped ::
    "(view \<Rightarrow> view \<Rightarrow> bool) \<Rightarrow> TenantCatalog codec \<Rightarrow> string \<Rightarrow> int \<Rightarrow> NamespaceMetadata \<Rightarrow> view \<Rightarrow> string \<Rightarrow> view \<Rightarrow> bool" where
  "stamped rely cd name t meta v0 g v' \<longleftrightarrow>
     (\<exists>cat. fmlookup (tc_Namespaces cat) name = Some meta \<and> nm_DeletedAt meta = 0 \<and>
        swapped rely cd empty_catalog CatalogFile v0 cat
          (cat\<lparr>tc_Namespaces := fmupd name (meta\<lparr>nm_DeletedAt := t\<rparr>) (tc_Namespaces cat)\<rparr>) g v')"

lemma writes_as_catalog: "writes_as S c CatalogFile cd (putTenantCatalog S cd c)"
  using writes_as_put_message unfolding putTenantCatalog_def [abs_def] .

context object_store
begin

lemma ReadTenantCatalog_law:
  assumes "codec_ok cd" and "inv s" and "ReadTenantCatalog (Some S) cd c s = (r, s')"
  shows "inv s' \<and> evolves s s' \<and> rely (view s) (view s') \<and>
    (case r of
       Inr (x, g) \<Rightarrow> seen (view s') CatalogFile g \<and> catalog_is cd (view s') x \<and> g \<noteq> []
     | Inl e \<Rightarrow> store_err e \<and> (errors_is e ErrNotFound \<longrightarrow> view s' CatalogFile = None))"
  using get_decode_law [OF assms(1,2) assms(3) [unfolded ReadTenantCatalog_def option.case]]
  by (cases r) auto

lemma readCatalogOrEmpty_law:
  assumes "codec_ok cd" and "inv s" and "readCatalogOrEmpty (Some S) cd c s = (r, s')"
  shows "inv s' \<and> evolves s s' \<and> rely (view s) (view s') \<and>
    (case r of
       Inr (x, g) \<Rightarrow> seen (view s') CatalogFile g \<and> catalog_is cd (view s') x
     | Inl e \<Rightarrow> store_err e \<and> \<not> errors_is e ErrNotFound)"
proof -
  obtain r0 s1 where rd: "ReadTenantCatalog (Some S) cd c s = (r0, s1)" by fastforce
  from ReadTenantCatalog_law [OF assms(1,2) rd] assms(3) rd show ?thesis
    by (cases r0) (auto simp: readCatalogOrEmpty_def seen_def meaning_def split: if_splits)
qed

lemma CreateNamespace_spec:
  assumes "codec_ok cd" and "inv s" and "CreateNamespace (Some S) cd c name now s = Some ((m, g, err), s')"
  shows "inv s' \<and> evolves s s' \<and>
    (case err of
       None \<Rightarrow> (\<exists>meta. m = Some meta \<and> meta = \<lparr>nm_Epoch = 0, nm_CreatedAt = max now 0, nm_DeletedAt = 0\<rparr> \<and>
         ValidateName name = Inr () \<and> created rely cd name meta (view s) g (view s'))
     | Some e \<Rightarrow> m = None \<and>
         (if e = ErrNamespaceAlreadyExists
          then rely\<^sup>*\<^sup>* (view s) (view s') \<and> (\<exists>cat. catalog_is cd (view s') cat \<and> fmlookup (tc_Namespaces cat) name \<noteq> None)
          else rely\<^sup>*\<^sup>* (view s) (view s') \<or> (\<exists>meta g'. created rely cd name meta (view s) g' (view s'))))"
proof (cases "ValidateName name")
  case (Inl e)
  with assms(2,3) have "s' = s" "m = None" "err = Some e" by (auto simp: CreateNamespace_def)
  with Inl assms(2) show ?thesis using ValidateName_error [OF Inl] by (auto simp: evolves_refl)
next
  case (Inr u)
  define read where "read = readCatalogOrEmpty (Some S) cd c"
  define bad where "bad = (\<lambda>r (v :: view). \<exists>e. r = (None :: NamespaceMetadata option, [] :: string, Some e) \<and> store_err e)"
  have "reader_ok cd empty_catalog CatalogFile bad (on_error (\<lambda>err. (None, [], Some err)) read)"
    by (rule reader_ok_on_error, unfold read_def bad_def, intro allI impI)
      (drule (1) readCatalogOrEmpty_law [OF assms(1)], auto split: sum.splits)
  from cas_loop_post [OF assms(1) writes_as_catalog this assms(2)
      assms(3) [unfolded CreateNamespace_def option.case Inr sum.case Let_def read_def [symmetric]]]
  show ?thesis
    unfolding cas_post_def
  proof (elim conjE disjE exE, goal_cases)
    case 1
    then show ?case by (auto simp: bad_def store_err_def)
  next
    case (2 y gen)
    then show ?case by (auto split: if_splits; blast)
  next
    case (3 y gen x gen')
    then show ?case by (auto simp: Inr created_def split: if_splits)
  next
    case (4 y gen x e)
    then show ?case by (auto simp: store_err_def)
  next
    case (5 y gen x e g')
    then have "created rely cd name \<lparr>nm_Epoch = 0, nm_CreatedAt = max now 0, nm_DeletedAt = 0\<rparr> (view s) g' (view s')"
      unfolding created_def by (intro exI [of _ y]) (auto split: if_splits)
    with 5 show ?case by (auto simp: store_err_def)
  qed
qed

lemma DeleteNamespace_spec:
  assumes "codec_ok cd" and "inv s" and "DeleteNamespace (Some S) cd c name now s = Some ((m, g, err), s')"
  shows "inv s' \<and> evolves s s' \<and>
    (case err of
       None \<Rightarrow> (\<exists>meta. m = Some meta \<and> nm_DeletedAt meta \<noteq> 0 \<and>
         (rely\<^sup>*\<^sup>* (view s) (view s') \<and>
            (\<exists>cat. catalog_is cd (view s') cat \<and> fmlookup (tc_Namespaces cat) name = Some meta)
          \<or> nm_DeletedAt meta = max now 1 \<and>
            stamped rely cd name (max now 1) (meta\<lparr>nm_DeletedAt := 0\<rparr>) (view s) g (view s')))
     | Some e \<Rightarrow> m = None \<and>
         (if e = ErrNamespaceNotFound
          then rely\<^sup>*\<^sup>* (view s) (view s') \<and> (\<exists>cat. catalog_is cd (view s') cat \<and> fmlookup (tc_Namespaces cat) name = None)
          else rely\<^sup>*\<^sup>* (view s) (view s') \<or> (\<exists>meta g'. stamped rely cd name (max now 1) meta (view s) g' (view s'))))"
proof (cases "ValidateName name")
  case (Inl e)
  with assms(2,3) have "s' = s" "m = None" "err = Some e" by (auto simp: DeleteNamespace_def)
  with Inl assms(2) show ?thesis using ValidateName_error [OF Inl] by (auto simp: evolves_refl)
next
  case (Inr u)
  define read where "read = ReadTenantCatalog (Some S) cd c"
  define k where "k = (\<lambda>err. (None :: NamespaceMetadata option, [] :: string,
      Some (if errors_is err ErrNotFound then ErrNamespaceNotFound else err)))"
  define bad where "bad = (\<lambda>r v. \<exists>e. r = k e \<and> store_err e \<and> (errors_is e ErrNotFound \<longrightarrow> catalog_is cd v empty_catalog))"
  have "reader_ok cd empty_catalog CatalogFile bad (on_error k read)"
    by (rule reader_ok_on_error, unfold read_def bad_def, intro allI impI)
      (drule (1) ReadTenantCatalog_law [OF assms(1)], auto simp: meaning_def split: sum.splits)
  from cas_loop_post [OF assms(1) writes_as_catalog this assms(2)
      assms(3) [unfolded DeleteNamespace_def option.case Inr sum.case Let_def read_def [symmetric] k_def [symmetric]]]
  show ?thesis
    unfolding cas_post_def
  proof (elim conjE disjE exE, goal_cases)
    case 1
    then have "m = None" "\<exists>e. err = Some e \<and> (e = ErrNamespaceNotFound \<longrightarrow> catalog_is cd (view s') empty_catalog)"
      by (auto simp: bad_def k_def store_err_def split: if_splits)
    with 1 show ?case by (auto simp: empty_catalog_def intro!: exI [of _ empty_catalog])
  next
    case (2 y gen)
    show ?case
    proof (cases "fmlookup (tc_Namespaces y) name")
      case (Some meta)
      with 2 have "m = Some meta" "err = None" "nm_DeletedAt meta \<noteq> 0" by (auto split: if_splits)
      with 2 Some show ?thesis by auto
    qed (use 2 in auto)
  next
    case (3 y gen x gen')
    then show ?case by (auto simp: stamped_def split: if_splits option.splits)
  next
    case (4 y gen x e)
    then show ?case by (auto simp: store_err_def)
  next
    case (5 y gen x e g')
    then obtain meta where "stamped rely cd name (max now 1) meta (view s) g' (view s')"
      unfolding stamped_def by (auto split: if_splits option.splits)
    with 5 show ?case by (auto simp: store_err_def)
  qed
qed

end

subsection \<open>The loops end\<close>

lemma ReadTenantCatalog_world:
  assumes "codec_ok cd" and "world_inv R w" and "ReadTenantCatalog (Some world_Store) cd c w = (r, w')"
  shows "world_inv R w' \<and> wd_script w' = tl (wd_script w) \<and>
    (case r of Inl _ \<Rightarrow> True | Inr (y, gen) \<Rightarrow> seen (world_view w') CatalogFile gen)"
proof -
  obtain r0 w0 where get: "Store_Get world_Store c CatalogFile w = (r0, w0)" by fastforce
  with assms(3) have "w0 = w'" by (auto simp: ReadTenantCatalog_def get_decode_def split: sum.splits)
  with world_Store_script(1) [OF get] ws.ReadTenantCatalog_law [OF assms] show ?thesis
    by (auto split: sum.splits)
qed

lemma readCatalogOrEmpty_world:
  assumes "codec_ok cd" and "world_inv R w" and "readCatalogOrEmpty (Some world_Store) cd c w = (r, w')"
  shows "world_inv R w' \<and> wd_script w' = tl (wd_script w) \<and>
    (case r of Inl _ \<Rightarrow> True | Inr (y, gen) \<Rightarrow> seen (world_view w') CatalogFile gen)"
proof -
  obtain r0 w0 where rd: "ReadTenantCatalog (Some world_Store) cd c w = (r0, w0)" by fastforce
  with assms(3) have "w0 = w'" by (auto simp: readCatalogOrEmpty_def split: sum.splits)
  with ReadTenantCatalog_world [OF assms(1,2) rd] ws.readCatalogOrEmpty_law [OF assms] show ?thesis
    by (auto split: sum.splits)
qed

lemma CreateNamespace_returns:
  assumes "codec_ok cd" and "world_inv R w"
  shows "\<exists>res. CreateNamespace (Some world_Store) cd c name now w = Some res"
proof (cases "ValidateName name")
  case (Inr u)
  then show ?thesis
    unfolding CreateNamespace_def Let_def option.case Inr sum.case
    by (intro cas_loop_returns [OF assms(1) writes_as_catalog assms(2) readCatalogOrEmpty_world [OF assms(1)] refl])
qed (simp add: CreateNamespace_def)

lemma DeleteNamespace_returns:
  assumes "codec_ok cd" and "world_inv R w"
  shows "\<exists>res. DeleteNamespace (Some world_Store) cd c name now w = Some res"
proof (cases "ValidateName name")
  case (Inr u)
  then show ?thesis
    unfolding DeleteNamespace_def Let_def option.case Inr sum.case
    by (intro cas_loop_returns [OF assms(1) writes_as_catalog assms(2) ReadTenantCatalog_world [OF assms(1)] refl])
qed (simp add: DeleteNamespace_def)

subsection \<open>What every process keeps of the catalog\<close>

text \<open>Names are never removed, identities never change, and a stamp is final.\<close>

definition names_kept :: "TenantCatalog \<Rightarrow> TenantCatalog \<Rightarrow> bool" where
  "names_kept cat cat' \<longleftrightarrow>
     (\<forall>n m. fmlookup (tc_Namespaces cat) n = Some m \<longrightarrow>
        (\<exists>m'. fmlookup (tc_Namespaces cat') n = Some m' \<and> nm_Epoch m' = nm_Epoch m \<and> nm_CreatedAt m' = nm_CreatedAt m
           \<and> (nm_DeletedAt m \<noteq> 0 \<longrightarrow> m' = m)))"

lemma names_kept_refl [simp]: "names_kept cat cat"
  by (simp add: names_kept_def)

lemma names_kept_trans: "names_kept a b \<Longrightarrow> names_kept b c \<Longrightarrow> names_kept a c"
  unfolding names_kept_def by metis

definition catalog_rely :: "TenantCatalog codec \<Rightarrow> view \<Rightarrow> view \<Rightarrow> bool" where
  "catalog_rely cd v v' \<longleftrightarrow> (\<forall>cat. catalog_is cd v cat \<longrightarrow> (\<exists>cat'. catalog_is cd v' cat' \<and> names_kept cat cat'))"

lemma catalog_rely_refl [simp]: "catalog_rely cd v v"
  unfolding catalog_rely_def using names_kept_refl by blast

lemma catalog_rely_trans: "catalog_rely cd a b \<Longrightarrow> catalog_rely cd b c \<Longrightarrow> catalog_rely cd a c"
  unfolding catalog_rely_def using names_kept_trans by metis

lemma catalog_rely_rtrancl: "(catalog_rely cd)\<^sup>*\<^sup>* v v' \<longleftrightarrow> catalog_rely cd v v'"
  by (rule iffI, induction rule: rtranclp_induct) (auto intro: catalog_rely_trans)

lemma catalog_rely_reflclp [simp]: "(catalog_rely cd)\<^sup>=\<^sup>= = catalog_rely cd"
  by (intro ext) auto

lemma swapped_rely:
  assumes "codec_ok cd" and "swapped (catalog_rely cd) cd empty_catalog CatalogFile v0 cat x g v'" and "names_kept cat x"
  shows "catalog_rely cd v0 v' \<and> catalog_is cd v' x"
proof -
  from assms(2) obtain v d where v: "catalog_rely cd v0 v" "catalog_is cd v cat" "marshal cd x = Inr d"
    "v' = v(CatalogFile \<mapsto> (d, g))" by (auto simp: swapped_def catalog_rely_rtrancl)
  with assms(1) have x: "catalog_is cd v' x" by simp
  with v(2) assms(3) have "catalog_rely cd v v'" unfolding catalog_rely_def by (metis meaning_unique)
  with v(1) x catalog_rely_trans show ?thesis by blast
qed

lemma created_rely:
  assumes "codec_ok cd" and "created (catalog_rely cd) cd name meta v0 g v'"
  shows "catalog_rely cd v0 v' \<and> (\<exists>cat. catalog_is cd v' cat \<and> fmlookup (tc_Namespaces cat) name = Some meta)"
proof -
  from assms(2) obtain cat where cat: "fmlookup (tc_Namespaces cat) name = None"
    "swapped (catalog_rely cd) cd empty_catalog CatalogFile v0 cat
       (cat\<lparr>tc_Namespaces := fmupd name meta (tc_Namespaces cat)\<rparr>) g v'"
    by (auto simp: created_def)
  have "names_kept cat (cat\<lparr>tc_Namespaces := fmupd name meta (tc_Namespaces cat)\<rparr>)"
    using cat(1) by (auto simp: names_kept_def)
  from swapped_rely [OF assms(1) cat(2) this] show ?thesis by force
qed

lemma stamped_rely:
  assumes "codec_ok cd" and "stamped (catalog_rely cd) cd name t meta v0 g v'"
  shows "catalog_rely cd v0 v'
    \<and> (\<exists>cat. catalog_is cd v' cat \<and> fmlookup (tc_Namespaces cat) name = Some (meta\<lparr>nm_DeletedAt := t\<rparr>))"
proof -
  from assms(2) obtain cat where cat: "fmlookup (tc_Namespaces cat) name = Some meta" "nm_DeletedAt meta = 0"
    "swapped (catalog_rely cd) cd empty_catalog CatalogFile v0 cat
       (cat\<lparr>tc_Namespaces := fmupd name (meta\<lparr>nm_DeletedAt := t\<rparr>) (tc_Namespaces cat)\<rparr>) g v'"
    by (auto simp: stamped_def)
  have "names_kept cat (cat\<lparr>tc_Namespaces := fmupd name (meta\<lparr>nm_DeletedAt := t\<rparr>) (tc_Namespaces cat)\<rparr>)"
    using cat(1,2) by (auto simp: names_kept_def)
  from swapped_rely [OF assms(1) cat(3) this] show ?thesis by force
qed

lemma CreateNamespace_rely:
  assumes "codec_ok cd" and "world_inv (catalog_rely cd) w"
    and "CreateNamespace (Some world_Store) cd c name now w = Some ((m, g, err), w')"
  shows "world_inv (catalog_rely cd) w' \<and> catalog_rely cd (world_view w) (world_view w')
    \<and> (err \<in> {None, Some ErrNamespaceAlreadyExists} \<longrightarrow>
         (\<exists>cat. catalog_is cd (world_view w') cat \<and> fmlookup (tc_Namespaces cat) name \<noteq> None))"
  using ws.CreateNamespace_spec [OF assms] created_rely [OF assms(1)]
  by (auto simp: catalog_rely_rtrancl split: option.splits if_splits; fastforce)

lemma DeleteNamespace_rely:
  assumes "codec_ok cd" and "world_inv (catalog_rely cd) w"
    and "DeleteNamespace (Some world_Store) cd c name now w = Some ((m, g, err), w')"
  shows "world_inv (catalog_rely cd) w' \<and> catalog_rely cd (world_view w) (world_view w')
    \<and> (err = None \<longrightarrow> (\<exists>cat meta. catalog_is cd (world_view w') cat \<and> m = Some meta \<and> nm_DeletedAt meta \<noteq> 0
         \<and> fmlookup (tc_Namespaces cat) name = Some meta))"
  using ws.DeleteNamespace_spec [OF assms] stamped_rely [OF assms(1)]
  by (auto simp: catalog_rely_rtrancl split: option.splits if_splits; fastforce)

end
