(* ===== verification/Catalog_Properties.thy ===== *)
theory Catalog_Properties
  imports Catalog
begin

text \<open>
  The properties of the object layout, the branch list and the tenant catalog in a world with other processes
  and faults: keys never meet, updates are atomic and none is lost, namespaces are permanent, the retry
  loops end, and a cached answer is never contradicted by the catalog.
\<close>

subsection \<open>Concrete runs\<close>

definition meta0 :: NamespaceMetadata where
  "meta0 = \<lparr>nm_Epoch = 0, nm_CreatedAt = 7, nm_DeletedAt = 0\<rparr>"

definition cat_a :: TenantCatalog where
  "cat_a = \<lparr>tc_Tenant = [], tc_Namespaces = fmupd ''a'' meta0 fmempty\<rparr>"

definition cat_a_deleted :: TenantCatalog where
  "cat_a_deleted = \<lparr>tc_Tenant = [], tc_Namespaces = fmupd ''a'' (meta0\<lparr>nm_DeletedAt := 9\<rparr>) fmempty\<rparr>"

abbreviation cat_codec :: "TenantCatalog codec" where
  "cat_codec \<equiv> two_codec cat_a cat_a_deleted"

lemma valid_a [simp]: "ValidateName ''a'' = Inr ()"
  by (simp add: ValidateName_def name_letter_def less_eq_char_def)

abbreviation created_world :: world where
  "created_world \<equiv> quiet_put CatalogFile [1] (new_world [])"

lemma new_world_view [simp]: "world_view (new_world ts) k = None"
  by (simp add: new_world_def world_view_def newMemStore_def mem_view_def)

lemma create_run:
  "CreateNamespace (Some world_Store) cat_codec 0 ''a'' 7 (new_world []) =
     Some ((Some meta0, quiet_gen [1] (new_world []), None), created_world)"
  unfolding CreateNamespace_def option.case valid_a sum.case Let_def
  by (subst quiet_cas [where y = empty_catalog and gen = "[]" and x = cat_a and d = "[1]", OF _ _ _ _ _ writes_as_catalog])
    (simp_all add: readCatalogOrEmpty_def ReadTenantCatalog_def quiet_get_decode on_error_def seen_def empty_catalog_def cat_a_def meta0_def two_codec_def)

lemma quiet_created: "quiet created_world"
  by (simp add: quiet_quiet_put)

lemma delete_run:
  "DeleteNamespace (Some world_Store) cat_codec 0 ''a'' 9 created_world =
     Some ((Some (meta0\<lparr>nm_DeletedAt := 9\<rparr>), quiet_gen [2] created_world, None), quiet_put CatalogFile [2] created_world)"
proof -
  have g: "validLocalGeneration (quiet_gen [1] (new_world []))"
    unfolding quiet_gen_def by (rule localGeneration_valid) (simp_all add: new_world_def newMemStore_def)
  have "fmlookup (tc_Namespaces cat_a_deleted) ''a'' \<noteq> fmlookup (tc_Namespaces cat_a) ''a''"
    by (simp add: cat_a_def cat_a_deleted_def meta0_def)
  then have ne: "cat_a_deleted \<noteq> cat_a" by metis
  show ?thesis
    unfolding DeleteNamespace_def option.case valid_a sum.case Let_def
    by (subst quiet_cas [where y = cat_a and gen = "quiet_gen [1] (new_world [])" and x = cat_a_deleted and d = "[2]", OF _ _ _ _ _ writes_as_catalog])
      (simp_all add: ReadTenantCatalog_def quiet_get_decode quiet_created on_error_def g seen_def two_codec_def
        ne [unfolded cat_a_def cat_a_deleted_def meta0_def, simplified] cat_a_def cat_a_deleted_def meta0_def)
qed

lemma world_inv_created: "world_inv R created_world"
  by (rule quiet_world_inv [OF quiet_created])

lemma world_inv_new: "world_inv R (new_world [])"
  by (rule quiet_world_inv) simp

subsection \<open>Keys\<close>

text \<open>
  C13. Keys never meet. The catalog, and the branch lists, manifests, segments and log batches of all valid namespaces
  are stored under pairwise different keys; two objects share a key only if they are the same object.
\<close>

theorem object_keys_distinct:
  assumes "object_ok a" and "object_ok b" and "object_key a = object_key b"
  shows "a = b"
  using assms object_key_inject by blast

theorem object_keys_distinct_witness:
  "object_key (Batch \<lparr>sc_Namespace = ''a''\<rparr> 1) = object_key (Batch \<lparr>sc_Namespace = ''a''\<rparr> (0 + 1))
     \<and> Batch \<lparr>sc_Namespace = ''a''\<rparr> 1 = Batch \<lparr>sc_Namespace = ''a''\<rparr> (0 + 1)"
  using object_keys_distinct [of "Batch \<lparr>sc_Namespace = ''a''\<rparr> 1" "Batch \<lparr>sc_Namespace = ''a''\<rparr> (0 + 1)"]
  by (simp add: Scope_Validate_def)

subsection \<open>The tenant catalog\<close>

text \<open>
  C14. CreateNamespace is atomic. With any interference and faults, success means that one conditional write added the
  name, with epoch 0, to the catalog as others had left it, where it was absent, and changed nothing else; the
  returned generation is the one the catalog now has. \<open>ErrNamespaceAlreadyExists\<close> means that the catalog has the
  name. After any other error the name was not added by this call, or was added in that very way and only the answer
  was lost.
\<close>

theorem CreateNamespace_atomic:
  assumes "codec_ok cd" and "world_inv R w"
    and "CreateNamespace (Some world_Store) cd c name now w = Some ((m, g, err), w')"
  shows "case err of
     None \<Rightarrow> m = Some \<lparr>nm_Epoch = 0, nm_CreatedAt = max now 0, nm_DeletedAt = 0\<rparr> \<and>
       (\<exists>v cat d. R\<^sup>*\<^sup>* (world_view w) v \<and> catalog_is cd v cat \<and> fmlookup (tc_Namespaces cat) name = None \<and>
          marshal cd (cat\<lparr>tc_Namespaces := fmupd name (the m) (tc_Namespaces cat)\<rparr>) = Inr d \<and>
          world_view w' = v(CatalogFile \<mapsto> (d, g)))
   | Some e \<Rightarrow> m = None \<and>
       (if e = ErrNamespaceAlreadyExists
        then R\<^sup>*\<^sup>* (world_view w) (world_view w') \<and>
          (\<exists>cat. catalog_is cd (world_view w') cat \<and> fmlookup (tc_Namespaces cat) name \<noteq> None)
        else R\<^sup>*\<^sup>* (world_view w) (world_view w') \<or>
          (\<exists>v cat meta d g'. R\<^sup>*\<^sup>* (world_view w) v \<and> catalog_is cd v cat \<and> fmlookup (tc_Namespaces cat) name = None \<and>
             marshal cd (cat\<lparr>tc_Namespaces := fmupd name meta (tc_Namespaces cat)\<rparr>) = Inr d \<and>
             world_view w' = v(CatalogFile \<mapsto> (d, g'))))"
  using ws.CreateNamespace_spec [OF assms]
  unfolding created_def swapped_def rtranclp_reflclp
  by (cases err) (simp_all split: if_splits, blast+)

theorem CreateNamespace_atomic_witness:
  "CreateNamespace (Some world_Store) cat_codec 0 ''a'' 7 (new_world []) =
     Some ((Some meta0, quiet_gen [1] (new_world []), None), created_world) \<and>
   (\<exists>v cat d. no_rely\<^sup>*\<^sup>* (world_view (new_world [])) v \<and> catalog_is cat_codec v cat \<and>
      fmlookup (tc_Namespaces cat) ''a'' = None \<and>
      marshal cat_codec (cat\<lparr>tc_Namespaces := fmupd ''a'' meta0 (tc_Namespaces cat)\<rparr>) = Inr d \<and>
      world_view created_world = v(CatalogFile \<mapsto> (d, quiet_gen [1] (new_world []))))"
  using CreateNamespace_atomic [OF codec_ok_two world_inv_new create_run, of no_rely] create_run
  by simp

text \<open>
  C15. Namespaces are permanent. While the other processes also keep every name, its epoch and creation time and every
  deletion stamp (which this theorem shows that each call of \<open>CreateNamespace\<close> and \<open>DeleteNamespace\<close> does, whatever
  it returns), no run of the two removes a name, revives a deleted namespace or changes an identity.
\<close>

theorem namespaces_permanent:
  assumes "codec_ok cd" and "world_inv (catalog_rely cd) w"
    and "CreateNamespace (Some world_Store) cd c name now w = Some (r, w')
      \<or> DeleteNamespace (Some world_Store) cd c name now w = Some (r, w')"
  shows "world_inv (catalog_rely cd) w' \<and> catalog_rely cd (world_view w) (world_view w')"
  using assms(3) CreateNamespace_rely [OF assms(1,2)] DeleteNamespace_rely [OF assms(1,2)]
  by (cases r) blast

theorem namespaces_permanent_witness:
  "\<exists>r w'. DeleteNamespace (Some world_Store) cat_codec 0 ''a'' 9 created_world = Some (r, w')
     \<and> catalog_rely cat_codec (world_view created_world) (world_view w')"
  using namespaces_permanent [OF codec_ok_two world_inv_created disjI2 [OF delete_run]] delete_run by blast

text \<open>
  C16. A namespace is created once. Of two calls of \<open>CreateNamespace\<close> for one name, one after the other returned,
  with other processes creating and deleting namespaces all the time (deletion included), the second
  never succeeds.
\<close>

theorem create_once:
  assumes "codec_ok cd" and "world_inv (catalog_rely cd) w"
    and "CreateNamespace (Some world_Store) cd c name now w = Some ((m, g, None), w1)"
    and "CreateNamespace (Some world_Store) cd c' name now' w1 = Some ((m', g', err), w2)"
  shows "err \<noteq> None"
proof
  assume "err = None"
  from CreateNamespace_rely [OF assms(1-3)] obtain cat where w1: "world_inv (catalog_rely cd) w1"
    and cat: "catalog_is cd (world_view w1) cat" "fmlookup (tc_Namespaces cat) name \<noteq> None" by auto
  from ws.CreateNamespace_spec [OF assms(1) w1 assms(4)] \<open>err = None\<close> obtain v cat'
    where "catalog_rely cd (world_view w1) v" "catalog_is cd v cat'" "fmlookup (tc_Namespaces cat') name = None"
    by (auto simp: created_def swapped_def catalog_rely_rtrancl)
  with cat show False unfolding catalog_rely_def names_kept_def by (metis meaning_unique option.exhaust option.simps(3))
qed

lemma create_again:
  "CreateNamespace (Some world_Store) cat_codec 0 ''a'' 8 created_world =
     Some ((None, quiet_gen [1] (new_world []), Some ErrNamespaceAlreadyExists), created_world)"
  unfolding CreateNamespace_def option.case valid_a sum.case Let_def
  by (subst quiet_cas_end [where r = "(None, quiet_gen [1] (new_world []), Some ErrNamespaceAlreadyExists)"])
    (simp_all add: readCatalogOrEmpty_def ReadTenantCatalog_def quiet_get_decode quiet_created on_error_def
      two_codec_def cat_a_def)

theorem create_once_witness:
  "\<exists>g. CreateNamespace (Some world_Store) cat_codec 0 ''a'' 7 (new_world []) = Some ((Some meta0, g, None), created_world)
     \<and> (\<forall>m g. CreateNamespace (Some world_Store) cat_codec 0 ''a'' 8 created_world \<noteq> Some ((m, g, None), created_world))"
  using create_once [OF codec_ok_two world_inv_new create_run, of 0 8] create_run by auto

text \<open>
  C17. DeleteNamespace stamps. Success means the catalog has the name with a non-zero stamp: it had one already, or
  this call set it, in one conditional write that changed nothing else. \<open>ErrNamespaceNotFound\<close> means the catalog does
  not have the name. Deleting again succeeds.
\<close>

theorem DeleteNamespace_stamps:
  assumes "codec_ok cd" and "world_inv (catalog_rely cd) w"
    and "DeleteNamespace (Some world_Store) cd c name now w = Some ((m, g, err), w')"
  shows "case err of
     None \<Rightarrow> \<exists>cat meta. m = Some meta \<and> nm_DeletedAt meta \<noteq> 0 \<and> catalog_is cd (world_view w') cat \<and>
       fmlookup (tc_Namespaces cat) name = Some meta
   | Some e \<Rightarrow> m = None \<and>
       (e = ErrNamespaceNotFound \<longrightarrow>
          (\<exists>cat. catalog_is cd (world_view w') cat \<and> fmlookup (tc_Namespaces cat) name = None))"
  using ws.DeleteNamespace_spec [OF assms] DeleteNamespace_rely [OF assms] by (auto split: option.splits if_splits)

theorem DeleteNamespace_stamps_witness:
  "\<exists>g w' cat meta. DeleteNamespace (Some world_Store) cat_codec 0 ''a'' 9 created_world = Some ((Some meta, g, None), w')
     \<and> nm_DeletedAt meta \<noteq> 0 \<and> catalog_is cat_codec (world_view w') cat \<and> fmlookup (tc_Namespaces cat) ''a'' = Some meta"
  using DeleteNamespace_stamps [OF codec_ok_two world_inv_created delete_run] delete_run by (simp split: option.splits)

text \<open>
  C18. The retry loops end. In every world whose other processes take finitely many steps, the updates of the
  catalog and of the branch list return.
\<close>

theorem catalog_loops_return:
  assumes "codec_ok cd" and "codec_ok bcd" and "world_inv R w"
  shows "(\<exists>res. CreateNamespace (Some world_Store) cd c name now w = Some res)
    \<and> (\<exists>res. DeleteNamespace (Some world_Store) cd c name now w = Some res)
    \<and> (\<exists>res. AddBranch world_Store bcd c sc branch w = Some res)
    \<and> (\<exists>res. RemoveBranch world_Store bcd c sc branch w = Some res)"
  unfolding AddBranch_def RemoveBranch_def
  using CreateNamespace_returns DeleteNamespace_returns updateBranches_returns assms by blast

definition bc_main :: BranchCatalog where
  "bc_main = \<lparr>bc_Branches = fmupd ''main'' () fmempty\<rparr>"

definition bc_main_dev :: BranchCatalog where
  "bc_main_dev = \<lparr>bc_Branches = fmupd ''dev'' () (fmupd ''main'' () fmempty)\<rparr>"

abbreviation branch_codec :: "BranchCatalog codec" where
  "branch_codec \<equiv> two_codec bc_main bc_main_dev"

abbreviation scope_a :: Scope where "scope_a \<equiv> \<lparr>sc_Namespace = ''a''\<rparr>"

theorem catalog_loops_return_witness:
  "(\<exists>res. CreateNamespace (Some world_Store) cat_codec 0 ''a'' 7 (new_world []) = Some res)
     \<and> (\<exists>res. AddBranch world_Store branch_codec 0 scope_a ''main'' (new_world []) = Some res)"
  using catalog_loops_return [OF codec_ok_two codec_ok_two world_inv_new] by blast

subsection \<open>The cache\<close>

text \<open>What a cache may hold: a catalog that the object had at some time, or has outgrown since.\<close>

definition cache_ok :: "TenantCatalog codec \<Rightarrow> CatalogCache \<Rightarrow> view \<Rightarrow> bool" where
  "cache_ok cd cache v \<longleftrightarrow>
     (\<forall>cat. cc_catalog cache = Some cat \<longrightarrow> (\<exists>cat'. catalog_is cd v cat' \<and> names_kept cat cat'))"

lemma cache_ok_rely: "cache_ok cd cache v \<Longrightarrow> catalog_rely cd v v' \<Longrightarrow> cache_ok cd cache v'"
  unfolding cache_ok_def catalog_rely_def using names_kept_trans by metis

lemma cache_ok_empty: "cc_catalog cache = None \<Longrightarrow> cache_ok cd cache v"
  by (simp add: cache_ok_def)

lemma cache_refresh_ok:
  assumes "codec_ok cd" and "world_inv (catalog_rely cd) w" and "cache_ok cd cache (world_view w)"
    and "cache_refresh world_Store cd c cache w = (r, cache', w')"
  shows "world_inv (catalog_rely cd) w' \<and> catalog_rely cd (world_view w) (world_view w') \<and> cache_ok cd cache' (world_view w')
    \<and> (case r of Inl e \<Rightarrow> store_err e | Inr (cat, g) \<Rightarrow> catalog_is cd (world_view w') cat)"
proof -
  obtain r0 w0 where rd: "readCatalogOrEmpty (Some world_Store) cd c w = (r0, w0)" by fastforce
  note law = ws.readCatalogOrEmpty_law [OF assms(1,2) rd, simplified]
  show ?thesis
  proof (cases r0)
    case (Inl e)
    with assms(4) rd have "r = Inl e" "cache' = cache" "w' = w0" by (auto simp: cache_refresh_def)
    with law Inl cache_ok_rely [OF assms(3)] show ?thesis by simp
  next
    case (Inr p)
    then obtain cat g where p: "r0 = Inr (cat, g)" by (cases p) auto
    with assms(4) rd have "r = Inr (cat, g)" "cc_catalog cache' = Some cat" "w' = w0" by (auto simp: cache_refresh_def)
    with law p show ?thesis by (auto simp: cache_ok_def intro: exI [of _ cat])
  qed
qed

text \<open>
  C19. A cached lookup is sound. Against any number of concurrent creations and deletions: a namespace that the lookup
  finds exists, with the epoch and creation time it returned (it may have been deleted since the cache was filled);
  one it reports deleted is deleted; one it reports missing was missing when the catalog was read. The
  cache stays sound.
\<close>

theorem LookupNamespace_sound:
  assumes "codec_ok cd" and "world_inv (catalog_rely cd) w" and "cache_ok cd cache (world_view w)"
    and "LookupNamespace world_Store cd c name cache w = (r, cache', w')"
  shows "world_inv (catalog_rely cd) w' \<and> cache_ok cd cache' (world_view w') \<and>
    (case r of
       Inr meta \<Rightarrow> nm_DeletedAt meta = 0 \<and> (\<exists>cat now. catalog_is cd (world_view w') cat \<and>
         fmlookup (tc_Namespaces cat) name = Some now \<and> nm_Epoch now = nm_Epoch meta \<and> nm_CreatedAt now = nm_CreatedAt meta)
     | Inl e \<Rightarrow>
         (e = ErrNamespaceDeleted \<longrightarrow> (\<exists>cat meta. catalog_is cd (world_view w') cat \<and>
            fmlookup (tc_Namespaces cat) name = Some meta \<and> nm_DeletedAt meta \<noteq> 0)) \<and>
         (e = ErrNamespaceNotFound \<longrightarrow>
            (\<exists>cat. catalog_is cd (world_view w') cat \<and> fmlookup (tc_Namespaces cat) name = None)))"
proof (cases "ValidateName name")
  case (Inl e)
  with assms have "r = Inl e" "cache' = cache" "w' = w" by (auto simp: LookupNamespace_def)
  with ValidateName_error [OF Inl] assms show ?thesis by auto
next
  case valid: (Inr u)
  show ?thesis
  proof (cases "lookupCached cache name")
    case (Some meta)
    then obtain cat where "cc_catalog cache = Some cat" "fmlookup (tc_Namespaces cat) name = Some meta"
      by (auto simp: lookupCached_def split: option.splits)
    with assms(3) obtain cat' meta' where now: "catalog_is cd (world_view w) cat'" "fmlookup (tc_Namespaces cat') name = Some meta'"
      "nm_Epoch meta' = nm_Epoch meta" "nm_CreatedAt meta' = nm_CreatedAt meta" "nm_DeletedAt meta \<noteq> 0 \<longrightarrow> meta' = meta"
      unfolding cache_ok_def names_kept_def by metis
    have r: "r = (if nm_DeletedAt meta \<noteq> 0 then Inl ErrNamespaceDeleted else Inr meta)" and "cache' = cache" and "w' = w"
      using assms(4) Some valid by (auto simp: LookupNamespace_def)
    with assms(2,3) now show ?thesis by (cases "nm_DeletedAt meta \<noteq> 0") auto
  next
    case None
    obtain r0 c0 w0 where rf: "cache_refresh world_Store cd c cache w = (r0, c0, w0)" by (metis prod_cases3)
    note ok = cache_refresh_ok [OF assms(1-3) rf]
    have eq: "c0 = cache'" "w0 = w'"
      "r = (case r0 of Inl err \<Rightarrow> Inl err
         | Inr (cat, _) \<Rightarrow> (case fmlookup (tc_Namespaces cat) name of None \<Rightarrow> Inl ErrNamespaceNotFound
             | Some meta \<Rightarrow> if nm_DeletedAt meta \<noteq> 0 then Inl ErrNamespaceDeleted else Inr meta))"
      using assms(4) None valid rf by (auto simp: LookupNamespace_def split: sum.splits)
    show ?thesis
    proof (cases r0)
      case (Inl e)
      with ok eq show ?thesis by (auto simp: store_err_def)
    next
      case (Inr p)
      with ok eq show ?thesis by (cases p) (auto split: option.splits if_splits)
    qed
  qed
qed

abbreviation empty_cache :: CatalogCache where
  "empty_cache \<equiv> \<lparr>cc_syncInterval = 1, cc_catalog = None, cc_generation = []\<rparr>"

theorem LookupNamespace_sound_witness:
  "\<exists>meta cache' w' cat now. LookupNamespace world_Store cat_codec 0 ''a'' empty_cache created_world = (Inr meta, cache', w')
     \<and> cc_catalog cache' \<noteq> None \<and> catalog_is cat_codec (world_view w') cat
     \<and> fmlookup (tc_Namespaces cat) ''a'' = Some now \<and> nm_Epoch now = nm_Epoch meta"
proof -
  have run: "LookupNamespace world_Store cat_codec 0 ''a'' empty_cache created_world =
      (Inr meta0, empty_cache\<lparr>cc_catalog := Some cat_a, cc_generation := quiet_gen [1] (new_world [])\<rparr>, created_world)"
    by (simp add: LookupNamespace_def lookupCached_def cache_refresh_def readCatalogOrEmpty_def ReadTenantCatalog_def
        quiet_get_decode quiet_created two_codec_def cat_a_def meta0_def)
  from LookupNamespace_sound [OF codec_ok_two world_inv_created cache_ok_empty run] run show ?thesis by auto
qed

subsection \<open>The branch list\<close>

text \<open>
  C20. Branch updates are atomic. Whatever change is asked for and whatever other processes do to the list, an update
  that returns without an error found nothing to change in the list as it was, or applied the change to the list as
  others had left it, in one conditional write; with an error it did nothing, or exactly that. No update of another
  process is lost.
\<close>

theorem updateBranches_atomic:
  assumes "codec_ok cd" and "world_inv R w"
    and "updateBranches world_Store cd c sc change w = Some (r, w')"
  shows "\<exists>v. R\<^sup>*\<^sup>* (world_view w) v \<and>
    (world_view w' = v \<and> (r = Inr () \<longrightarrow> (\<exists>m. branches_are cd v sc m \<and> change m = None))
     \<or> (\<exists>m m' d g. branches_are cd v sc m \<and> change m = Some m' \<and> marshal cd \<lparr>bc_Branches = m'\<rparr> = Inr d
          \<and> world_view w' = v(branchesKey sc \<mapsto> (d, g))))"
  using ws.updateBranches_spec [OF assms] unfolding swapped_def rtranclp_reflclp by blast

lemma add_main_run:
  "AddBranch world_Store branch_codec 0 scope_a ''main'' (new_world []) =
     Some (Inr (), quiet_put (branchesKey scope_a) [1] (new_world []))"
  unfolding AddBranch_def updateBranches_def Let_def
  by (subst quiet_cas [where y = empty_branches and gen = "[]" and x = bc_main and d = "[1]", OF _ _ _ _ _ writes_as_branches])
    (simp_all add: readBranchCatalog_def quiet_Get on_error_def seen_def empty_branches_def bc_main_def two_codec_def)

theorem updateBranches_atomic_witness:
  "\<exists>w' v. updateBranches world_Store branch_codec 0 scope_a (\<lambda>m. if fmlookup m ''main'' \<noteq> None then None else Some (fmupd ''main'' () m))
       (new_world []) = Some (Inr (), w') \<and> no_rely\<^sup>*\<^sup>* (world_view (new_world [])) v"
  using updateBranches_atomic [OF codec_ok_two world_inv_new add_main_run [unfolded AddBranch_def], of no_rely]
    add_main_run [unfolded AddBranch_def] by blast

text \<open>Other processes that never remove \<open>branch\<close>.\<close>

definition branch_kept :: "BranchCatalog codec \<Rightarrow> Scope \<Rightarrow> string \<Rightarrow> view \<Rightarrow> view \<Rightarrow> bool" where
  "branch_kept cd sc branch v v' \<longleftrightarrow>
     (\<forall>m. branches_are cd v sc m \<longrightarrow> branch |\<in>| fmdom m \<longrightarrow> (\<exists>m'. branches_are cd v' sc m' \<and> branch |\<in>| fmdom m'))"

lemma branch_kept_rtrancl:
  assumes "(branch_kept cd sc branch)\<^sup>*\<^sup>* v v'" and "branches_are cd v sc m" and "branch |\<in>| fmdom m"
  shows "\<exists>m'. branches_are cd v' sc m' \<and> branch |\<in>| fmdom m'"
  using assms(1)
proof (induction rule: rtranclp_induct)
  case base
  with assms(2,3) show ?case by blast
next
  case (step y z)
  then show ?case unfolding branch_kept_def by blast
qed

lemma ListBranches_law:
  assumes "codec_ok cd" and "world_inv R w" and "ListBranches world_Store cd c sc w = (Inr names, w')"
  shows "R\<^sup>=\<^sup>= (world_view w) (world_view w') \<and> (\<exists>m. branches_are cd (world_view w') sc m \<and>
    names = (if m = fmempty then [DefaultBranch] else sorted_list_of_fset (fmdom m)))"
proof -
  obtain r0 w0 where rd: "readBranchCatalog world_Store cd c (branchesKey sc) w = (r0, w0)" by fastforce
  with assms(3) obtain cat g where p: "r0 = Inr (cat, g)" "w0 = w'"
    and n: "names = (if bc_Branches cat = fmempty then [DefaultBranch] else sorted_list_of_fset (fmdom (bc_Branches cat)))"
    by (auto simp: ListBranches_def split: sum.splits prod.splits)
  obtain m where "cat = \<lparr>bc_Branches = m\<rparr>" by (cases cat) auto
  with ws.readBranchCatalog_law [OF assms(1,2) rd] p n show ?thesis by auto
qed

text \<open>
  C21. An added branch is listed. After \<open>AddBranch\<close> returned without an error, every \<open>ListBranches\<close> that
  succeeds has the branch, in a sorted list without duplicates, as long as no other process removes that
  branch (other branches may come and go).
\<close>

theorem AddBranch_then_List:
  assumes "codec_ok cd" and "world_inv (branch_kept cd sc branch) w"
    and "AddBranch world_Store cd c sc branch w = Some (Inr (), w1)"
    and "ListBranches world_Store cd c' sc w1 = (Inr names, w2)"
  shows "branch \<in> set names \<and> sorted names \<and> distinct names"
proof -
  let ?R = "branch_kept cd sc branch"
  note upd = ws.updateBranches_spec [OF assms(1,2) assms(3) [unfolded AddBranch_def], unfolded rtranclp_reflclp]
  then have inv: "world_inv ?R w1" by blast
  let ?add = "\<lambda>m. if fmlookup m branch \<noteq> None then None else Some (fmupd branch () m)"
  have add: "branch |\<in>| fmdom m'" if "?add m = Some m' \<or> ?add m = None \<and> m' = m" for m m'
    using that by (auto split: if_splits intro: fmdomI)
  from upd obtain m m' where "branches_are cd (world_view w1) sc m'" and "?add m = Some m' \<or> ?add m = None \<and> m' = m"
    unfolding swapped_def using meaning_upd [OF assms(1)] by metis
  with add obtain m where m: "branches_are cd (world_view w1) sc m" "branch |\<in>| fmdom m" by blast
  from ListBranches_law [OF assms(1) inv assms(4)] obtain m2
    where "?R\<^sup>*\<^sup>* (world_view w1) (world_view w2)" and m2: "branches_are cd (world_view w2) sc m2"
      "names = (if m2 = fmempty then [DefaultBranch] else sorted_list_of_fset (fmdom m2))"
    using r_into_rtranclp [of ?R] by (auto simp del: if_split)
  with branch_kept_rtrancl [OF _ m] have "branch |\<in>| fmdom m2" using meaning_unique by fastforce
  with m2(2) show ?thesis by (auto simp: sorted_list_of_fset.rep_eq)
qed

theorem AddBranch_then_List_witness:
  "\<exists>w1. AddBranch world_Store branch_codec 0 scope_a ''main'' (new_world []) = Some (Inr (), w1)
     \<and> ListBranches world_Store branch_codec 0 scope_a w1 = (Inr [''main''], w1) \<and> ''main'' \<in> set [''main'']"
proof -
  let ?w = "quiet_put (branchesKey scope_a) [1] (new_world [])"
  have "sorted_list_of_fset {|''main''|} = [''main'']" by (simp add: sorted_list_of_fset.rep_eq)
  then have "ListBranches world_Store branch_codec 0 scope_a ?w = (Inr [''main''], ?w)"
    by (simp add: ListBranches_def readBranchCatalog_def quiet_Get quiet_quiet_put decode_object_def two_codec_def bc_main_def)
  with AddBranch_then_List [OF codec_ok_two world_inv_new add_main_run this] add_main_run show ?thesis by blast
qed

end
