(* ===== verification/Manifest.thy ===== *)
theory Manifest
  imports Cas Namespace
begin

text \<open>
  \<open>src/manifest/manifest.go\<close>: the manifest of a branch, the list of its segments and the number of the last log entry
  they cover, read and written as one message. \<open>grown\<close> is the only way a flusher changes a manifest: it adds a
  segment for a later log entry.
\<close>

abbreviation ErrBranchAlreadyExists :: gerr where "ErrBranchAlreadyExists \<equiv> Sentinel ''manifest.ErrBranchAlreadyExists''"
abbreviation ErrNilManifest :: gerr where "ErrNilManifest \<equiv> Sentinel ''manifest.ErrNilManifest''"

record SegmentRef =
  sg_SegmentId :: string
  sg_DocCount :: u64
  sg_DocsSize :: int

record BranchManifest =
  bm_CheckpointSeq :: u64
  bm_SchemaVersion :: u64
  bm_Segments :: "SegmentRef list"

definition manifest_Read ::
    "'s Store \<Rightarrow> BranchManifest codec \<Rightarrow> ctx \<Rightarrow> string \<Rightarrow> 's \<Rightarrow> (BranchManifest \<times> string) result \<times> 's" where
  "manifest_Read S cd c key s = get_decode S cd ''manifest: read'' ''manifest: corrupt manifest'' c key s"

definition manifest_Write ::
    "'s Store \<Rightarrow> BranchManifest codec \<Rightarrow> ctx \<Rightarrow> string \<Rightarrow> BranchManifest option \<Rightarrow> string \<Rightarrow> 's \<Rightarrow> string result \<times> 's" where
  "manifest_Write S cd c key m expectedGen s =
     (case m of
        None \<Rightarrow> (Inl ErrNilManifest, s)
      | Some m \<Rightarrow> put_message S cd ''manifest: marshal manifest'' c key m expectedGen s)"

lemma writes_as_manifest: "writes_as S c key cd (\<lambda>m gen. manifest_Write S cd c key (Some m) gen)"
  using writes_as_put_message [of S c key cd] unfolding manifest_Write_def [abs_def] option.case .

subsection \<open>Growth\<close>

inductive grown :: "BranchManifest \<Rightarrow> BranchManifest \<Rightarrow> bool" where
  grown_refl: "grown m m"
| grown_add: "grown m m' \<Longrightarrow> bm_CheckpointSeq m' < seq \<Longrightarrow>
    grown m (m'\<lparr>bm_Segments := bm_Segments m' @ [ref], bm_CheckpointSeq := seq\<rparr>)"

lemma grown_trans: "grown b c \<Longrightarrow> grown a b \<Longrightarrow> grown a c"
  by (induction rule: grown.induct) (auto intro: grown_add)

lemma grown_mono:
  assumes "grown m m'"
  shows "prefix (bm_Segments m) (bm_Segments m') \<and> bm_CheckpointSeq m \<le> bm_CheckpointSeq m'
    \<and> bm_SchemaVersion m' = bm_SchemaVersion m \<and> (bm_CheckpointSeq m' = bm_CheckpointSeq m \<longrightarrow> m' = m)"
  using assms by (induction rule: grown.induct) (auto simp: prefix_append)

text \<open>A manifest gains at most one segment for each log entry it moves past.\<close>

lemma grown_count:
  assumes "grown m m'"
  shows "length (bm_Segments m') - length (bm_Segments m) \<le> unat (bm_CheckpointSeq m') - unat (bm_CheckpointSeq m)"
  using assms
proof (induction rule: grown.induct)
  case (grown_add m m' seq ref)
  from grown_mono [OF grown_add(1)] have "unat (bm_CheckpointSeq m) \<le> unat (bm_CheckpointSeq m')"
    "length (bm_Segments m) \<le> length (bm_Segments m')" by (auto simp: word_le_nat_alt dest: prefix_length_le)
  moreover have "unat (bm_CheckpointSeq m') < unat seq" using grown_add(2) by (simp add: word_less_nat_alt)
  ultimately show ?case using grown_add.IH by simp
qed simp

end
