(* ===== verification/Segment.thy ===== *)
theory Segment
  imports Recordio Cas
begin

text \<open>
  The messages of \<open>src/proto/storage/v1/storage.proto\<close> and the segment files of \<open>src/segment\<close>: a segment is a RecordIO
  stream of document mutations. Enumerations are open in proto3 and are kept as integers. \<open>proto.Marshal\<close> and
  \<open>proto.Unmarshal\<close> are a codec. The scratch buffer of the writer is overwritten by every call.
\<close>

subsection \<open>storage.proto\<close>

definition MutationOp_PUT :: int where "MutationOp_PUT = 1"
definition MutationOp_DELETE :: int where "MutationOp_DELETE = 2"
definition Event_FORK :: int where "Event_FORK = 1"

record DocumentMutation =
  dm_Branch :: string
  dm_DocId :: string
  dm_Op :: int
  dm_Payload :: bytes

record BranchLifecycleEvent =
  be_Type :: int
  be_Branch :: string
  be_ParentBranch :: string

datatype WalRecord = WalEmpty | WalMutation DocumentMutation | WalBranchEvent BranchLifecycleEvent

fun GetMutation :: "WalRecord \<Rightarrow> DocumentMutation option" where
  "GetMutation (WalMutation m) = Some m"
| "GetMutation _ = None"

fun GetBranchEvent :: "WalRecord \<Rightarrow> BranchLifecycleEvent option" where
  "GetBranchEvent (WalBranchEvent e) = Some e"
| "GetBranchEvent _ = None"

subsection \<open>writer.go\<close>

abbreviation ErrNilMutation :: gerr where "ErrNilMutation \<equiv> Sentinel ''segment.ErrNilMutation''"

record seg_Writer =
  sw_Writer :: Writer
  sw_buf :: bytes

definition seg_NewWriter :: "sink \<Rightarrow> seg_Writer" where
  "seg_NewWriter out = \<lparr>sw_Writer = NewWriter out [], sw_buf = []\<rparr>"

definition seg_Write :: "DocumentMutation codec \<Rightarrow> seg_Writer \<Rightarrow> DocumentMutation option \<Rightarrow> gerr option \<times> seg_Writer" where
  "seg_Write cd w m =
     (case m of
        None \<Rightarrow> (Some ErrNilMutation, w)
      | Some mut \<Rightarrow>
          (case marshal cd mut of
             Inl err \<Rightarrow> (Some (Wrap ''segment write: marshal'' err), w\<lparr>sw_buf := []\<rparr>)
           | Inr buf \<Rightarrow>
               (case WriteRecord (sw_Writer w) buf of
                  ((_, _, Some err), w') \<Rightarrow> (Some (Wrap ''segment write'' err), w\<lparr>sw_buf := buf, sw_Writer := w'\<rparr>)
                | ((_, _, None), w') \<Rightarrow> (None, w\<lparr>sw_buf := buf, sw_Writer := w'\<rparr>))))"

text \<open>The loop over a batch, and the segment a batch becomes.\<close>

fun seg_write_all :: "DocumentMutation codec \<Rightarrow> seg_Writer \<Rightarrow> DocumentMutation list \<Rightarrow> gerr option \<times> seg_Writer" where
  "seg_write_all cd w [] = (None, w)"
| "seg_write_all cd w (m # ms) =
     (case seg_Write cd w (Some m) of
        (Some err, w') \<Rightarrow> (Some err, w')
      | (None, w') \<Rightarrow> seg_write_all cd w' ms)"

definition encode_segment :: "DocumentMutation codec \<Rightarrow> DocumentMutation list \<Rightarrow> bytes result" where
  "encode_segment cd mutations =
     (case seg_write_all cd (seg_NewWriter bytes_Buffer) mutations of
        (Some err, _) \<Rightarrow> Inl (Wrap ''write segment record'' err)
      | (None, w) \<Rightarrow>
          (case Writer_Close (sw_Writer w) of
             (Some err, _) \<Rightarrow> Inl (Wrap ''close segment writer'' err)
           | (None, w') \<Rightarrow> Inr (Writer_out w')))"

subsection \<open>reader.go\<close>

record seg_Reader =
  sr_s :: Scanner

definition seg_NewReader :: "source \<Rightarrow> seg_Reader" where
  "seg_NewReader r = \<lparr>sr_s = NewScanner r []\<rparr>"

definition seg_Next :: "DocumentMutation codec \<Rightarrow> seg_Reader \<Rightarrow> DocumentMutation result \<times> seg_Reader" where
  "seg_Next cd r =
     (case Scan (sr_s r) of
        (False, s) \<Rightarrow> (case Scanner_Err s of Some err \<Rightarrow> Inl err | None \<Rightarrow> Inl io_EOF, r\<lparr>sr_s := s\<rparr>)
      | (True, s) \<Rightarrow>
          (case unmarshal cd (Scanner_Record s) of
             Inl err \<Rightarrow> Inl (Wrap ''segment read: unmarshal'' err)
           | Inr m \<Rightarrow> Inr m, r\<lparr>sr_s := s\<rparr>))"

lemma seg_Next_progress:
  assumes "seg_Next cd r = (Inr m, r')"
  shows "length (Scanner_avail (sr_s r')) < length (Scanner_avail (sr_s r))"
  using assms Scan_progress [of "sr_s r" "sr_s r'"] by (auto simp: seg_Next_def split: prod.splits bool.splits option.splits)

text \<open>The loop of a reader: the mutations up to the first error, and that error (\<open>io.EOF\<close> at the end of the segment).\<close>

function seg_read_all :: "DocumentMutation codec \<Rightarrow> seg_Reader \<Rightarrow> DocumentMutation list \<times> gerr" where
  "seg_read_all cd r =
     (case seg_Next cd r of
        (Inl err, _) \<Rightarrow> ([], err)
      | (Inr m, r') \<Rightarrow> (case seg_read_all cd r' of (ms, err) \<Rightarrow> (m # ms, err)))"
  by pat_completeness auto
termination
  by (relation "measure (\<lambda>(cd, r). length (Scanner_avail (sr_s r)))") (auto dest: seg_Next_progress [OF sym])

declare seg_read_all.simps [simp del]

subsection \<open>Encoding\<close>

text \<open>The encodings of a batch, when every mutation of it can be encoded.\<close>

fun marshal_all :: "'a codec \<Rightarrow> 'a list \<Rightarrow> bytes list result" where
  "marshal_all cd [] = Inr []"
| "marshal_all cd (m # ms) =
     (case marshal cd m of
        Inl err \<Rightarrow> Inl err
      | Inr b \<Rightarrow> (case marshal_all cd ms of Inl err \<Rightarrow> Inl err | Inr bs \<Rightarrow> Inr (b # bs)))"

lemma seg_write_all_healthy:
  assumes "Writer_healthy (sw_Writer w)" and "marshal_all cd ms = Inr bs"
  shows "\<exists>w'. seg_write_all cd w ms = (None, w') \<and> Writer_healthy (sw_Writer w')
    \<and> Writer_bytes (sw_Writer w') = Writer_bytes (sw_Writer w) @ frames bs
    \<and> sk_close (bw_wr (w_bw (sw_Writer w'))) = sk_close (bw_wr (w_bw (sw_Writer w)))"
  using assms
proof (induction ms arbitrary: w bs)
  case (Cons m ms)
  from Cons.prems(2) obtain b bs' where b: "marshal cd m = Inr b" "marshal_all cd ms = Inr bs'" "bs = b # bs'"
    by (auto split: sum.splits)
  from WriteRecord_healthy [OF Cons.prems(1), of b] obtain x y w1
    where w1: "WriteRecord (sw_Writer w) b = ((x, y, None), w1)" "Writer_healthy w1"
      "sk_close (bw_wr (w_bw w1)) = sk_close (bw_wr (w_bw (sw_Writer w)))" by auto
  then have "Writer_bytes w1 = Writer_bytes (sw_Writer w) @ frame b" by (auto elim: WriteRecord_cases)
  with w1 Cons.IH [of "w\<lparr>sw_buf := b, sw_Writer := w1\<rparr>" bs'] b show ?case by (auto simp: seg_Write_def)
qed simp

lemma encode_segment_frames:
  assumes "marshal_all cd ms = Inr bs"
  shows "encode_segment cd ms = Inr (frames bs)"
proof -
  have "Writer_healthy (sw_Writer (seg_NewWriter bytes_Buffer))"
    by (simp add: seg_NewWriter_def NewWriter_bytes_Buffer)
  from seg_write_all_healthy [OF this assms] obtain w'
    where w': "seg_write_all cd (seg_NewWriter bytes_Buffer) ms = (None, w')" "Writer_healthy (sw_Writer w')"
      "Writer_bytes (sw_Writer w') = frames bs" "sk_close (bw_wr (w_bw (sw_Writer w'))) = None"
    by (auto simp: seg_NewWriter_def NewWriter_bytes_Buffer)
  with Writer_Close_healthy [OF w'(2,4)] show ?thesis by (auto simp: encode_segment_def)
qed

lemma encode_segment_error:
  assumes "marshal_all cd ms = Inl e"
  shows "\<exists>m. encode_segment cd ms = Inl (Wrap ''write segment record'' (Wrap m e))"
proof -
  have "\<exists>w'. seg_write_all cd w ms = (Some (Wrap ''segment write: marshal'' e), w')" if "Writer_healthy (sw_Writer w)" for w
    using that assms
  proof (induction ms arbitrary: w)
    case (Cons m ms)
    show ?case
    proof (cases "marshal cd m")
      case (Inl e')
      with Cons.prems(2) show ?thesis by (simp add: seg_Write_def)
    next
      case (Inr b)
      from WriteRecord_healthy [OF Cons.prems(1), of b] obtain x y w1
        where w1: "WriteRecord (sw_Writer w) b = ((x, y, None), w1)" "Writer_healthy w1" by auto
      with Cons.IH [of "w\<lparr>sw_buf := b, sw_Writer := w1\<rparr>"] Inr Cons.prems(2) show ?thesis
        by (auto simp: seg_Write_def split: sum.splits)
    qed
  qed simp
  from this [of "seg_NewWriter bytes_Buffer"] show ?thesis
    by (auto simp: encode_segment_def seg_NewWriter_def NewWriter_bytes_Buffer)
qed

subsection \<open>Reading back\<close>

lemma seg_read_all_scan:
  assumes "s_err s = None" and "scan_all s = (bs, s')"
  shows "\<forall>ms. map (unmarshal cd) bs = map Inr ms \<longrightarrow>
    seg_read_all cd \<lparr>sr_s = s\<rparr> = (ms, case Scanner_Err s' of Some e \<Rightarrow> e | None \<Rightarrow> io_EOF)"
  using assms
proof (induction s arbitrary: bs rule: scan_all.induct)
  case (1 s)
  obtain ok s1 where sc: "Scan s = (ok, s1)" by fastforce
  show ?case
  proof (cases ok)
    case False
    with "1.prems"(2) sc have "bs = []" "s' = s1" by (auto simp: scan_all.simps [of s])
    with False sc show ?thesis by (auto simp: seg_read_all.simps [of cd] seg_Next_def split: option.split)
  next
    case True
    then obtain rs where rs: "scan_all s1 = (rs, s')" "bs = Scanner_Record s1 # rs"
      using "1.prems"(2) sc by (auto simp: scan_all.simps [of s] split: prod.splits)
    have "s_err s1 = None" using Scan_parse [OF "1.prems"(1)] sc True by (auto split: parsed.splits)
    with "1.IH" [of True s1 rs] sc True rs have IH: "\<forall>ms. map (unmarshal cd) rs = map Inr ms \<longrightarrow>
        seg_read_all cd \<lparr>sr_s = s1\<rparr> = (ms, case Scanner_Err s' of Some e \<Rightarrow> e | None \<Rightarrow> io_EOF)" by simp
    from IH sc True rs(2) show ?thesis
      by (auto simp: seg_read_all.simps [of cd "\<lparr>sr_s = s\<rparr>"] seg_Next_def Cons_eq_map_conv)
  qed
qed

lemma marshal_all_unmarshal:
  assumes "codec_ok cd" and "marshal_all cd ms = Inr bs"
  shows "map (unmarshal cd) bs = map Inr ms"
  using assms(2)
  by (induction ms arbitrary: bs) (use assms(1) in \<open>auto simp: codec_ok_def split: sum.splits\<close>)

text \<open>A segment that was encoded reads back, whole and in order.\<close>

lemma segment_reads_back:
  assumes "codec_ok cd" and "marshal_all cd ms = Inr bs" and "\<forall>b \<in> set bs. int (length b) \<le> DefaultMaxRecordSize"
    and "src_rest src = frames bs" and "is_eof (src_end src)"
  shows "seg_read_all cd (seg_NewReader src) = (ms, io_EOF)"
proof -
  let ?s = "NewScanner src []"
  have s: "s_err ?s = None" "s_maxRecordSize ?s = DefaultMaxRecordSize" "Scanner_avail ?s = frames bs" "is_eof (Scanner_end ?s)"
    using assms(4,5) by (simp_all add: NewScanner_def Let_def Scanner_avail_def bufr_avail_def bufio_NewReaderSize_def Scanner_end_def)
  have "max_ok (s_maxRecordSize ?s)" by (simp add: s max_ok_def DefaultMaxRecordSize_def)
  from scan_all_whole [OF s(1) this _ s(3,4)] assms(3) obtain s' where "scan_all ?s = (bs, s')" "s_err s' = None"
    by (auto simp: s(2))
  with seg_read_all_scan [OF s(1) this(1), of cd] marshal_all_unmarshal [OF assms(1,2)] show ?thesis
    by (simp add: seg_NewReader_def Scanner_Err_def)
qed

end
