(* ===== verification/Sha256.thy ===== *)
theory Sha256
  imports Prelude
begin

text \<open>
  The two library functions that name a segment: \<open>crypto/sha256.Sum256\<close> (FIPS 180-4) and \<open>encoding/hex.EncodeToString\<close>.
  Both are executable. The lemmas give the alphabet of a name.
\<close>

subsection \<open>SHA-256\<close>

text \<open>The constants are the first 32 bits of the fractional parts of the roots of the first primes: with
  \<open>root k n b 0\<close> the largest number below \<open>2 ^ b\<close> whose \<open>k\<close>-th power is at most \<open>n\<close>, the root of \<open>p\<close> scaled by
  \<open>2 ^ 32\<close>, taken modulo \<open>2 ^ 32\<close>.\<close>

fun sha_root :: "nat \<Rightarrow> int \<Rightarrow> nat \<Rightarrow> int \<Rightarrow> int" where
  "sha_root k n 0 acc = acc"
| "sha_root k n (Suc b) acc = sha_root k n b (if (acc + 2 ^ b) ^ k \<le> n then acc + 2 ^ b else acc)"

definition sha_primes :: "int list" where
  "sha_primes = filter (\<lambda>p. list_all (\<lambda>d. p mod d \<noteq> 0) [2..p - 1]) [2..311]"

definition sha_K :: "u32 list" where
  "sha_K = map (\<lambda>p. word_of_int (sha_root 3 (p * 2 ^ 96) 36 0)) sha_primes"

definition sha_H0 :: "u32 list" where
  "sha_H0 = map (\<lambda>p. word_of_int (sha_root 2 (p * 2 ^ 64) 36 0)) (take 8 sha_primes)"

definition sha_Ch :: "u32 \<Rightarrow> u32 \<Rightarrow> u32 \<Rightarrow> u32" where "sha_Ch x y z = (x AND y) XOR (NOT x AND z)"
definition sha_Maj :: "u32 \<Rightarrow> u32 \<Rightarrow> u32 \<Rightarrow> u32" where "sha_Maj x y z = (x AND y) XOR (x AND z) XOR (y AND z)"
definition sha_S0 :: "u32 \<Rightarrow> u32" where "sha_S0 x = word_rotr 2 x XOR word_rotr 13 x XOR word_rotr 22 x"
definition sha_S1 :: "u32 \<Rightarrow> u32" where "sha_S1 x = word_rotr 6 x XOR word_rotr 11 x XOR word_rotr 25 x"
definition sha_s0 :: "u32 \<Rightarrow> u32" where "sha_s0 x = word_rotr 7 x XOR word_rotr 18 x XOR drop_bit 3 x"
definition sha_s1 :: "u32 \<Rightarrow> u32" where "sha_s1 x = word_rotr 17 x XOR word_rotr 19 x XOR drop_bit 10 x"

text \<open>Big-endian words.\<close>

definition be_bytes :: "nat \<Rightarrow> 'a::len word \<Rightarrow> bytes" where
  "be_bytes n w = rev (le_bytes n w)"

fun be_words :: "bytes \<Rightarrow> u32 list" where
  "be_words (a # b # c # d # rest) = le_word [d, c, b, a] # be_words rest"
| "be_words _ = []"

definition sha_pad :: "bytes \<Rightarrow> bytes" where
  "sha_pad msg =
     msg @ [0x80] @ replicate ((119 - length msg mod 64) mod 64) 0 @ be_bytes 8 (of_nat (8 * length msg) :: u64)"

text \<open>The message schedule, built from its last sixteen words, most recent first.\<close>

fun sha_extend :: "nat \<Rightarrow> u32 list \<Rightarrow> u32 list" where
  "sha_extend 0 ws = ws"
| "sha_extend (Suc n) ws = sha_extend n ((sha_s1 (ws ! 1) + ws ! 6 + sha_s0 (ws ! 14) + ws ! 15) # ws)"

definition sha_schedule :: "u32 list \<Rightarrow> u32 list" where
  "sha_schedule block = rev (sha_extend 48 (rev block))"

fun sha_round :: "u32 \<times> u32 \<Rightarrow> u32 list \<Rightarrow> u32 list" where
  "sha_round (k, w) [a, b, c, d, e, f, g, h] =
     (let t1 = h + sha_S1 e + sha_Ch e f g + k + w; t2 = sha_S0 a + sha_Maj a b c
      in [t1 + t2, a, b, c, d + t1, e, f, g])"
| "sha_round _ st = st"

definition sha_block :: "u32 list \<Rightarrow> u32 list \<Rightarrow> u32 list" where
  "sha_block st block = map2 (+) st (fold sha_round (zip sha_K (sha_schedule block)) st)"

fun sha_blocks :: "nat \<Rightarrow> u32 list \<Rightarrow> u32 list \<Rightarrow> u32 list" where
  "sha_blocks 0 ws st = st"
| "sha_blocks (Suc n) ws st = sha_blocks n (drop 16 ws) (sha_block st (take 16 ws))"

definition Sum256 :: "bytes \<Rightarrow> bytes" where
  "Sum256 data = (let ws = be_words (sha_pad data) in concat (map (be_bytes 4) (sha_blocks (length ws div 16) ws sha_H0)))"

subsection \<open>Hexadecimal\<close>

definition hex_char :: "nat \<Rightarrow> char" where
  "hex_char d = ''0123456789abcdef'' ! d"

definition EncodeToString :: "bytes \<Rightarrow> string" where
  "EncodeToString bs = concat (map (\<lambda>b. [hex_char (unat b div 16), hex_char (unat b mod 16)]) bs)"

subsection \<open>Names\<close>

lemma hex_char_range:
  assumes "d < 16"
  shows "hex_char d \<in> set ''0123456789abcdef''"
  unfolding hex_char_def by (rule nth_mem) (use assms in simp)

lemma EncodeToString_chars: "set (EncodeToString bs) \<subseteq> set ''0123456789abcdef''"
proof -
  have "unat b div 16 < 16 \<and> unat b mod 16 < 16" for b :: byte
  proof -
    have "unat b < 2 ^ 8" using unsigned_less [of b] by simp
    then show ?thesis by auto
  qed
  then have "\<forall>b \<in> set bs. set [hex_char (unat b div 16), hex_char (unat b mod 16)] \<subseteq> set ''0123456789abcdef''"
    using hex_char_range by (metis empty_subsetI insert_subset list.simps(15) set_empty)
  then show ?thesis unfolding EncodeToString_def set_concat set_map by blast
qed

lemma EncodeToString_no_slash: "CHR ''/'' \<notin> set (EncodeToString bs)"
  using EncodeToString_chars [of bs] by auto

end
