(* ===== verification/Flusher.thy ===== *)
theory Flusher
  imports Manifest Segment Sha256 Catalog Logstream
begin

text \<open>
  \<open>src/ingest/flusher.go\<close>: the process that turns the log of a namespace into segments and manifests. A stream flusher
  follows one log; for every batch it uploads a segment named by its content, then moves the manifest of the
  branch by compare-and-swap, then lists the branch. The flusher discovers the streams of the tenant.

  The codecs the process uses are one record. A context is the number the store calls get; the fresh contexts that
  \<open>shutdownFlush\<close> and discovery make are further arguments. What a \<open>select\<close> receives is the next event of a list; a
  stream with no event left waits. The goroutine of each stream runs against the same store, so the store of
  the contract (with its interference) is where their interleaving shows. Durations and log lines are left out.
\<close>

record codecs =
  cd_catalog :: "TenantCatalog codec"
  cd_branches :: "BranchCatalog codec"
  cd_manifest :: "BranchManifest codec"
  cd_wal :: "WalRecord codec"
  cd_mutation :: "DocumentMutation codec"

definition context_err :: "gerr \<Rightarrow> bool" where
  "context_err e \<longleftrightarrow> errors_is e context_Canceled \<or> errors_is e context_DeadlineExceeded"

record streamFlusher =
  sf_log :: Log
  sf_scope :: Scope
  sf_walPrefix :: string
  sf_pollInterval :: int
  sf_branchCheckpoints :: "string \<rightharpoonup> u64"

subsection \<open>Checkpoints\<close>

fun init_loop ::
    "'s Store \<Rightarrow> codecs \<Rightarrow> ctx \<Rightarrow> string list \<Rightarrow> u64 \<Rightarrow> bool \<Rightarrow> streamFlusher \<Rightarrow> 's \<Rightarrow> u64 result \<times> streamFlusher \<times> 's" where
  "init_loop S cds c [] minCheckpoint hasBranch sf s = (Inr (if hasBranch then minCheckpoint else 0), sf, s)"
| "init_loop S cds c (branch # branches) minCheckpoint hasBranch sf s =
     (case manifest_Read S (cd_manifest cds) c (ManifestKey (sf_scope sf) branch) s of
        (Inl err, s') \<Rightarrow>
          if errors_is err ErrNotFound then init_loop S cds c branches minCheckpoint hasBranch sf s'
          else (Inl (Wrap ''read branch manifest'' err), sf, s')
      | (Inr (m, _), s') \<Rightarrow>
          (let sf' = sf\<lparr>sf_branchCheckpoints := (sf_branchCheckpoints sf)(branch \<mapsto> bm_CheckpointSeq m)\<rparr>
           in if \<not> hasBranch \<or> bm_CheckpointSeq m < minCheckpoint
              then init_loop S cds c branches (bm_CheckpointSeq m) True sf' s'
              else init_loop S cds c branches minCheckpoint hasBranch sf' s'))"

definition initCheckpoints ::
    "'s Store \<Rightarrow> codecs \<Rightarrow> ctx \<Rightarrow> streamFlusher \<Rightarrow> 's \<Rightarrow> u64 result \<times> streamFlusher \<times> 's" where
  "initCheckpoints S cds c sf s =
     (case ListBranches S (cd_branches cds) c (sf_scope sf) s of
        (Inl err, s') \<Rightarrow> (Inl (Wrap ''list branches'' err), sf, s')
      | (Inr branches, s') \<Rightarrow> init_loop S cds c branches 0 False sf s')"

subsection \<open>Flushing a batch\<close>

definition manifest_or_new ::
    "'s Store \<Rightarrow> BranchManifest codec \<Rightarrow> ctx \<Rightarrow> string \<Rightarrow> 's \<Rightarrow> (BranchManifest \<times> string) result \<times> 's" where
  "manifest_or_new S cd c key s =
     (case manifest_Read S cd c key s of
        (Inr mg, s') \<Rightarrow> (Inr mg, s')
      | (Inl err, s') \<Rightarrow>
          (if errors_is err ErrNotFound
           then Inr (\<lparr>bm_CheckpointSeq = 0, bm_SchemaVersion = 1, bm_Segments = []\<rparr>, [])
           else Inl err, s'))"

text \<open>The loop of \<open>flushBranch\<close>, up to the call of \<open>AddBranch\<close> that both of its exits make; it returns the
  checkpoint to remember.\<close>

definition flush_loop ::
    "'s Store \<Rightarrow> BranchManifest codec \<Rightarrow> ctx \<Rightarrow> string \<Rightarrow> SegmentRef \<Rightarrow> u64 \<Rightarrow> 's \<Rightarrow> (u64 result \<times> 's) option" where
  "flush_loop S cd c manifestKey segRef seq =
     retry (cas_body
       (on_error (\<lambda>err. Inl (Wrap ''read branch manifest'' err)) (manifest_or_new S cd c manifestKey))
       (\<lambda>m gen.
          if bm_CheckpointSeq m \<ge> seq then Inl (Inr (bm_CheckpointSeq m))
          else Inr (m\<lparr>bm_Segments := bm_Segments m @ [segRef], bm_CheckpointSeq := seq\<rparr>))
       (\<lambda>m gen. manifest_Write S cd c manifestKey (Some m) gen)
       (\<lambda>_ _. Inr seq)
       (\<lambda>err. Inl (Wrap ''update branch'' err)))"

definition segment_name :: "bytes \<Rightarrow> string" where
  "segment_name data = EncodeToString (Sum256 data)"

definition flush_commit ::
    "'s Store \<Rightarrow> codecs \<Rightarrow> ctx \<Rightarrow> string \<Rightarrow> SegmentRef \<Rightarrow> u64 \<Rightarrow> streamFlusher \<Rightarrow> 's
      \<Rightarrow> (gerr option \<times> streamFlusher \<times> 's) option" where
  "flush_commit S cds c branch segRef seq sf s =
     (case flush_loop S (cd_manifest cds) c (ManifestKey (sf_scope sf) branch) segRef seq s of
        None \<Rightarrow> None
      | Some (Inl err, s1) \<Rightarrow> Some (Some err, sf, s1)
      | Some (Inr checkpoint, s1) \<Rightarrow>
          (case AddBranch S (cd_branches cds) c (sf_scope sf) branch s1 of
             None \<Rightarrow> None
           | Some (Inl err, s2) \<Rightarrow> Some (Some (Wrap ''add branch'' err), sf, s2)
           | Some (Inr _, s2) \<Rightarrow>
               Some (None, sf\<lparr>sf_branchCheckpoints := (sf_branchCheckpoints sf)(branch \<mapsto> checkpoint)\<rparr>, s2)))"

definition upload_failed :: "string result \<Rightarrow> gerr option" where
  "upload_failed r = (case r of Inl err \<Rightarrow> if errors_is err ErrPreconditionFailed then None else Some err | Inr _ \<Rightarrow> None)"

definition flushBranch ::
    "'s Store \<Rightarrow> codecs \<Rightarrow> ctx \<Rightarrow> string \<Rightarrow> DocumentMutation list \<Rightarrow> u64 \<Rightarrow> streamFlusher \<Rightarrow> 's
      \<Rightarrow> (gerr option \<times> streamFlusher \<times> 's) option" where
  "flushBranch S cds c branch mutations seq sf s =
     (if mutations = [] then Some (None, sf, s)
      else
        (case encode_segment (cd_mutation cds) mutations of
           Inl err \<Rightarrow> Some (Some err, sf, s)
         | Inr data \<Rightarrow>
             (let segID = segment_name data
              in (case Store_Put S c (SegmentKey (sf_scope sf) segID) (bytes_Reader data) cond_absent s of
                    (r, s1) \<Rightarrow>
                      (case upload_failed r of
                         Some err \<Rightarrow> Some (Some (Wrap ''upload segment'' err), sf, s1)
                       | None \<Rightarrow>
                           flush_commit S cds c branch
                             \<lparr>sg_SegmentId = segID, sg_DocCount = of_nat (length mutations), sg_DocsSize = int (length data)\<rparr>
                             seq sf s1)))))"

text \<open>The loop of \<open>processRecords\<close> over the records of a batch: the branch of its mutations, those not yet flushed, and
  the checkpoints, which a fork event raises.\<close>

fun collect ::
    "WalRecord codec \<Rightarrow> u64 \<Rightarrow> bytes list \<Rightarrow> string \<Rightarrow> DocumentMutation list \<Rightarrow> (string \<rightharpoonup> u64)
      \<Rightarrow> (string \<times> DocumentMutation list) result \<times> (string \<rightharpoonup> u64)" where
  "collect cd seq [] branch mutations checkpoints = (Inr (branch, mutations), checkpoints)"
| "collect cd seq (rec # records) branch mutations checkpoints =
     (case unmarshal cd rec of
        Inl err \<Rightarrow> (Inl (Wrap ''unmarshal wal record'' err), checkpoints)
      | Inr walRec \<Rightarrow>
          (case GetBranchEvent walRec of
             Some evt \<Rightarrow>
               collect cd seq records branch mutations
                 (if be_Type evt = Event_FORK \<and>
                     (case checkpoints (be_Branch evt) of None \<Rightarrow> True | Some lastSeq \<Rightarrow> seq > lastSeq)
                  then checkpoints(be_Branch evt \<mapsto> seq) else checkpoints)
           | None \<Rightarrow>
               (case GetMutation walRec of
                  None \<Rightarrow> collect cd seq records branch mutations checkpoints
                | Some mut \<Rightarrow>
                    if dm_Branch mut = [] then collect cd seq records branch mutations checkpoints
                    else if branch \<noteq> [] \<and> dm_Branch mut \<noteq> branch
                    then (Inl (ErrMsg ''wal entry holds mutations for two branches''), checkpoints)
                    else
                      collect cd seq records (dm_Branch mut)
                        (if (case checkpoints (dm_Branch mut) of None \<Rightarrow> False | Some lastSeq \<Rightarrow> seq \<le> lastSeq)
                         then mutations else mutations @ [mut])
                        checkpoints)))"

definition processRecords ::
    "'s Store \<Rightarrow> codecs \<Rightarrow> ctx \<Rightarrow> u64 \<Rightarrow> bytes list \<Rightarrow> streamFlusher \<Rightarrow> 's \<Rightarrow> (gerr option \<times> streamFlusher \<times> 's) option" where
  "processRecords S cds c seq records sf s =
     (case collect (cd_wal cds) seq records [] [] (sf_branchCheckpoints sf) of
        (Inl err, checkpoints) \<Rightarrow> Some (Some err, sf\<lparr>sf_branchCheckpoints := checkpoints\<rparr>, s)
      | (Inr (branch, mutations), checkpoints) \<Rightarrow>
          flushBranch S cds c branch mutations seq (sf\<lparr>sf_branchCheckpoints := checkpoints\<rparr>) s)"

subsection \<open>Following the log\<close>

partial_function (option) drain ::
    "'s Store \<Rightarrow> codecs \<Rightarrow> ctx \<Rightarrow> u64 \<Rightarrow> streamFlusher \<Rightarrow> 's \<Rightarrow> (gerr option \<times> streamFlusher \<times> 's) option" where
  "drain S cds c seq sf s =
     (case Log_Read S c (sf_log sf) seq s of
        (Inl err, s1) \<Rightarrow>
          Some (if errors_is err ErrEndOfStream then None else Some (Wrap ''drain log'' err), sf, s1)
      | (Inr records, s1) \<Rightarrow>
          (case processRecords S cds c seq records sf s1 of
             None \<Rightarrow> None
           | Some (Some err, sf', s2) \<Rightarrow> Some (Some err, sf', s2)
           | Some (None, sf', s2) \<Rightarrow> drain S cds c (seq + 1) sf' s2))"

definition shutdownFlush ::
    "'s Store \<Rightarrow> codecs \<Rightarrow> ctx \<Rightarrow> u64 \<Rightarrow> streamFlusher \<Rightarrow> 's \<Rightarrow> (gerr option \<times> streamFlusher \<times> 's) option" where
  "shutdownFlush S cds bg startSeq sf s =
     (if startSeq = 0
      then
        (case initCheckpoints S cds bg sf s of
           (Inl err, sf', s') \<Rightarrow> Some (Some (Wrap ''init checkpoints on shutdown'' err), sf', s')
         | (Inr minSeq, sf', s') \<Rightarrow> drain S cds bg (minSeq + 1) sf' s')
      else drain S cds bg startSeq sf s)"

text \<open>A stream either returns an error (or nil) or waits, at a sequence number, for its next event.\<close>

datatype stream_event = StreamDone | PollTimer
datatype stream_state = Returned "gerr option" | Waiting u64

definition returned :: "(gerr option \<times> streamFlusher \<times> 's) option \<Rightarrow> (stream_state \<times> streamFlusher \<times> 's) option" where
  "returned = map_option (\<lambda>(err, sf, s). (Returned err, sf, s))"

partial_function (option) stream_loop ::
    "'s Store \<Rightarrow> codecs \<Rightarrow> ctx \<Rightarrow> ctx \<Rightarrow> stream_event list \<Rightarrow> u64 \<Rightarrow> streamFlusher \<Rightarrow> 's
      \<Rightarrow> (stream_state \<times> streamFlusher \<times> 's) option" where
  "stream_loop S cds c bg evs seq sf s =
     (case Log_Read S c (sf_log sf) seq s of
        (Inl err, s1) \<Rightarrow>
          if errors_is err ErrEndOfStream
          then
            (case evs of
               [] \<Rightarrow> Some (Waiting seq, sf, s1)
             | StreamDone # _ \<Rightarrow> returned (shutdownFlush S cds bg seq sf s1)
             | PollTimer # evs' \<Rightarrow> stream_loop S cds c bg evs' seq sf s1)
          else if context_err err then returned (shutdownFlush S cds bg seq sf s1)
          else Some (Returned (Some (Wrap ''read log'' err)), sf, s1)
      | (Inr records, s1) \<Rightarrow>
          (case processRecords S cds c seq records sf s1 of
             None \<Rightarrow> None
           | Some (Some err, sf', s2) \<Rightarrow>
               if context_err err then returned (shutdownFlush S cds bg seq sf' s2)
               else Some (Returned (Some err), sf', s2)
           | Some (None, sf', s2) \<Rightarrow> stream_loop S cds c bg evs (seq + 1) sf' s2))"

definition stream_Run ::
    "'s Store \<Rightarrow> codecs \<Rightarrow> ctx \<Rightarrow> ctx \<Rightarrow> stream_event list \<Rightarrow> streamFlusher \<Rightarrow> 's
      \<Rightarrow> (stream_state \<times> streamFlusher \<times> 's) option" where
  "stream_Run S cds c bg evs sf s =
     (case initCheckpoints S cds c sf s of
        (Inl err, sf', s') \<Rightarrow>
          if context_err err then returned (shutdownFlush S cds bg 0 sf' s')
          else Some (Returned (Some err), sf', s')
      | (Inr minCheckpoint, sf', s') \<Rightarrow> stream_loop S cds c bg evs (minCheckpoint + 1) sf' s')"

subsection \<open>The flusher of a tenant\<close>

text \<open>The maps of the flusher, by log prefix; the contexts it cancelled; and the goroutines it started, each the run
  of a stream under its own context.\<close>

record Flusher =
  fl_PollInterval :: int
  fl_flushers :: "string \<rightharpoonup> streamFlusher"
  fl_cancels :: "string \<rightharpoonup> ctx"
  fl_cancelled :: "ctx set"
  fl_group :: "(streamFlusher \<times> ctx) list"

definition defaultPollInterval :: int where "defaultPollInterval = 100 * 1000000"

definition NewFlusher :: "'s Store option \<Rightarrow> int \<Rightarrow> Flusher result" where
  "NewFlusher store pollInterval =
     (if store = None then Inl (ErrMsg ''ingest: nil store'')
      else Inr \<lparr>fl_PollInterval = (if pollInterval \<le> 0 then defaultPollInterval else pollInterval),
                fl_flushers = Map.empty, fl_cancels = Map.empty, fl_cancelled = {}, fl_group = []\<rparr>)"

record streamTarget =
  st_scope :: Scope
  st_walPrefix :: string

definition discoverStreams :: "'s Store \<Rightarrow> codecs \<Rightarrow> ctx \<Rightarrow> 's \<Rightarrow> streamTarget list result \<times> 's" where
  "discoverStreams S cds c s =
     (case ActiveNamespaces (Some S) (cd_catalog cds) c s of
        (Inl err, s') \<Rightarrow> (Inl err, s')
      | (Inr namespaces, s') \<Rightarrow>
          (Inr (map (\<lambda>ns. let scope = \<lparr>sc_Namespace = ns\<rparr> in \<lparr>st_scope = scope, st_walPrefix = WALPrefix scope\<rparr>) namespaces), s'))"

text \<open>\<open>child\<close> names the context that \<open>context.WithCancel\<close> derives for a stream.\<close>

definition startStream :: "'s Store \<Rightarrow> (string \<Rightarrow> ctx) \<Rightarrow> streamTarget \<Rightarrow> Flusher \<Rightarrow> gerr option \<times> Flusher" where
  "startStream S child target f =
     (let p = st_walPrefix target
      in if fl_flushers f p \<noteq> None then (None, f)
         else
           (case Log_New (Some S) p of
              Inl err \<Rightarrow> (Some err, f)
            | Inr log \<Rightarrow>
                (let sf = \<lparr>sf_log = log, sf_scope = st_scope target, sf_walPrefix = p,
                           sf_pollInterval = fl_PollInterval f, sf_branchCheckpoints = Map.empty\<rparr>
                 in (None, f\<lparr>fl_flushers := (fl_flushers f)(p \<mapsto> sf), fl_cancels := (fl_cancels f)(p \<mapsto> child p),
                             fl_group := fl_group f @ [(sf, child p)]\<rparr>))))"

definition stopAllStreams :: "Flusher \<Rightarrow> Flusher" where
  "stopAllStreams f = f\<lparr>fl_cancelled := fl_cancelled f \<union> ran (fl_cancels f)\<rparr>"

fun startStreams :: "'s Store \<Rightarrow> (string \<Rightarrow> ctx) \<Rightarrow> streamTarget list \<Rightarrow> Flusher \<Rightarrow> gerr option \<times> Flusher" where
  "startStreams S child [] f = (None, f)"
| "startStreams S child (target # targets) f =
     (case startStream S child target f of
        (Some err, f') \<Rightarrow> (Some err, f')
      | (None, f') \<Rightarrow> startStreams S child targets f')"

datatype run_event = RunDone | RunTick

text \<open>How \<open>Run\<close> ends: with an error of its own, by waiting for the group of streams, or waiting for its next event.\<close>

datatype run_state = RunReturns "gerr option" | RunWaitsGroup | RunWaitsEvent

fun run_loop ::
    "'s Store \<Rightarrow> codecs \<Rightarrow> ctx \<Rightarrow> (string \<Rightarrow> ctx) \<Rightarrow> run_event list \<Rightarrow> Flusher \<Rightarrow> 's \<Rightarrow> run_state \<times> Flusher \<times> 's" where
  "run_loop S cds c child [] f s = (RunWaitsEvent, f, s)"
| "run_loop S cds c child (RunDone # evs) f s = (RunWaitsGroup, stopAllStreams f, s)"
| "run_loop S cds c child (RunTick # evs) f s =
     (case discoverStreams S cds c s of
        (Inl err, s') \<Rightarrow>
          if context_err err then (RunWaitsGroup, stopAllStreams f, s') else run_loop S cds c child evs f s'
      | (Inr targets, s') \<Rightarrow>
          (case startStreams S child targets f of
             (Some err, f') \<Rightarrow> (RunReturns (Some err), stopAllStreams f', s')
           | (None, f') \<Rightarrow> run_loop S cds c child evs f' s'))"

definition Flusher_Run ::
    "'s Store \<Rightarrow> codecs \<Rightarrow> ctx \<Rightarrow> ctx \<Rightarrow> ctx \<Rightarrow> (string \<Rightarrow> ctx) \<Rightarrow> run_event list \<Rightarrow> Flusher \<Rightarrow> 's \<Rightarrow> run_state \<times> Flusher \<times> 's" where
  "Flusher_Run S cds c discoverCtx shutdownCtx child evs f s =
     (let f0 = f\<lparr>fl_flushers := Map.empty, fl_cancels := Map.empty\<rparr>
      in (case discoverStreams S cds discoverCtx s of
            (Inl err, s1) \<Rightarrow>
              if context_err err
              then
                (case discoverStreams S cds shutdownCtx s1 of
                   (Inl _, s2) \<Rightarrow> (RunReturns None, f0, s2)
                 | (Inr targets, s2) \<Rightarrow>
                     (RunWaitsGroup, stopAllStreams (fold (\<lambda>target f. snd (startStream S child target f)) targets f0), s2))
              else (RunReturns (Some err), f0, s1)
          | (Inr targets, s1) \<Rightarrow>
              (case startStreams S child targets f0 of
                 (Some err, f1) \<Rightarrow> (RunReturns (Some err), f1, s1)
               | (None, f1) \<Rightarrow> run_loop S cds c child evs f1 s1)))"

end
