(* ===== verification/Flush_Contract.thy ===== *)
theory Flush_Contract
  imports Flusher Log_Contract
begin

text \<open>
  What the flushers of a namespace promise each other and their readers. Every manifest is \<open>built\<close> from the log: each of
  its segments is the segment of one log entry of the branch, in the order of the log, no entry twice and none left out
  up to the checkpoint, behind the segments of the branch it was forked from, if it was. Every entry up to a
  checkpoint, of whatever branch, has been flushed. Every segment a manifest names is in the store, under the
  name of its content.

  The locale \<open>flush_store\<close> is an object store whose other processes keep this (\<open>flush_rely\<close>); its lemmas show that every
  step of a flusher keeps it too and moves on. Names of segments are hashes: \<open>fc_data\<close> is the set of segment
  contents in play, on which the hash does not collide. \<open>fc_forks\<close> is the set of branches that may be made
  by a fork.
\<close>

record flush_ctx =
  fc_codecs :: codecs
  fc_scope :: Scope
  fc_data :: "bytes set"
  fc_forks :: "string set"

definition ok_branch :: "string \<Rightarrow> bool" where
  "ok_branch b \<longleftrightarrow> CHR ''/'' \<notin> set b"

subsection \<open>The entries of the log\<close>

definition entry_records :: "bytes \<Rightarrow> bytes list" where
  "entry_records x = fst (scan_all (NewScanner (bytes_Reader x) []))"

definition rec_mutation :: "WalRecord codec \<Rightarrow> bytes \<Rightarrow> DocumentMutation option" where
  "rec_mutation cd b =
     (case unmarshal cd b of
        Inr (WalMutation m) \<Rightarrow> if dm_Branch m = [] then None else Some m
      | _ \<Rightarrow> None)"

definition rec_event :: "WalRecord codec \<Rightarrow> bytes \<Rightarrow> bool" where
  "rec_event cd b = (case unmarshal cd b of Inr (WalBranchEvent _) \<Rightarrow> True | _ \<Rightarrow> False)"

text \<open>The mutations of entry \<open>i\<close> (counted from 1) for branch \<open>b\<close>.\<close>

definition batch_mutations :: "WalRecord codec \<Rightarrow> bytes list \<Rightarrow> DocumentMutation list" where
  "batch_mutations cd bs = List.map_filter (rec_mutation cd) bs"

definition entry_mutations :: "flush_ctx \<Rightarrow> bytes list \<Rightarrow> nat \<Rightarrow> DocumentMutation list" where
  "entry_mutations X xs i = batch_mutations (cd_wal (fc_codecs X)) (entry_records (xs ! (i - 1)))"

definition muts :: "flush_ctx \<Rightarrow> bytes list \<Rightarrow> string \<Rightarrow> nat \<Rightarrow> DocumentMutation list" where
  "muts X xs b i = (if 1 \<le> i \<and> i \<le> length xs then filter (\<lambda>m. dm_Branch m = b) (entry_mutations X xs i) else [])"

text \<open>What the writers of the log see to: an entry has mutations or events, not both; branch names are
  names; the contents are within \<open>fc_data\<close>.\<close>

definition entry_ok :: "flush_ctx \<Rightarrow> bytes list \<Rightarrow> nat \<Rightarrow> bool" where
  "entry_ok X xs i \<longleftrightarrow>
     (entry_mutations X xs i \<noteq> [] \<longrightarrow> (\<forall>b \<in> set (entry_records (xs ! (i - 1))). \<not> rec_event (cd_wal (fc_codecs X)) b))
     \<and> (\<forall>m \<in> set (entry_mutations X xs i). ok_branch (dm_Branch m))
     \<and> (\<forall>b data. muts X xs b i \<noteq> [] \<longrightarrow> encode_segment (cd_mutation (fc_codecs X)) (muts X xs b i) = Inr data \<longrightarrow> data \<in> fc_data X)"

definition wal_ok :: "flush_ctx \<Rightarrow> bytes list \<Rightarrow> bool" where
  "wal_ok X xs \<longleftrightarrow> (\<forall>i. 1 \<le> i \<longrightarrow> i \<le> length xs \<longrightarrow> entry_ok X xs i)"

subsection \<open>Manifests built from the log\<close>

definition new_manifest :: BranchManifest where
  "new_manifest = \<lparr>bm_CheckpointSeq = 0, bm_SchemaVersion = 1, bm_Segments = []\<rparr>"

definition seg_ref :: "DocumentMutation list \<Rightarrow> bytes \<Rightarrow> SegmentRef" where
  "seg_ref ms data =
     \<lparr>sg_SegmentId = segment_name data, sg_DocCount = of_nat (length ms), sg_DocsSize = int (length data)\<rparr>"

inductive built :: "flush_ctx \<Rightarrow> bytes list \<Rightarrow> string \<Rightarrow> BranchManifest \<Rightarrow> bool" for X xs where
  built_new: "built X xs b new_manifest"
| built_flush: "built X xs b m \<Longrightarrow> unat (bm_CheckpointSeq m) < i \<Longrightarrow> i \<le> length xs \<Longrightarrow> muts X xs b i \<noteq> [] \<Longrightarrow>
    (\<forall>j. unat (bm_CheckpointSeq m) < j \<longrightarrow> j < i \<longrightarrow> muts X xs b j = []) \<Longrightarrow>
    encode_segment (cd_mutation (fc_codecs X)) (muts X xs b i) = Inr data \<Longrightarrow>
    built X xs b (m\<lparr>bm_Segments := bm_Segments m @ [seg_ref (muts X xs b i) data], bm_CheckpointSeq := of_nat i\<rparr>)"
| built_fork: "built X xs b' m \<Longrightarrow> b \<in> fc_forks X \<Longrightarrow> built X xs b m"

definition manifest_at :: "flush_ctx \<Rightarrow> view \<Rightarrow> string \<Rightarrow> BranchManifest \<Rightarrow> bool" where
  "manifest_at X v b m \<longleftrightarrow>
     (\<exists>d g. v (ManifestKey (fc_scope X) b) = Some (d, g) \<and> unmarshal (cd_manifest (fc_codecs X)) d = Inr m)"

text \<open>Every entry up to \<open>k\<close> has reached the manifest of its branch.\<close>

definition flushed_upto :: "flush_ctx \<Rightarrow> bytes list \<Rightarrow> view \<Rightarrow> nat \<Rightarrow> bool" where
  "flushed_upto X xs v k \<longleftrightarrow> k \<le> length xs \<and>
     (\<forall>i b. i \<le> k \<longrightarrow> muts X xs b i \<noteq> [] \<longrightarrow> (\<exists>m. manifest_at X v b m \<and> i \<le> unat (bm_CheckpointSeq m)))"

abbreviation segment_at :: "flush_ctx \<Rightarrow> view \<Rightarrow> string \<Rightarrow> (bytes \<times> string) option" where
  "segment_at X v name \<equiv> v (SegmentKey (fc_scope X) name)"

definition segments_ok :: "flush_ctx \<Rightarrow> view \<Rightarrow> bool" where
  "segments_ok X v \<longleftrightarrow>
     (\<forall>data d g. segment_at X v (segment_name data) = Some (d, g) \<longrightarrow> segment_name d = segment_name data \<and> d \<in> fc_data X)"

definition manifest_ok :: "flush_ctx \<Rightarrow> bytes list \<Rightarrow> view \<Rightarrow> string \<Rightarrow> BranchManifest \<Rightarrow> bool" where
  "manifest_ok X xs v b m \<longleftrightarrow> built X xs b m \<and> flushed_upto X xs v (unat (bm_CheckpointSeq m))
     \<and> (\<forall>ref \<in> set (bm_Segments m). \<exists>data d g. sg_SegmentId ref = segment_name data \<and> segment_at X v (segment_name data) = Some (d, g))"

definition branches_ok :: "flush_ctx \<Rightarrow> view \<Rightarrow> bool" where
  "branches_ok X v \<longleftrightarrow>
     (\<forall>bs. branches_are (cd_branches (fc_codecs X)) v (fc_scope X) bs \<longrightarrow> (\<forall>b. b |\<in>| fmdom bs \<longrightarrow> ok_branch b))"

definition flush_inv :: "flush_ctx \<Rightarrow> bytes list \<Rightarrow> view \<Rightarrow> bool" where
  "flush_inv X xs v \<longleftrightarrow> log_is (WALPrefix (fc_scope X)) xs v \<and> wal_ok X xs \<and> segments_ok X v \<and> branches_ok X v
     \<and> (\<forall>b m. ok_branch b \<longrightarrow> manifest_at X v b m \<longrightarrow> manifest_ok X xs v b m)"

text \<open>Progress between two moments: manifests grow, segments stay.\<close>

definition flush_le :: "flush_ctx \<Rightarrow> view \<Rightarrow> view \<Rightarrow> bool" where
  "flush_le X v v' \<longleftrightarrow>
     (\<forall>b m. ok_branch b \<longrightarrow> manifest_at X v b m \<longrightarrow> (\<exists>m'. manifest_at X v' b m' \<and> grown m m'))
     \<and> (\<forall>data. segment_at X v (segment_name data) \<noteq> None \<longrightarrow> segment_at X v' (segment_name data) \<noteq> None)"

definition flush_to :: "flush_ctx \<Rightarrow> bytes list \<Rightarrow> view \<Rightarrow> view \<Rightarrow> bool" where
  "flush_to X xs v v' \<longleftrightarrow> (\<exists>ys. prefix xs ys \<and> flush_inv X ys v' \<and> flush_le X v v')"

definition flush_rely :: "flush_ctx \<Rightarrow> view \<Rightarrow> view \<Rightarrow> bool" where
  "flush_rely X v v' \<longleftrightarrow> log_rely (WALPrefix (fc_scope X)) v v' \<and> (\<forall>xs. flush_inv X xs v \<longrightarrow> flush_to X xs v v')"

subsection \<open>Order\<close>

lemma flush_le_refl [simp]: "flush_le X v v"
  unfolding flush_le_def using grown_refl by blast

lemma flush_le_trans: "flush_le X a b \<Longrightarrow> flush_le X b c \<Longrightarrow> flush_le X a c"
  unfolding flush_le_def using grown_trans by meson

lemma flush_to_refl [simp]: "flush_inv X xs v \<Longrightarrow> flush_to X xs v v"
  unfolding flush_to_def using prefix_order.refl flush_le_refl by blast

lemma flush_rely_refl [simp]: "flush_rely X v v"
  by (simp add: flush_rely_def)

lemma flush_inv_log: "flush_inv X xs v \<Longrightarrow> log_is (WALPrefix (fc_scope X)) xs v"
  by (simp add: flush_inv_def)

lemma flush_to_trans:
  assumes "flush_to X xs a b" and "\<And>ys. flush_inv X ys b \<Longrightarrow> prefix xs ys \<Longrightarrow> flush_to X ys b c"
  shows "flush_to X xs a c"
proof -
  from assms(1) obtain ys where ys: "prefix xs ys" "flush_inv X ys b" "flush_le X a b" unfolding flush_to_def by blast
  from assms(2) [OF ys(2,1)] obtain zs where "prefix ys zs" "flush_inv X zs c" "flush_le X b c" unfolding flush_to_def by blast
  with ys show ?thesis unfolding flush_to_def using flush_le_trans prefix_order.trans by blast
qed

lemma flush_rely_rtrancl:
  assumes "(flush_rely X)\<^sup>*\<^sup>* v v'" and "flush_inv X xs v"
  shows "flush_to X xs v v'"
  using assms(1)
proof (induction rule: rtranclp_induct)
  case base
  then show ?case using assms(2) by simp
next
  case (step y z)
  show ?case by (rule flush_to_trans [OF step.IH]) (use step.hyps(2) in \<open>auto simp: flush_rely_def\<close>)
qed

lemma muts_prefix:
  assumes "prefix xs ys" and "i \<le> length xs"
  shows "muts X ys b i = muts X xs b i"
proof -
  have "ys ! (i - 1) = xs ! (i - 1)" if "1 \<le> i"
    using assms that by (auto simp: prefix_def nth_append)
  then show ?thesis using assms prefix_length_le [OF assms(1)] by (auto simp: muts_def entry_mutations_def)
qed

lemma built_bound:
  assumes "built X xs b m" and "length xs < 2 ^ 64"
  shows "unat (bm_CheckpointSeq m) \<le> length xs"
  using assms
proof (induction rule: built.induct)
  case (built_flush b m i data)
  then have "unat (of_nat i :: u64) = i" by (intro unat_of_nat_u64) simp
  with built_flush show ?case by simp
qed (simp_all add: new_manifest_def)

lemma built_mono:
  assumes "built X xs b m" and "prefix xs ys"
  shows "built X ys b m"
  using assms(1)
proof (induction rule: built.induct)
  case (built_flush b m i data)
  have eq: "muts X ys b j = muts X xs b j" if "j \<le> i" for j
    using muts_prefix [OF assms(2)] that built_flush.hyps(3) by simp
  have "i \<le> length ys" using built_flush.hyps(3) prefix_length_le [OF assms(2)] by simp
  with built.built_flush [of X ys b m i data] built_flush eq show ?case by simp
qed (auto intro: built.intros)

lemma muts_ok_branch:
  assumes "wal_ok X xs" and "muts X xs b i \<noteq> []"
  shows "ok_branch b"
proof -
  from assms(2) have i: "1 \<le> i" "i \<le> length xs" by (auto simp: muts_def split: if_splits)
  from assms(2) obtain m where "m \<in> set (muts X xs b i)" by (cases "muts X xs b i") auto
  then have "m \<in> set (entry_mutations X xs i)" "dm_Branch m = b" by (auto simp: muts_def split: if_splits)
  with assms(1) i show ?thesis unfolding wal_ok_def entry_ok_def by blast
qed

lemma flushed_upto_mono:
  assumes "flushed_upto X xs v k" and "prefix xs ys" and "flush_le X v v'" and "wal_ok X xs" and "j \<le> k"
  shows "flushed_upto X ys v' j"
  unfolding flushed_upto_def
proof (intro conjI allI impI)
  show "j \<le> length ys" using assms(1,5) prefix_length_le [OF assms(2)] by (simp add: flushed_upto_def)
  fix i b assume i: "i \<le> j" "muts X ys b i \<noteq> []"
  with assms(1,5) muts_prefix [OF assms(2)] have len: "i \<le> length xs" and mx: "muts X xs b i \<noteq> []"
    by (auto simp: flushed_upto_def)
  with i assms(1,5) obtain m where m: "manifest_at X v b m" "i \<le> unat (bm_CheckpointSeq m)"
    unfolding flushed_upto_def by (meson le_trans)
  have "ok_branch b" by (rule muts_ok_branch [OF assms(4) mx])
  with m(1) assms(3) obtain m' where "manifest_at X v' b m'" "grown m m'" unfolding flush_le_def by blast
  with m(2) grown_mono [OF this(2)] show "\<exists>m. manifest_at X v' b m \<and> i \<le> unat (bm_CheckpointSeq m)"
    by (auto simp: word_le_nat_alt intro: le_trans)
qed

text \<open>The manifest of a branch that is never forked: the segments of its entries, each once, in order.\<close>

definition branch_refs :: "flush_ctx \<Rightarrow> bytes list \<Rightarrow> string \<Rightarrow> nat \<Rightarrow> SegmentRef list" where
  "branch_refs X xs b k =
     concat (map (\<lambda>i. case encode_segment (cd_mutation (fc_codecs X)) (muts X xs b i) of
          Inl _ \<Rightarrow> [] | Inr data \<Rightarrow> if muts X xs b i = [] then [] else [seg_ref (muts X xs b i) data]) [1..<Suc k])"

lemma branch_refs_gap:
  assumes "j \<le> k" and "\<forall>i. j < i \<longrightarrow> i \<le> k \<longrightarrow> muts X xs b i = []"
  shows "branch_refs X xs b k = branch_refs X xs b j"
proof -
  have "[1..<Suc k] = [1..<Suc j] @ [Suc j..<Suc k]"
    using upt_add_eq_append [of 1 "Suc j" "k - j"] assms(1) by (simp del: upt_Suc)
  moreover have "muts X xs b i = []" if "i \<in> set [Suc j..<Suc k]" for i using that assms(2) by auto
  ultimately show ?thesis unfolding branch_refs_def by (auto simp: concat_eq_Nil_conv split: sum.splits simp del: upt_Suc)
qed

lemma built_unforked:
  assumes "built X xs b m" and "b \<notin> fc_forks X" and "length xs < 2 ^ 64"
  shows "bm_Segments m = branch_refs X xs b (unat (bm_CheckpointSeq m))"
  using assms
proof (induction rule: built.induct)
  case (built_new b)
  then show ?case by (simp add: new_manifest_def branch_refs_def)
next
  case (built_flush b m i data)
  have i: "unat (of_nat i :: u64) = i" using built_flush.hyps(3) built_flush.prems(2) by (intro unat_of_nat_u64) simp
  have "branch_refs X xs b (i - 1) = branch_refs X xs b (unat (bm_CheckpointSeq m))"
    using built_flush.hyps(2,5) by (intro branch_refs_gap) auto
  moreover have "[1..<Suc i] = [1..<Suc (i - 1)] @ [i]" using built_flush.hyps(2) by (cases i) auto
  ultimately show ?case
    using built_flush i by (simp add: branch_refs_def del: upt_Suc)
qed simp

subsection \<open>The three writes of a flusher\<close>

lemma log_is_elsewhere:
  assumes "log_is p xs v" and "\<not> prefix (p @ ''/'') k"
  shows "log_is p xs (v(k := o'))"
proof -
  have "segmentKey p q \<noteq> k" for q using assms(2) segmentKey_prefix by metis
  then show ?thesis using assms unfolding log_is_def by auto
qed

lemma segment_name_no_slash [simp]: "CHR ''/'' \<notin> set (segment_name data)"
  by (simp add: segment_name_def EncodeToString_no_slash)

lemma flush_keys:
  assumes "valid_scope sc"
  shows "SegmentKey sc (segment_name d) = SegmentKey sc (segment_name d') \<longleftrightarrow> segment_name d = segment_name d'"
    and "ok_branch b \<Longrightarrow> ok_branch b' \<Longrightarrow> ManifestKey sc b = ManifestKey sc b' \<longleftrightarrow> b = b'"
    and "ok_branch b \<Longrightarrow> ManifestKey sc b \<noteq> SegmentKey sc (segment_name d)"
    and "ok_branch b \<Longrightarrow> ManifestKey sc b \<noteq> branchesKey sc"
    and "SegmentKey sc (segment_name d) \<noteq> branchesKey sc"
  using object_key_inject [of "Segment sc (segment_name d)" "Segment sc (segment_name d')"]
    object_key_inject [of "Manifest sc b" "Manifest sc b'"] object_key_inject [of "Manifest sc b" "Segment sc (segment_name d)"]
    object_key_inject [of "Manifest sc b" "Branches sc"] object_key_inject [of "Segment sc (segment_name d)" "Branches sc"] assms
  by (auto simp: ok_branch_def)

lemma flush_keys_not_log:
  assumes "valid_scope sc"
  shows "\<not> prefix (WALPrefix sc @ ''/'') (SegmentKey sc (segment_name d))"
    and "ok_branch b \<Longrightarrow> \<not> prefix (WALPrefix sc @ ''/'') (ManifestKey sc b)"
    and "\<not> prefix (WALPrefix sc @ ''/'') (branchesKey sc)"
  using WAL_region [OF assms, of "Segment sc (segment_name d)"] WAL_region [OF assms, of "Manifest sc b"]
    WAL_region [OF assms, of "Branches sc"] assms
  by (auto simp: ok_branch_def)

text \<open>Two views with the same log, manifests and segments.\<close>

lemma flush_inv_cong:
  assumes "flush_inv X xs v" and "log_is (WALPrefix (fc_scope X)) xs v'"
    and "\<forall>b. ok_branch b \<longrightarrow> v' (ManifestKey (fc_scope X) b) = v (ManifestKey (fc_scope X) b)"
    and "\<forall>data. segment_at X v (segment_name data) \<noteq> None \<longrightarrow> segment_at X v' (segment_name data) = segment_at X v (segment_name data)"
    and "segments_ok X v'" and "branches_ok X v'"
  shows "flush_inv X xs v' \<and> flush_le X v v'"
proof -
  have man: "manifest_at X v' b m \<longleftrightarrow> manifest_at X v b m" if "ok_branch b" for b m
    using assms(3) that by (simp add: manifest_at_def)
  have le: "flush_le X v v'"
    unfolding flush_le_def using man assms(4) grown_refl by auto
  have wal: "wal_ok X xs" using assms(1) by (simp add: flush_inv_def)
  have "manifest_ok X xs v' b m" if "ok_branch b" "manifest_at X v' b m" for b m
  proof -
    from that man assms(1) have "manifest_ok X xs v b m" by (simp add: flush_inv_def)
    moreover from this flushed_upto_mono [OF _ prefix_order.refl le wal order.refl]
    have "flushed_upto X xs v' (unat (bm_CheckpointSeq m))" by (simp add: manifest_ok_def)
    ultimately show ?thesis using assms(4) unfolding manifest_ok_def by (metis option.simps(3))
  qed
  with assms(2,5,6) wal le show ?thesis by (simp add: flush_inv_def)
qed

lemma flush_inv_segment:
  assumes "valid_scope (fc_scope X)" and "flush_inv X xs v" and "data \<in> fc_data X"
    and "segment_at X v (segment_name data) = None"
  shows "flush_inv X xs (v(SegmentKey (fc_scope X) (segment_name data) \<mapsto> (data, g)))
    \<and> flush_le X v (v(SegmentKey (fc_scope X) (segment_name data) \<mapsto> (data, g)))"
proof (rule flush_inv_cong [OF assms(2)])
  note keys = flush_keys [OF assms(1)]
  show "log_is (WALPrefix (fc_scope X)) xs (v(SegmentKey (fc_scope X) (segment_name data) \<mapsto> (data, g)))"
    by (rule log_is_elsewhere [OF flush_inv_log [OF assms(2)] flush_keys_not_log(1) [OF assms(1)]])
  show "segments_ok X (v(SegmentKey (fc_scope X) (segment_name data) \<mapsto> (data, g)))"
    using assms(2,3) by (auto simp: flush_inv_def segments_ok_def keys)
  show "branches_ok X (v(SegmentKey (fc_scope X) (segment_name data) \<mapsto> (data, g)))"
    using assms(2) keys(5) [of data, symmetric] by (simp add: flush_inv_def branches_ok_def meaning_def)
qed (use assms(4) flush_keys [OF assms(1)] in auto)

lemma flush_inv_branches:
  assumes "valid_scope (fc_scope X)" and "flush_inv X xs v"
    and "unmarshal (cd_branches (fc_codecs X)) d = Inr \<lparr>bc_Branches = bs\<rparr>" and "\<forall>b. b |\<in>| fmdom bs \<longrightarrow> ok_branch b"
  shows "flush_inv X xs (v(branchesKey (fc_scope X) \<mapsto> (d, g))) \<and> flush_le X v (v(branchesKey (fc_scope X) \<mapsto> (d, g)))"
proof (rule flush_inv_cong [OF assms(2)])
  note keys = flush_keys [OF assms(1)]
  show "log_is (WALPrefix (fc_scope X)) xs (v(branchesKey (fc_scope X) \<mapsto> (d, g)))"
    by (rule log_is_elsewhere [OF flush_inv_log [OF assms(2)] flush_keys_not_log(3) [OF assms(1)]])
  show "segments_ok X (v(branchesKey (fc_scope X) \<mapsto> (d, g)))"
    using assms(2) by (auto simp: flush_inv_def segments_ok_def keys)
  show "branches_ok X (v(branchesKey (fc_scope X) \<mapsto> (d, g)))"
    using assms(3,4) by (simp add: branches_ok_def meaning_def)
qed (use flush_keys [OF assms(1)] in auto)

text \<open>Moving a manifest to the next entry of its branch.\<close>

definition flushes :: "flush_ctx \<Rightarrow> bytes list \<Rightarrow> view \<Rightarrow> string \<Rightarrow> nat \<Rightarrow> bytes \<Rightarrow> bool" where
  "flushes X xs v b i data \<longleftrightarrow> ok_branch b \<and> 1 \<le> i \<and> i \<le> length xs \<and> muts X xs b i \<noteq> []
     \<and> (\<forall>b'. muts X xs b' i \<noteq> [] \<longrightarrow> b' = b) \<and> flushed_upto X xs v (i - 1)
     \<and> encode_segment (cd_mutation (fc_codecs X)) (muts X xs b i) = Inr data
     \<and> (\<exists>d g. segment_at X v (segment_name data) = Some (d, g))"

lemma flushes_mono:
  assumes "flushes X xs v b i data" and "prefix xs ys" and "flush_le X v v'" and "wal_ok X xs"
  shows "flushes X ys v' b i data"
proof -
  have eq: "muts X ys b' i = muts X xs b' i" for b'
    using assms(1) muts_prefix [OF assms(2)] by (simp add: flushes_def)
  have len: "i \<le> length ys" using assms(1) prefix_length_le [OF assms(2)] by (simp add: flushes_def)
  have "segment_at X v (segment_name data) \<noteq> None" using assms(1) by (auto simp: flushes_def)
  with assms(3) have "segment_at X v' (segment_name data) \<noteq> None" unfolding flush_le_def by blast
  then have seg: "\<exists>d g. segment_at X v' (segment_name data) = Some (d, g)" by auto
  have "flushed_upto X xs v (i - 1)" using assms(1) by (simp add: flushes_def)
  from flushed_upto_mono [OF this assms(2-4) order.refl] have up: "flushed_upto X ys v' (i - 1)" .
  show ?thesis using assms(1) eq len seg up unfolding flushes_def by simp
qed

lemma flush_inv_manifest:
  assumes sc: "valid_scope (fc_scope X)" and inv: "flush_inv X xs v" and fl: "flushes X xs v b i data"
    and m: "meaning (cd_manifest (fc_codecs X)) new_manifest v (ManifestKey (fc_scope X) b) m" "unat (bm_CheckpointSeq m) < i"
    and m': "m' = m\<lparr>bm_Segments := bm_Segments m @ [seg_ref (muts X xs b i) data], bm_CheckpointSeq := of_nat i\<rparr>"
    and d: "unmarshal (cd_manifest (fc_codecs X)) d = Inr m'"
    and v': "v' = v(ManifestKey (fc_scope X) b \<mapsto> (d, g))"
  shows "flush_inv X xs v' \<and> flush_le X v v' \<and> flushed_upto X xs v' i"
proof -
  note keys = flush_keys [OF sc]
  have b: "ok_branch b" and i: "1 \<le> i" "i \<le> length xs" using fl by (simp_all add: flushes_def)
  have i64: "unat (of_nat i :: u64) = i"
    using i(2) log_is_length [OF flush_inv_log [OF inv]] by (intro unat_of_nat_u64) simp
  have wal: "wal_ok X xs" using inv by (simp add: flush_inv_def)
  have seg: "segment_at X v' (segment_name data') = segment_at X v (segment_name data')" for data'
    using keys(3) [OF b, of data'] by (auto simp: v')
  have new: "manifest_at X v' b n \<longleftrightarrow> n = m'" for n using d by (auto simp: manifest_at_def v')
  have old: "manifest_at X v' b' n \<longleftrightarrow> manifest_at X v b' n" if "ok_branch b'" "b' \<noteq> b" for b' n
    using keys(2) [OF that(1) b] that(2) by (simp add: manifest_at_def v')
  have prev: "manifest_at X v b m \<or> m = new_manifest \<and> (\<forall>n. \<not> manifest_at X v b n)"
    using m(1) by (auto simp: meaning_def manifest_at_def split: option.splits)
  have grow: "grown m m'"
    unfolding m' using m(2) i64 by (intro grown_add grown_refl) (simp add: word_less_nat_alt)
  have le: "flush_le X v v'"
    unfolding flush_le_def
  proof (intro conjI allI impI)
    fix b' n assume n: "ok_branch b'" "manifest_at X v b' n"
    show "\<exists>m'. manifest_at X v' b' m' \<and> grown n m'"
    proof (cases "b' = b")
      case True
      with n(2) prev have "n = m" by (auto simp: manifest_at_def)
      with True new grow show ?thesis by blast
    qed (use old n grown_refl in blast)
  qed (simp add: seg)
  have up: "flushed_upto X xs v' i"
    unfolding flushed_upto_def
  proof (intro conjI allI impI)
    fix j b' assume j: "j \<le> i" "muts X xs b' j \<noteq> []"
    show "\<exists>m. manifest_at X v' b' m \<and> j \<le> unat (bm_CheckpointSeq m)"
    proof (cases "j = i")
      case True
      with j(2) fl have "b' = b" by (simp add: flushes_def)
      with new True i64 show ?thesis by (auto simp: m')
    next
      case False
      have "flushed_upto X xs v' (i - 1)"
        using fl flushed_upto_mono [OF _ prefix_order.refl le wal order.refl] by (simp add: flushes_def)
      with False j show ?thesis by (auto simp: flushed_upto_def)
    qed
  qed (rule i(2))
  have built: "built X xs b m'"
    unfolding m'
  proof (rule built_flush)
    from prev show "built X xs b m"
      using inv b by (auto simp: flush_inv_def manifest_ok_def intro: built_new)
    show "\<forall>j. unat (bm_CheckpointSeq m) < j \<longrightarrow> j < i \<longrightarrow> muts X xs b j = []"
    proof (intro allI impI, rule ccontr)
      fix j assume j: "unat (bm_CheckpointSeq m) < j" "j < i" "muts X xs b j \<noteq> []"
      moreover from j(2) have "j \<le> i - 1" by simp
      ultimately obtain n where "manifest_at X v b n" "j \<le> unat (bm_CheckpointSeq n)"
        using fl unfolding flushes_def flushed_upto_def by blast
      with prev j(1) show False by (auto simp: manifest_at_def)
    qed
  qed (use fl m(2) i in \<open>auto simp: flushes_def\<close>)
  have "manifest_ok X xs v' b' n" if "ok_branch b'" "manifest_at X v' b' n" for b' n
  proof (cases "b' = b")
    case True
    with that new have n: "n = m'" by simp
    have "\<forall>ref \<in> set (bm_Segments m). \<exists>data d g. sg_SegmentId ref = segment_name data \<and> segment_at X v (segment_name data) = Some (d, g)"
      using prev inv b by (auto simp: flush_inv_def manifest_ok_def new_manifest_def)
    moreover have "sg_SegmentId (seg_ref (muts X xs b i) data) = segment_name data" by (simp add: seg_ref_def)
    ultimately show ?thesis
      using built up True i64 fl unfolding manifest_ok_def n by (auto simp: m' seg flushes_def)
  next
    case False
    with that old inv have "manifest_ok X xs v b' n" by (simp add: flush_inv_def)
    with flushed_upto_mono [OF _ prefix_order.refl le wal order.refl] show ?thesis by (auto simp: manifest_ok_def seg)
  qed
  moreover have "log_is (WALPrefix (fc_scope X)) xs v'"
    unfolding v' by (rule log_is_elsewhere [OF flush_inv_log [OF inv] flush_keys_not_log(2) [OF sc b]])
  moreover have "segments_ok X v'" using inv by (simp add: flush_inv_def segments_ok_def seg)
  moreover have "branches_ok X v'"
    using inv keys(4) [OF b, symmetric] by (simp add: flush_inv_def branches_ok_def meaning_def v')
  ultimately show ?thesis using wal le up by (simp add: flush_inv_def)
qed

end
