(* ===== verification/Flush_Steps.thy ===== *)
theory Flush_Steps
  imports Flush_Contract
begin

text \<open>
  The steps of a flusher in a store whose other processes keep \<open>flush_rely\<close>: each of them keeps the invariant
  \<open>flush_inv\<close>, and a step that succeeds has flushed its entry. \<open>moves\<close> is the common shape of these lemmas.
\<close>

subsection \<open>Records of a batch\<close>

lemma entry_records_frames:
  assumes "\<forall>r \<in> set rs. int (length r) \<le> DefaultMaxRecordSize"
  shows "entry_records (frames rs) = rs"
proof -
  let ?s = "NewScanner (bytes_Reader (frames rs)) []"
  have "max_ok (s_maxRecordSize ?s)" by (simp add: NewScanner_default max_ok_def DefaultMaxRecordSize_def)
  from scan_all_whole [OF NewScanner_default(1) this, of rs] assms show ?thesis
    by (auto simp: entry_records_def NewScanner_default bytes_Reader_def is_eof_def)
qed

definition already :: "(string \<rightharpoonup> u64) \<Rightarrow> string \<Rightarrow> u64 \<Rightarrow> bool" where
  "already cps b seq = (case cps b of None \<Rightarrow> False | Some lastSeq \<Rightarrow> seq \<le> lastSeq)"

lemma batch_mutations_Nil [simp]: "batch_mutations cd [] = []"
  by (simp add: batch_mutations_def map_filter_simps)

lemma batch_mutations_Cons:
  "batch_mutations cd (b # bs) = (case rec_mutation cd b of None \<Rightarrow> [] | Some m \<Rightarrow> [m]) @ batch_mutations cd bs"
  by (simp add: batch_mutations_def map_filter_simps split: option.split)

text \<open>What the loop over a batch finds.\<close>

lemma collect_spec:
  assumes "codec_ok cd" and "collect cd seq recs branch ms cps = (r, cps')"
  shows "(\<forall>b. cps' b = cps b \<or> cps' b = Some seq \<and> (\<exists>x \<in> set recs. rec_event cd x)) \<and>
    (case r of
       Inl e \<Rightarrow> \<not> context_err e
     | Inr (branch', ms') \<Rightarrow>
         (batch_mutations cd recs = [] \<longrightarrow> branch' = branch \<and> ms' = ms) \<and>
         (batch_mutations cd recs \<noteq> [] \<longrightarrow> (\<forall>m \<in> set (batch_mutations cd recs). dm_Branch m = branch') \<and>
            (branch \<noteq> [] \<longrightarrow> branch' = branch) \<and>
            ((\<forall>x \<in> set recs. \<not> rec_event cd x) \<longrightarrow>
               ms' = ms @ (if already cps branch' seq then [] else batch_mutations cd recs))))"
  using assms(2)
proof (induction recs arbitrary: branch ms cps)
  case Nil
  then show ?case by auto
next
  case (Cons rec recs)
  show ?case
  proof (cases "unmarshal cd rec")
    case (Inl e)
    with assms(1) have "own_err e" by (auto simp: codec_ok_def)
    with Inl Cons.prems show ?thesis by (auto simp: context_err_def own_err_def)
  next
    case (Inr w)
    show ?thesis
    proof (cases w)
      case WalEmpty
      with Inr Cons.prems have "collect cd seq recs branch ms cps = (r, cps')" by simp
      note IH = Cons.IH [OF this]
      have "rec_mutation cd rec = None" "\<not> rec_event cd rec"
        using Inr WalEmpty by (simp_all add: rec_mutation_def rec_event_def)
      with IH show ?thesis by (cases r) (auto simp: batch_mutations_Cons split: if_splits)
    next
      case (WalBranchEvent evt)
      define cps1 where "cps1 = (if be_Type evt = Event_FORK \<and>
          (case cps (be_Branch evt) of None \<Rightarrow> True | Some lastSeq \<Rightarrow> seq > lastSeq)
        then cps(be_Branch evt \<mapsto> seq) else cps)"
      have "collect cd seq recs branch ms cps1 = (r, cps')"
        using Inr WalBranchEvent Cons.prems by (simp add: cps1_def)
      note IH = Cons.IH [OF this]
      have ev: "rec_event cd rec" and mu: "rec_mutation cd rec = None"
        using Inr WalBranchEvent by (simp_all add: rec_event_def rec_mutation_def)
      have "cps1 b = cps b \<or> cps1 b = Some seq" for b by (simp add: cps1_def)
      then have "cps' b = cps b \<or> cps' b = Some seq" for b using IH by metis
      with IH ev mu show ?thesis
        by (cases r) (auto simp: batch_mutations_Cons split: if_splits)
    next
      case (WalMutation m)
      have ev: "\<not> rec_event cd rec" using Inr WalMutation by (simp add: rec_event_def)
      show ?thesis
      proof (cases "dm_Branch m = []")
        case True
        with Inr WalMutation Cons.prems have "collect cd seq recs branch ms cps = (r, cps')" by simp
        note IH = Cons.IH [OF this]
        have "rec_mutation cd rec = None" using Inr WalMutation True by (simp add: rec_mutation_def)
        with IH ev show ?thesis by (cases r) (auto simp: batch_mutations_Cons split: if_splits)
      next
        case ne: False
        then have mu: "rec_mutation cd rec = Some m" using Inr WalMutation by (simp add: rec_mutation_def)
        show ?thesis
        proof (cases "branch \<noteq> [] \<and> dm_Branch m \<noteq> branch")
          case True
          with Inr WalMutation ne Cons.prems show ?thesis by (auto simp: context_err_def)
        next
          case False
          define ms1 where "ms1 = (if already cps (dm_Branch m) seq then ms else ms @ [m])"
          have "collect cd seq recs (dm_Branch m) ms1 cps = (r, cps')"
            using Inr WalMutation ne False Cons.prems by (auto simp: ms1_def already_def split: if_splits option.splits)
          note IH = Cons.IH [OF this]
          have bm: "batch_mutations cd (rec # recs) = m # batch_mutations cd recs"
            using mu by (simp add: batch_mutations_Cons)
          show ?thesis
          proof (cases r)
            case (Inl e)
            with IH show ?thesis by auto
          next
            case (Inr p)
            obtain b' ms' where p: "p = (b', ms')" by fastforce
            have "b' = dm_Branch m" using IH ne unfolding Inr p by (cases "batch_mutations cd recs = []") auto
            moreover have "ms' = ms1 @ (if already cps b' seq then [] else batch_mutations cd recs)"
              if "\<forall>x \<in> set recs. \<not> rec_event cd x"
              using IH that unfolding Inr p by (cases "batch_mutations cd recs = []") auto
            moreover have "\<forall>m \<in> set (batch_mutations cd recs). dm_Branch m = b'"
              using IH unfolding Inr p by (cases "batch_mutations cd recs = []") auto
            ultimately show ?thesis
              using IH False ev bm unfolding Inr p by (auto simp: ms1_def)
          qed
        qed
      qed
    qed
  qed
qed

subsection \<open>Steps\<close>

text \<open>What a flusher remembers of a branch has been flushed, for every branch.\<close>

definition cps_ok :: "flush_ctx \<Rightarrow> bytes list \<Rightarrow> view \<Rightarrow> (string \<rightharpoonup> u64) \<Rightarrow> bool" where
  "cps_ok X xs v cps \<longleftrightarrow> (\<forall>b c. cps b = Some c \<longrightarrow> flushed_upto X xs v (unat c))"

lemma cps_ok_mono:
  "cps_ok X xs v cps \<Longrightarrow> prefix xs ys \<Longrightarrow> flush_le X v v' \<Longrightarrow> wal_ok X xs \<Longrightarrow> cps_ok X ys v' cps"
  unfolding cps_ok_def using flushed_upto_mono order.refl by blast

lemma flush_inv_wal: "flush_inv X xs v \<Longrightarrow> wal_ok X xs"
  by (simp add: flush_inv_def)

context object_store
begin

lemma manifest_or_new_law:
  assumes "codec_ok cd" and "inv s" and "manifest_or_new S cd c key s = (r, s')"
  shows "inv s' \<and> evolves s s' \<and> rely (view s) (view s') \<and>
    (case r of
       Inr (x, g) \<Rightarrow> seen (view s') key g \<and> meaning cd new_manifest (view s') key x
     | Inl e \<Rightarrow> store_err e)"
proof -
  obtain r0 s1 where rd: "manifest_Read S cd c key s = (r0, s1)" by fastforce
  from get_decode_law [OF assms(1,2) rd [unfolded manifest_Read_def]] assms(3) rd show ?thesis
    by (cases r0) (auto simp: manifest_or_new_def seen_def meaning_def new_manifest_def split: if_splits)
qed

lemma manifest_reader_ok:
  assumes "codec_ok cd"
  shows "reader_ok cd new_manifest key (\<lambda>r v. \<exists>e. r = (Inl e :: u64 result))
    (on_error (\<lambda>err. Inl (Wrap ''read branch manifest'' err)) (manifest_or_new S cd c key))"
  by (rule reader_ok_on_error, intro allI impI)
    (drule (1) manifest_or_new_law [OF assms], auto split: sum.splits)

end

locale flush_store = log_store S view inv issued rely evolves "WALPrefix (fc_scope X)"
  for S :: "'s Store" and view inv issued rely evolves and X :: flush_ctx +
  assumes rely_flush: "rely v v' \<Longrightarrow> flush_rely X v v'"
    and scope_valid: "valid_scope (fc_scope X)"
    and branches_codec: "codec_ok (cd_branches (fc_codecs X))"
    and manifest_codec: "codec_ok (cd_manifest (fc_codecs X))"
    and wal_codec: "codec_ok (cd_wal (fc_codecs X))"
    and mutation_codec: "codec_ok (cd_mutation (fc_codecs X))"
    and names_differ: "inj_on segment_name (fc_data X)"
begin

definition moves :: "'s \<Rightarrow> bytes list \<Rightarrow> 's \<Rightarrow> (bytes list \<Rightarrow> view \<Rightarrow> bool) \<Rightarrow> bool" where
  "moves s xs s' P \<longleftrightarrow> inv s' \<and> evolves s s' \<and>
     (\<exists>ys. prefix xs ys \<and> flush_inv X ys (view s') \<and> flush_le X (view s) (view s') \<and> P ys (view s'))"

lemma movesI:
  "inv s' \<Longrightarrow> evolves s s' \<Longrightarrow> prefix xs ys \<Longrightarrow> flush_inv X ys (view s') \<Longrightarrow> flush_le X (view s) (view s') \<Longrightarrow>
     P ys (view s') \<Longrightarrow> moves s xs s' P"
  unfolding moves_def by blast

lemma moves_refl: "inv s \<Longrightarrow> flush_inv X xs (view s) \<Longrightarrow> P xs (view s) \<Longrightarrow> moves s xs s P"
  by (rule movesI) (auto simp: evolves_refl)

lemma moves_inv: "moves s xs s' P \<Longrightarrow> inv s'"
  by (simp add: moves_def)

lemma moves_mono:
  assumes "moves s xs s' P" and "\<And>ys. prefix xs ys \<Longrightarrow> flush_inv X ys (view s') \<Longrightarrow> flush_le X (view s) (view s') \<Longrightarrow>
      P ys (view s') \<Longrightarrow> Q ys (view s')"
  shows "moves s xs s' Q"
  using assms unfolding moves_def by blast

lemma moves_trans:
  assumes "moves s xs s1 P"
    and "\<And>ys. prefix xs ys \<Longrightarrow> flush_inv X ys (view s1) \<Longrightarrow> flush_le X (view s) (view s1) \<Longrightarrow> P ys (view s1) \<Longrightarrow>
      inv s1 \<Longrightarrow> moves s1 ys s2 Q"
  shows "moves s xs s2 Q"
proof -
  from assms(1) obtain ys where ys: "inv s1" "evolves s s1" "prefix xs ys" "flush_inv X ys (view s1)"
    "flush_le X (view s) (view s1)" "P ys (view s1)" unfolding moves_def by blast
  from assms(2) [OF ys(3-6,1)] obtain zs where zs: "inv s2" "evolves s1 s2" "prefix ys zs" "flush_inv X zs (view s2)"
    "flush_le X (view s1) (view s2)" "Q zs (view s2)" unfolding moves_def by blast
  show ?thesis
    unfolding moves_def
    using zs(1,4,6) evolves_trans [OF ys(2) zs(2)] prefix_order.trans [OF ys(3) zs(3)] flush_le_trans [OF ys(5) zs(5)] by blast
qed

lemma rely_view:
  assumes "rely\<^sup>*\<^sup>* (view s) v" and "flush_inv X xs (view s)"
  shows "\<exists>ys. prefix xs ys \<and> flush_inv X ys v \<and> flush_le X (view s) v"
proof -
  have "rely \<le> flush_rely X" using rely_flush by blast
  from rtranclp_mono [OF this] assms(1) have "(flush_rely X)\<^sup>*\<^sup>* (view s) v" by blast
  from flush_rely_rtrancl [OF this assms(2)] show ?thesis unfolding flush_to_def .
qed

lemma rely_moves:
  assumes "inv s'" and "evolves s s'" and "rely\<^sup>*\<^sup>* (view s) (view s')" and "flush_inv X xs (view s)"
  shows "moves s xs s' (\<lambda>_ _. True)"
  using rely_view [OF assms(3,4)] assms(1,2) unfolding moves_def by blast

text \<open>The upload: afterwards the segment is there, uploaded now or before.\<close>

lemma upload_spec:
  assumes "inv s" and "flush_inv X xs (view s)" and "data \<in> fc_data X"
    and put: "Store_Put S c (SegmentKey (fc_scope X) (segment_name data)) (bytes_Reader data) cond_absent s = (r, s')"
  shows "moves s xs s' (\<lambda>ys v. upload_failed r = None \<longrightarrow> (\<exists>d g. segment_at X v (segment_name data) = Some (d, g)))"
proof -
  let ?k = "SegmentKey (fc_scope X) (segment_name data)"
  note law = put_law [OF assms(1) put]
  have inv': "inv s'" "evolves s s'" using law by auto
  have stored: "moves s xs s' (\<lambda>ys v. \<exists>d g. v ?k = Some (d, g))"
    if v: "rely (view s) v" "holds_cond v ?k cond_absent" "view s' = v(?k \<mapsto> (data, g))" for v g
  proof -
    from rely_view [OF r_into_rtranclp [of rely, OF v(1)] assms(2)] obtain ys
      where ys: "prefix xs ys" "flush_inv X ys v" "flush_le X (view s) v" by blast
    from v(2) have "v ?k = None" by (simp add: holds_cond_def)
    from flush_inv_segment [OF scope_valid ys(2) assms(3) this, of g] v(3)
    have "flush_inv X ys (view s')" "flush_le X v (view s')" by auto
    with ys inv' v(3) show ?thesis by (intro movesI [where ys = ys]) (auto intro: flush_le_trans)
  qed
  have quiet: "moves s xs s' (\<lambda>_ _. True)" if "rely (view s) (view s')"
    using rely_moves [OF inv' _ assms(2)] that by blast
  show ?thesis
  proof (cases r)
    case (Inr g)
    with law obtain v where "rely (view s) v" "holds_cond v ?k cond_absent" "view s' = v(?k \<mapsto> (data, g))" by auto
    from stored [OF this] show ?thesis by (rule moves_mono) simp
  next
    case (Inl e)
    show ?thesis
    proof (cases "errors_is e ErrPreconditionFailed")
      case True
      with Inl law have "rely (view s) (view s')" "\<not> holds_cond (view s') ?k cond_absent" by auto
      then have "\<exists>d g. view s' ?k = Some (d, g)" by (auto simp: holds_cond_def)
      with quiet [OF \<open>rely (view s) (view s')\<close>] show ?thesis by (auto elim: moves_mono)
    next
      case False
      with Inl have failed: "upload_failed r \<noteq> None" by (simp add: upload_failed_def)
      from False Inl law consider "rely (view s) (view s')"
        | v g where "rely (view s) v" "holds_cond v ?k cond_absent" "view s' = v(?k \<mapsto> (data, g))" by auto
      then show ?thesis
      proof cases
        case 1
        from quiet [OF this] failed show ?thesis by (auto elim: moves_mono)
      next
        case 2
        from stored [OF this] show ?thesis by (rule moves_mono) simp
      qed
    qed
  qed
qed

text \<open>The compare-and-swap on the manifest.\<close>

lemma swapped_manifest:
  assumes "inv s'" and "evolves s s'" and "flush_inv X xs (view s)" and fl: "flushes X xs (view s) b (unat seq) data"
    and "swapped rely (cd_manifest (fc_codecs X)) new_manifest (ManifestKey (fc_scope X) b) (view s) y
      (y\<lparr>bm_Segments := bm_Segments y @ [seg_ref (muts X xs b (unat seq)) data], bm_CheckpointSeq := seq\<rparr>) g (view s')"
    and "bm_CheckpointSeq y < seq"
  shows "moves s xs s' (\<lambda>ys v. flushed_upto X ys v (unat seq))"
proof -
  let ?cd = "cd_manifest (fc_codecs X)" and ?k = "ManifestKey (fc_scope X) b"
  let ?x = "y\<lparr>bm_Segments := bm_Segments y @ [seg_ref (muts X xs b (unat seq)) data], bm_CheckpointSeq := seq\<rparr>"
  from assms(5) obtain v d where v: "rely\<^sup>*\<^sup>* (view s) v" "meaning ?cd new_manifest v ?k y" "marshal ?cd ?x = Inr d"
    "view s' = v(?k \<mapsto> (d, g))" unfolding swapped_def by blast
  from rely_view [OF v(1) assms(3)] obtain ys where ys: "prefix xs ys" "flush_inv X ys v" "flush_le X (view s) v" by blast
  have fl': "flushes X ys v b (unat seq) data"
    by (rule flushes_mono [OF fl ys(1,3) flush_inv_wal [OF assms(3)]])
  have "muts X ys b (unat seq) = muts X xs b (unat seq)"
    using fl muts_prefix [OF ys(1)] by (simp add: flushes_def)
  then have x: "?x = y\<lparr>bm_Segments := bm_Segments y @ [seg_ref (muts X ys b (unat seq)) data],
      bm_CheckpointSeq := of_nat (unat seq)\<rparr>" by simp
  have d: "unmarshal ?cd d = Inr ?x" using manifest_codec v(3) by (simp add: codec_ok_def)
  have "unat (bm_CheckpointSeq y) < unat seq" using assms(6) by (simp add: word_less_nat_alt)
  from flush_inv_manifest [OF scope_valid ys(2) fl' v(2) this x d v(4)]
  have new: "flush_inv X ys (view s')" "flush_le X v (view s')" "flushed_upto X ys (view s') (unat seq)" by auto
  from flush_le_trans [OF ys(3) new(2)] show ?thesis
    unfolding moves_def using assms(1,2) ys(1) new(1,3) by blast
qed

lemma flush_loop_spec:
  assumes "inv s" and "flush_inv X xs (view s)" and fl: "flushes X xs (view s) b (unat seq) data"
    and loop: "flush_loop S (cd_manifest (fc_codecs X)) c (ManifestKey (fc_scope X) b)
        (seg_ref (muts X xs b (unat seq)) data) seq s = Some (r, s')"
  shows "moves s xs s' (\<lambda>ys v. \<forall>cp. r = Inr cp \<longrightarrow> unat seq \<le> unat cp \<and> flushed_upto X ys v (unat cp))"
proof -
  let ?cd = "cd_manifest (fc_codecs X)" and ?k = "ManifestKey (fc_scope X) b"
  have b: "ok_branch b" and seq0: "0 < unat seq" using fl by (simp_all add: flushes_def)
  from cas_loop_post [OF manifest_codec writes_as_manifest manifest_reader_ok [OF manifest_codec] assms(1) loop [unfolded flush_loop_def]]
  have inv': "inv s'" "evolves s s'"
    and post: "cas_post ?cd new_manifest ?k (\<lambda>r v. \<exists>e. r = (Inl e :: u64 result))
      (\<lambda>m gen. if bm_CheckpointSeq m \<ge> seq then Inl (Inr (bm_CheckpointSeq m))
          else Inr (m\<lparr>bm_Segments := bm_Segments m @ [seg_ref (muts X xs b (unat seq)) data], bm_CheckpointSeq := seq\<rparr>))
      (\<lambda>_ _. Inr seq) (\<lambda>err. Inl (Wrap ''update branch'' err)) (view s) r (view s')"
    by auto
  note swap = swapped_manifest [OF inv' assms(2) fl]
  from post show ?thesis
    unfolding cas_post_def
  proof (elim disjE exE conjE, goal_cases)
    case (1 e)
    from rely_moves [OF inv' 1(1) assms(2)] 1(2) show ?case by (auto elim: moves_mono)
  next
    case (2 y gen)
    then have y: "bm_CheckpointSeq y \<ge> seq" "r = Inr (bm_CheckpointSeq y)" by (auto split: if_splits)
    then have le: "unat seq \<le> unat (bm_CheckpointSeq y)" by (simp add: word_le_nat_alt)
    with seq0 have "y \<noteq> new_manifest" by (auto simp: new_manifest_def)
    with 2(3) have "manifest_at X (view s') b y" by (auto simp: meaning_def manifest_at_def split: option.splits)
    with b y le rely_moves [OF inv' 2(1) assms(2)] show ?case
      by (auto simp: flush_inv_def manifest_ok_def elim!: moves_mono)
  next
    case (3 y gen x gen')
    then have "x = y\<lparr>bm_Segments := bm_Segments y @ [seg_ref (muts X xs b (unat seq)) data], bm_CheckpointSeq := seq\<rparr>"
      and "bm_CheckpointSeq y < seq" by (auto split: if_splits)
    with swap 3(2,4) show ?case by (auto elim!: moves_mono)
  next
    case (4 y gen x e)
    from rely_moves [OF inv' 4(5) assms(2)] 4(2) show ?case by (auto elim: moves_mono)
  next
    case (5 y gen x e g)
    then have "x = y\<lparr>bm_Segments := bm_Segments y @ [seg_ref (muts X xs b (unat seq)) data], bm_CheckpointSeq := seq\<rparr>"
      and "bm_CheckpointSeq y < seq" by (auto split: if_splits)
    with swap 5(5) have "moves s xs s' (\<lambda>ys v. flushed_upto X ys v (unat seq))" by simp
    with 5(2) show ?case by (auto elim!: moves_mono)
  qed
qed

lemma AddBranch_moves:
  assumes "inv s" and "flush_inv X xs (view s)" and "ok_branch b"
    and "AddBranch S (cd_branches (fc_codecs X)) c (fc_scope X) b s = Some (r, s')"
  shows "moves s xs s' (\<lambda>_ _. True)"
proof -
  let ?cd = "cd_branches (fc_codecs X)"
  from updateBranches_spec [OF branches_codec assms(1) assms(4) [unfolded AddBranch_def]]
  have inv': "inv s'" "evolves s s'"
    and "rely\<^sup>*\<^sup>* (view s) (view s') \<or> (\<exists>m m' g. (if fmlookup m b \<noteq> None then None else Some (fmupd b () m)) = Some m' \<and>
      swapped rely ?cd empty_branches (branchesKey (fc_scope X)) (view s) \<lparr>bc_Branches = m\<rparr> \<lparr>bc_Branches = m'\<rparr> g (view s'))"
    by blast+
  then consider "rely\<^sup>*\<^sup>* (view s) (view s')"
    | m v d g where "rely\<^sup>*\<^sup>* (view s) v" "branches_are ?cd v (fc_scope X) m"
      "marshal ?cd \<lparr>bc_Branches = fmupd b () m\<rparr> = Inr d" "view s' = v(branchesKey (fc_scope X) \<mapsto> (d, g))"
    by (auto simp: swapped_def split: if_splits)
  then show ?thesis
  proof cases
    case 1
    then show ?thesis using rely_moves [OF inv' _ assms(2)] by blast
  next
    case 2
    from rely_view [OF 2(1) assms(2)] obtain ys where ys: "prefix xs ys" "flush_inv X ys v" "flush_le X (view s) v" by blast
    have "unmarshal ?cd d = Inr \<lparr>bc_Branches = fmupd b () m\<rparr>" using branches_codec 2(3) by (simp add: codec_ok_def)
    moreover have "\<forall>b'. b' |\<in>| fmdom (fmupd b () m) \<longrightarrow> ok_branch b'"
      using ys(2) 2(2) assms(3) by (auto simp: flush_inv_def branches_ok_def)
    ultimately have "flush_inv X ys (view s')" "flush_le X v (view s')"
      using flush_inv_branches [OF scope_valid ys(2)] 2(4) by auto
    with ys inv' flush_le_trans show ?thesis unfolding moves_def by blast
  qed
qed

text \<open>A batch of one branch.\<close>

lemma flush_commit_spec:
  assumes "inv s" and "flush_inv X xs (view s)" and fl: "flushes X xs (view s) b (unat seq) data"
    and "sf_scope sf = fc_scope X"
    and "flush_commit S (fc_codecs X) c b (seg_ref (muts X xs b (unat seq)) data) seq sf s = Some (err, sf', s')"
  shows "moves s xs s' (\<lambda>ys v.
    if err = None
    then \<exists>cp. sf' = sf\<lparr>sf_branchCheckpoints := (sf_branchCheckpoints sf)(b \<mapsto> cp)\<rparr> \<and> unat seq \<le> unat cp
      \<and> flushed_upto X ys v (unat cp)
    else sf' = sf)"
proof -
  let ?ref = "seg_ref (muts X xs b (unat seq)) data"
  from assms(5) obtain r s1 where loop: "flush_loop S (cd_manifest (fc_codecs X)) c (ManifestKey (fc_scope X) b) ?ref seq s = Some (r, s1)"
    by (auto simp: flush_commit_def assms(4) split: option.splits)
  note m1 = flush_loop_spec [OF assms(1-3) loop]
  have b: "ok_branch b" using fl by (simp add: flushes_def)
  show ?thesis
  proof (cases r)
    case (Inl e)
    with assms(5) loop have "err = Some e" "sf' = sf" "s' = s1" by (auto simp: flush_commit_def assms(4))
    with m1 show ?thesis by (auto elim: moves_mono)
  next
    case (Inr cp)
    with assms(5) loop obtain r2 where add: "AddBranch S (cd_branches (fc_codecs X)) c (fc_scope X) b s1 = Some (r2, s')"
      by (auto simp: flush_commit_def assms(4) split: option.splits sum.splits)
    have res: "(err, sf') = (case r2 of Inl e \<Rightarrow> (Some (Wrap ''add branch'' e), sf)
        | Inr _ \<Rightarrow> (None, sf\<lparr>sf_branchCheckpoints := (sf_branchCheckpoints sf)(b \<mapsto> cp)\<rparr>))"
      using assms(5) loop Inr add by (auto simp: flush_commit_def assms(4) split: sum.splits)
    from m1 show ?thesis
    proof (rule moves_trans)
      fix ys assume ys: "flush_inv X ys (view s1)" "\<forall>cp. r = Inr cp \<longrightarrow> unat seq \<le> unat cp \<and> flushed_upto X ys (view s1) (unat cp)"
        and "inv s1"
      from AddBranch_moves [OF this(3) ys(1) b add] show "moves s1 ys s' (\<lambda>ys v.
          if err = None then \<exists>cp. sf' = sf\<lparr>sf_branchCheckpoints := (sf_branchCheckpoints sf)(b \<mapsto> cp)\<rparr>
            \<and> unat seq \<le> unat cp \<and> flushed_upto X ys v (unat cp) else sf' = sf)"
      proof (rule moves_mono)
        fix zs assume zs: "prefix ys zs" "flush_le X (view s1) (view s')"
        have "flushed_upto X zs (view s') (unat cp)"
          using ys(2) Inr flushed_upto_mono [OF _ zs flush_inv_wal [OF ys(1)] order.refl] by simp
        with res ys(2) Inr show "if err = None then \<exists>cp. sf' = sf\<lparr>sf_branchCheckpoints := (sf_branchCheckpoints sf)(b \<mapsto> cp)\<rparr>
            \<and> unat seq \<le> unat cp \<and> flushed_upto X zs (view s') (unat cp) else sf' = sf"
          by (cases r2) auto
      qed
    qed
  qed
qed

lemma flushBranch_spec:
  assumes "inv s" and "flush_inv X xs (view s)" and "sf_scope sf = fc_scope X"
    and ms: "ms = muts X xs b (unat seq)" "ms \<noteq> []" "\<forall>b'. muts X xs b' (unat seq) \<noteq> [] \<longrightarrow> b' = b"
    and seq: "1 \<le> unat seq" "unat seq \<le> length xs" "flushed_upto X xs (view s) (unat seq - 1)"
    and run: "flushBranch S (fc_codecs X) c b ms seq sf s = Some (err, sf', s')"
  shows "moves s xs s' (\<lambda>ys v.
    if err = None
    then \<exists>cp. sf' = sf\<lparr>sf_branchCheckpoints := (sf_branchCheckpoints sf)(b \<mapsto> cp)\<rparr> \<and> unat seq \<le> unat cp
      \<and> flushed_upto X ys v (unat cp)
    else sf' = sf)"
proof (cases "encode_segment (cd_mutation (fc_codecs X)) ms")
  case (Inl e)
  with run ms(2) have "err = Some e" "sf' = sf" "s' = s" by (auto simp: flushBranch_def)
  then show ?thesis using moves_refl [OF assms(1,2), of "\<lambda>_ _. sf' = sf"] by simp
next
  case (Inr data)
  obtain r s1 where put: "Store_Put S c (SegmentKey (fc_scope X) (segment_name data)) (bytes_Reader data) cond_absent s = (r, s1)"
    by fastforce
  have ok: "entry_ok X xs (unat seq)" using flush_inv_wal [OF assms(2)] seq(1,2) by (simp add: wal_ok_def)
  with Inr ms(1,2) have D: "data \<in> fc_data X" unfolding entry_ok_def by blast
  have b: "ok_branch b" using muts_ok_branch [OF flush_inv_wal [OF assms(2)]] ms(1,2) by blast
  note up = upload_spec [OF assms(1,2) D put]
  show ?thesis
  proof (cases "upload_failed r")
    case (Some e)
    with run Inr ms(2) put have "err = Some (Wrap ''upload segment'' e)" "sf' = sf" "s' = s1"
      by (auto simp: flushBranch_def Let_def assms(3))
    with up show ?thesis by (auto elim: moves_mono)
  next
    case None
    with run Inr ms(2) put have "flush_commit S (fc_codecs X) c b (seg_ref ms data) seq sf s1 = Some (err, sf', s')"
      by (simp add: flushBranch_def Let_def assms(3) seg_ref_def)
    then have commit: "flush_commit S (fc_codecs X) c b (seg_ref (muts X xs b (unat seq)) data) seq sf s1 = Some (err, sf', s')"
      by (simp only: ms(1))
    from up show ?thesis
    proof (rule moves_trans)
      fix ys assume ys: "prefix xs ys" "flush_inv X ys (view s1)" "flush_le X (view s) (view s1)"
        "upload_failed r = None \<longrightarrow> (\<exists>d g. segment_at X (view s1) (segment_name data) = Some (d, g))" and "inv s1"
      have eq: "muts X ys b' (unat seq) = muts X xs b' (unat seq)" for b' using muts_prefix [OF ys(1) seq(2)] .
      have len: "unat seq \<le> length ys" using seq(2) prefix_length_le [OF ys(1)] by simp
      have up': "flushed_upto X ys (view s1) (unat seq - 1)"
        by (rule flushed_upto_mono [OF seq(3) ys(1,3) flush_inv_wal [OF assms(2)] order.refl])
      have fl: "flushes X ys (view s1) b (unat seq) data"
        unfolding flushes_def eq using b seq(1) len up' ms Inr None ys(4) by blast
      have "flush_commit S (fc_codecs X) c b (seg_ref (muts X ys b (unat seq)) data) seq sf s1 = Some (err, sf', s')"
        unfolding eq by (rule commit)
      from flush_commit_spec [OF \<open>inv s1\<close> ys(2) fl assms(3) this] show "moves s1 ys s' (\<lambda>ys v.
          if err = None then \<exists>cp. sf' = sf\<lparr>sf_branchCheckpoints := (sf_branchCheckpoints sf)(b \<mapsto> cp)\<rparr> \<and> unat seq \<le> unat cp
            \<and> flushed_upto X ys v (unat cp) else sf' = sf)" .
    qed
  qed
qed

text \<open>The records of entry \<open>seq\<close>.\<close>

definition entry_at :: "bytes list \<Rightarrow> u64 \<Rightarrow> bytes list \<Rightarrow> bool" where
  "entry_at xs seq records \<longleftrightarrow> 1 \<le> unat seq \<and> unat seq \<le> length xs \<and> xs ! (unat seq - 1) = frames records
     \<and> (\<forall>d \<in> set records. int (length d) \<le> DefaultMaxRecordSize)"

lemma entry_at_mutations:
  "entry_at xs seq records \<Longrightarrow> entry_mutations X xs (unat seq) = batch_mutations (cd_wal (fc_codecs X)) records"
  "entry_at xs seq records \<Longrightarrow> entry_records (xs ! (unat seq - 1)) = records"
  by (simp_all add: entry_at_def entry_mutations_def entry_records_frames)

lemma flushed_upto_next:
  assumes "flushed_upto X xs v (n - 1)" and "1 \<le> n" and "n \<le> length xs"
    and "\<forall>b. muts X xs b n \<noteq> [] \<longrightarrow> (\<exists>m. manifest_at X v b m \<and> n \<le> unat (bm_CheckpointSeq m))"
  shows "flushed_upto X xs v n"
  unfolding flushed_upto_def
proof (intro conjI allI impI)
  fix i b assume "i \<le> n" "muts X xs b i \<noteq> []"
  with assms show "\<exists>m. manifest_at X v b m \<and> i \<le> unat (bm_CheckpointSeq m)"
    unfolding flushed_upto_def by (cases "i = n") auto
qed (rule assms(3))

definition process_post :: "u64 \<Rightarrow> streamFlusher \<Rightarrow> gerr option \<Rightarrow> streamFlusher \<Rightarrow> bytes list \<Rightarrow> view \<Rightarrow> bool" where
  "process_post seq sf err sf' ys v \<longleftrightarrow> sf_log sf' = sf_log sf \<and> sf_scope sf' = sf_scope sf
     \<and> (case err of
          None \<Rightarrow> flushed_upto X ys v (unat seq) \<and> cps_ok X ys v (sf_branchCheckpoints sf')
        | Some e \<Rightarrow> context_err e \<longrightarrow> cps_ok X ys v (sf_branchCheckpoints sf'))"

lemma processRecords_spec:
  assumes "inv s" and "flush_inv X xs (view s)" and "sf_scope sf = fc_scope X" and at: "entry_at xs seq records"
    and up: "flushed_upto X xs (view s) (unat seq - 1)" and cps: "cps_ok X xs (view s) (sf_branchCheckpoints sf)"
    and run: "processRecords S (fc_codecs X) c seq records sf s = Some (err, sf', s')"
  shows "moves s xs s' (process_post seq sf err sf')"
proof -
  let ?cd = "cd_wal (fc_codecs X)" and ?M = "batch_mutations (cd_wal (fc_codecs X)) records"
  obtain r cps' where col: "collect ?cd seq records [] [] (sf_branchCheckpoints sf) = (r, cps')" by fastforce
  note spec = collect_spec [OF wal_codec col]
  note M = entry_at_mutations [OF at]
  have seq: "1 \<le> unat seq" "unat seq \<le> length xs" using at by (auto simp: entry_at_def)
  have ok: "entry_ok X xs (unat seq)" using flush_inv_wal [OF assms(2)] seq by (simp add: wal_ok_def)
  show ?thesis
  proof (cases r)
    case (Inl e)
    with run col spec have "err = Some e" "\<not> context_err e" "sf' = sf\<lparr>sf_branchCheckpoints := cps'\<rparr>" "s' = s"
      by (auto simp: processRecords_def)
    with moves_refl [OF assms(1,2)] show ?thesis by (simp add: process_post_def)
  next
    case (Inr p)
    obtain b ms where p: "p = (b, ms)" by fastforce
    with run col Inr have flush: "flushBranch S (fc_codecs X) c b ms seq (sf\<lparr>sf_branchCheckpoints := cps'\<rparr>) s = Some (err, sf', s')"
      by (simp add: processRecords_def)
    show ?thesis
    proof (cases "?M = []")
      case True
      with spec Inr p have "ms = []" by auto
      with flush have res: "err = None" "sf' = sf\<lparr>sf_branchCheckpoints := cps'\<rparr>" "s' = s" by (auto simp: flushBranch_def)
      have "muts X xs b' (unat seq) = []" for b' using True M(1) by (simp add: muts_def)
      with flushed_upto_next [OF up seq] have up': "flushed_upto X xs (view s) (unat seq)" by simp
      with cps spec have "cps_ok X xs (view s) cps'" unfolding cps_ok_def by (metis option.inject)
      with moves_refl [OF assms(1,2)] up' res show ?thesis by (simp add: process_post_def)
    next
      case False
      with ok M have noev: "\<forall>x \<in> set records. \<not> rec_event ?cd x" by (simp add: entry_ok_def)
      with spec have cps': "cps' = sf_branchCheckpoints sf" by (auto simp: fun_eq_iff)
      from spec Inr p False noev have br: "\<forall>m \<in> set ?M. dm_Branch m = b"
        and ms: "ms = (if already (sf_branchCheckpoints sf) b seq then [] else ?M)" by auto
      have mb: "muts X xs b' (unat seq) = (if b' = b then ?M else [])" for b'
        using br seq M(1) by (auto simp: muts_def filter_empty_conv filter_id_conv)
      show ?thesis
      proof (cases "already (sf_branchCheckpoints sf) b seq")
        case True
        with ms flush have res: "err = None" "sf' = sf\<lparr>sf_branchCheckpoints := cps'\<rparr>" "s' = s" by (auto simp: flushBranch_def)
        from True obtain cp where cp: "sf_branchCheckpoints sf b = Some cp" "unat seq \<le> unat cp"
          by (auto simp: already_def word_le_nat_alt split: option.splits)
        with cps have "flushed_upto X xs (view s) (unat cp)" by (auto simp: cps_ok_def)
        from flushed_upto_mono [OF this prefix_order.refl flush_le_refl flush_inv_wal [OF assms(2)] cp(2)]
        have "flushed_upto X xs (view s) (unat seq)" .
        with moves_refl [OF assms(1,2)] res cps cps' show ?thesis by (simp add: process_post_def)
      next
        case new: False
        with ms mb have "ms = muts X xs b (unat seq)" "ms \<noteq> []" "\<forall>b'. muts X xs b' (unat seq) \<noteq> [] \<longrightarrow> b' = b"
          using False by auto
        note spec = flushBranch_spec [OF assms(1-3) this seq up]
        have "sf\<lparr>sf_branchCheckpoints := cps'\<rparr> = sf" by (simp add: cps')
        from spec [OF flush [unfolded this]] show ?thesis
        proof (rule moves_mono)
          fix ys assume ys: "prefix xs ys" "flush_inv X ys (view s')" "flush_le X (view s) (view s')"
            and post: "if err = None then \<exists>cp. sf' = sf\<lparr>sf_branchCheckpoints := (sf_branchCheckpoints sf)(b \<mapsto> cp)\<rparr> \<and> unat seq \<le> unat cp
              \<and> flushed_upto X ys (view s') (unat cp) else sf' = sf"
          have old: "cps_ok X ys (view s') (sf_branchCheckpoints sf)"
            by (rule cps_ok_mono [OF cps ys(1,3) flush_inv_wal [OF assms(2)]])
          show "process_post seq sf err sf' ys (view s')"
          proof (cases err)
            case None
            with post obtain cp where cp: "sf' = sf\<lparr>sf_branchCheckpoints := (sf_branchCheckpoints sf)(b \<mapsto> cp)\<rparr>"
              "unat seq \<le> unat cp" "flushed_upto X ys (view s') (unat cp)" by auto
            from flushed_upto_mono [OF cp(3) prefix_order.refl flush_le_refl flush_inv_wal [OF ys(2)] cp(2)] old cp None
            show ?thesis by (auto simp: process_post_def cps_ok_def)
          qed (use post old in \<open>simp add: process_post_def\<close>)
        qed
      qed
    qed
  qed
qed

subsection \<open>Start\<close>

lemma flushed_upto_0 [simp]: "flushed_upto X xs v 0"
  by (simp add: flushed_upto_def muts_def)

definition init_post :: "streamFlusher \<Rightarrow> u64 result \<Rightarrow> streamFlusher \<Rightarrow> bytes list \<Rightarrow> view \<Rightarrow> bool" where
  "init_post sf r sf' ys v \<longleftrightarrow> sf_log sf' = sf_log sf \<and> sf_scope sf' = sf_scope sf
     \<and> cps_ok X ys v (sf_branchCheckpoints sf') \<and> (\<forall>c. r = Inr c \<longrightarrow> flushed_upto X ys v (unat c))"

lemma manifest_Read_moves:
  assumes "inv s" and "flush_inv X xs (view s)"
    and rd: "manifest_Read S (cd_manifest (fc_codecs X)) c (ManifestKey (fc_scope X) b) s = (r, s')"
  shows "moves s xs s' (\<lambda>ys v. \<forall>m g. r = Inr (m, g) \<longrightarrow> manifest_at X v b m)"
proof -
  note law = get_decode_law [OF manifest_codec assms(1) rd [unfolded manifest_Read_def]]
  then have "moves s xs s' (\<lambda>_ _. True)" using rely_moves [OF _ _ _ assms(2)] by blast
  moreover have "manifest_at X (view s') b m" if "r = Inr (m, g)" for m g
    using law that by (auto simp: seen_def meaning_def manifest_at_def split: option.splits)
  ultimately show ?thesis by (auto elim: moves_mono)
qed

lemma init_loop_spec:
  assumes "inv s" and "flush_inv X xs (view s)" and "sf_scope sf = fc_scope X" and "\<forall>b \<in> set branches. ok_branch b"
    and "hasB \<longrightarrow> flushed_upto X xs (view s) (unat minC)" and "cps_ok X xs (view s) (sf_branchCheckpoints sf)"
    and "init_loop S (fc_codecs X) c branches minC hasB sf s = (r, sf', s')"
  shows "moves s xs s' (init_post sf r sf')"
  using assms
proof (induction branches arbitrary: minC hasB sf s xs)
  case Nil
  then have "sf' = sf" "s' = s" "r = Inr (if hasB then minC else 0)" by auto
  moreover from this Nil.prems(5,6) have "init_post sf r sf' xs (view s)" by (simp add: init_post_def)
  ultimately show ?case using moves_refl [OF Nil.prems(1,2), of "init_post sf r sf'"] by blast
next
  case (Cons b bs)
  obtain rm s1 where rd: "manifest_Read S (cd_manifest (fc_codecs X)) c (ManifestKey (fc_scope X) b) s = (rm, s1)" by fastforce
  note mv = manifest_Read_moves [OF Cons.prems(1,2) rd]
  have wal: "wal_ok X xs" by (rule flush_inv_wal [OF Cons.prems(2)])
  show ?case
  proof (cases "\<exists>e. rm = Inl e \<and> \<not> errors_is e ErrNotFound")
    case True
    with Cons.prems(3,7) rd have res: "sf' = sf" "s' = s1" "\<exists>e. r = Inl e" by auto
    from mv show ?thesis
      unfolding res(2) by (rule moves_mono) (use res Cons.prems(6) cps_ok_mono [OF _ _ _ wal] in \<open>auto simp: init_post_def\<close>)
  next
    case False
    from mv show ?thesis
    proof (rule moves_trans)
      fix ys assume ys: "prefix xs ys" "flush_inv X ys (view s1)" "flush_le X (view s) (view s1)"
        "\<forall>m g. rm = Inr (m, g) \<longrightarrow> manifest_at X (view s1) b m" and "inv s1"
      have old: "hasB \<longrightarrow> flushed_upto X ys (view s1) (unat minC)"
        using Cons.prems(5) flushed_upto_mono [OF _ ys(1,3) wal order.refl] by blast
      have cps: "cps_ok X ys (view s1) (sf_branchCheckpoints sf)" by (rule cps_ok_mono [OF Cons.prems(6) ys(1,3) wal])
      note IH = Cons.IH [OF \<open>inv s1\<close> ys(2)]
      show "moves s1 ys s' (init_post sf r sf')"
      proof (cases rm)
        case (Inl e)
        with False Cons.prems(3,7) rd have "init_loop S (fc_codecs X) c bs minC hasB sf s1 = (r, sf', s')" by auto
        from IH [OF Cons.prems(3) _ old cps this] Cons.prems(4) show ?thesis by simp
      next
        case (Inr p)
        then obtain m g where m: "rm = Inr (m, g)" by (cases p) auto
        define sf1 where "sf1 = sf\<lparr>sf_branchCheckpoints := (sf_branchCheckpoints sf)(b \<mapsto> bm_CheckpointSeq m)\<rparr>"
        have up: "flushed_upto X ys (view s1) (unat (bm_CheckpointSeq m))"
          using ys(2,4) m Cons.prems(4) by (auto simp: flush_inv_def manifest_ok_def)
        with cps have cps1: "cps_ok X ys (view s1) (sf_branchCheckpoints sf1)" by (auto simp: cps_ok_def sf1_def)
        have sc1: "sf_scope sf1 = fc_scope X" using Cons.prems(3) by (simp add: sf1_def)
        from Cons.prems(3,7) rd m have "init_loop S (fc_codecs X) c bs
            (if \<not> hasB \<or> bm_CheckpointSeq m < minC then bm_CheckpointSeq m else minC) True sf1 s1 = (r, sf', s')"
          by (cases hasB) (auto simp: sf1_def Let_def split: if_splits)
        from IH [OF sc1 _ _ cps1 this] Cons.prems(4) up old have "moves s1 ys s' (init_post sf1 r sf')" by auto
        then show ?thesis by (rule moves_mono) (simp add: init_post_def sf1_def)
      qed
    qed
  qed
qed

lemma initCheckpoints_spec:
  assumes "inv s" and "flush_inv X xs (view s)" and "sf_scope sf = fc_scope X"
    and cps: "cps_ok X xs (view s) (sf_branchCheckpoints sf)"
    and run: "initCheckpoints S (fc_codecs X) c sf s = (r, sf', s')"
  shows "moves s xs s' (init_post sf r sf')"
proof -
  let ?cd = "cd_branches (fc_codecs X)"
  obtain rb s1 where rd: "readBranchCatalog S ?cd c (branchesKey (fc_scope X)) s = (rb, s1)" by fastforce
  note law = readBranchCatalog_law [OF branches_codec assms(1) rd]
  then have mv: "moves s xs s1 (\<lambda>_ _. True)" using rely_moves [OF _ _ _ assms(2)] by blast
  have wal: "wal_ok X xs" by (rule flush_inv_wal [OF assms(2)])
  from mv show ?thesis
  proof (rule moves_trans)
    fix ys assume ys: "prefix xs ys" "flush_inv X ys (view s1)" "flush_le X (view s) (view s1)" and inv1: "inv s1"
    have cps1: "cps_ok X ys (view s1) (sf_branchCheckpoints sf)" by (rule cps_ok_mono [OF cps ys(1,3) wal])
    show "moves s1 ys s' (init_post sf r sf')"
    proof (cases rb)
      case (Inl e)
      with run rd assms(3) have "r = Inl (Wrap ''list branches'' (Wrap ''namespace: list branches'' e))" "sf' = sf" "s' = s1"
        by (auto simp: initCheckpoints_def ListBranches_def)
      with moves_refl [OF inv1 ys(2), of "init_post sf r sf'"] cps1 show ?thesis by (simp add: init_post_def)
    next
      case (Inr p)
      then obtain cat g where p: "rb = Inr (cat, g)" by (cases p) auto
      obtain bs where bs: "cat = \<lparr>bc_Branches = bs\<rparr>" by (cases cat) auto
      define names where "names = (if bs = fmempty then [DefaultBranch] else sorted_list_of_fset (fmdom bs))"
      have "\<forall>b \<in> set names. ok_branch b"
        using ys(2) law p bs by (auto simp: names_def flush_inv_def branches_ok_def ok_branch_def DefaultBranch_def sorted_list_of_fset.rep_eq)
      moreover from run rd p bs assms(3) have "init_loop S (fc_codecs X) c names 0 False sf s1 = (r, sf', s')"
        by (cases "bs = fmempty") (simp_all add: initCheckpoints_def ListBranches_def names_def del: init_loop.simps)
      ultimately show ?thesis by (intro init_loop_spec [OF inv1 ys(2) assms(3) _ _ cps1]) auto
    qed
  qed
qed

subsection \<open>Following the log\<close>

lemma Log_Read_moves:
  assumes "inv s" and "flush_inv X xs (view s)" and "l_prefix l = WALPrefix (fc_scope X)"
    and "Log_Read S c l seq s = (r, s')"
  shows "moves s xs s' (\<lambda>ys v. (\<forall>e. r = Inl e \<longrightarrow> errors_is e ErrEndOfStream \<longrightarrow> length ys < unat seq)
    \<and> (\<forall>records. r = Inr records \<longrightarrow> entry_at ys seq records))"
proof -
  note spec = Log_Read_spec [OF assms(1) flush_inv_log [OF assms(2)] assms(3,4)]
  from spec obtain ys where ys: "log_is (WALPrefix (fc_scope X)) ys (view s')"
    "\<forall>e. r = Inl e \<longrightarrow> errors_is e ErrEndOfStream \<longrightarrow> length ys < unat seq"
    "\<forall>records. r = Inr records \<longrightarrow> entry_at ys seq records" unfolding entry_at_def by blast
  from spec have "moves s xs s' (\<lambda>_ _. True)" using rely_moves [OF _ _ _ assms(2)] by blast
  then show ?thesis
  proof (rule moves_mono)
    fix zs assume "flush_inv X zs (view s')"
    with log_is_unique [OF flush_inv_log [OF this] ys(1)] ys(2,3)
    show "(\<forall>e. r = Inl e \<longrightarrow> errors_is e ErrEndOfStream \<longrightarrow> length zs < unat seq)
      \<and> (\<forall>records. r = Inr records \<longrightarrow> entry_at zs seq records)" by simp
  qed
qed

text \<open>The flusher stands before entry \<open>seq\<close>.\<close>

definition stands :: "streamFlusher \<Rightarrow> u64 \<Rightarrow> bytes list \<Rightarrow> view \<Rightarrow> bool" where
  "stands sf seq xs v \<longleftrightarrow> sf_scope sf = fc_scope X \<and> l_prefix (sf_log sf) = WALPrefix (fc_scope X) \<and> 1 \<le> unat seq
     \<and> flushed_upto X xs v (unat seq - 1) \<and> cps_ok X xs v (sf_branchCheckpoints sf)"

lemma stands_mono:
  assumes "stands sf seq xs v" and "prefix xs ys" and "flush_le X v v'" and "wal_ok X xs"
  shows "stands sf seq ys v'"
  using assms(1) flushed_upto_mono [OF _ assms(2-4) order.refl] cps_ok_mono [OF _ assms(2-4)]
  unfolding stands_def by blast

lemma stands_next:
  assumes "flush_inv X ys v" and "process_post seq sf None sf' ys v" and "stands sf seq xs v0" and "unat seq \<le> length ys"
  shows "stands sf' (seq + 1) ys v"
proof -
  have "length ys < 2 ^ 64 - 1" by (rule log_is_length [OF flush_inv_log [OF assms(1)]])
  with assms(4) have "unat (seq + 1) = unat seq + 1" by (simp add: unat_plus_if')
  with assms(2,3) show ?thesis by (simp add: stands_def process_post_def)
qed

text \<open>One round: read the entry and process it.\<close>

lemma round_spec:
  assumes "inv s" and "flush_inv X xs (view s)" and st: "stands sf seq xs (view s)"
    and rd: "Log_Read S c (sf_log sf) seq s = (Inr records, s1)"
    and run: "processRecords S (fc_codecs X) c seq records sf s1 = Some (err, sf', s2)"
  shows "moves s xs s2 (\<lambda>ys v. (err = None \<longrightarrow> stands sf' (seq + 1) ys v)
    \<and> (\<forall>e. err = Some e \<longrightarrow> context_err e \<longrightarrow> stands sf' seq ys v))"
proof -
  have l: "l_prefix (sf_log sf) = WALPrefix (fc_scope X)" using st by (simp add: stands_def)
  from Log_Read_moves [OF assms(1,2) l rd] show ?thesis
  proof (rule moves_trans)
    fix ys assume ys: "prefix xs ys" "flush_inv X ys (view s1)" "flush_le X (view s) (view s1)" and inv1: "inv s1"
      and at: "(\<forall>e. Inr records = Inl e \<longrightarrow> errors_is e ErrEndOfStream \<longrightarrow> length ys < unat seq)
        \<and> (\<forall>rs. Inr records = Inr rs \<longrightarrow> entry_at ys seq rs)"
    have st1: "stands sf seq ys (view s1)" by (rule stands_mono [OF st ys(1,3) flush_inv_wal [OF assms(2)]])
    have at: "entry_at ys seq records" using at by blast
    have "moves s1 ys s2 (process_post seq sf err sf')"
      using processRecords_spec [OF inv1 ys(2) _ at _ _ run] st1 by (simp add: stands_def)
    then show "moves s1 ys s2 (\<lambda>ys v. (err = None \<longrightarrow> stands sf' (seq + 1) ys v)
        \<and> (\<forall>e. err = Some e \<longrightarrow> context_err e \<longrightarrow> stands sf' seq ys v))"
    proof (rule moves_mono)
      fix zs assume zs: "prefix ys zs" "flush_inv X zs (view s2)" "flush_le X (view s1) (view s2)"
        and post: "process_post seq sf err sf' zs (view s2)"
      have "unat seq \<le> length zs" using at prefix_length_le [OF zs(1)] by (simp add: entry_at_def)
      moreover have "stands sf seq zs (view s2)" by (rule stands_mono [OF st1 zs(1,3) flush_inv_wal [OF ys(2)]])
      ultimately show "(err = None \<longrightarrow> stands sf' (seq + 1) zs (view s2))
          \<and> (\<forall>e. err = Some e \<longrightarrow> context_err e \<longrightarrow> stands sf' seq zs (view s2))"
        using stands_next [OF zs(2)] post by (auto simp: process_post_def stands_def)
    qed
  qed
qed

text \<open>At the end of the stream everything is flushed.\<close>

lemma end_of_stream:
  assumes "stands sf seq ys v" and "length ys < unat seq"
  shows "flushed_upto X ys v (length ys) \<and> unat seq = length ys + 1"
proof -
  from assms have "unat seq - 1 = length ys" by (auto simp: stands_def flushed_upto_def)
  with assms show ?thesis by (auto simp: stands_def)
qed

lemma drain_spec:
  assumes "drain S (fc_codecs X) c seq sf s = Some (err, sf', s')" and "inv s" and "flush_inv X xs (view s)"
    and "stands sf seq xs (view s)"
  shows "moves s xs s' (\<lambda>ys v. err = None \<longrightarrow> flushed_upto X ys v (length ys))"
proof -
  define P where "P = (\<lambda>S' cds (c :: ctx) seq sf s (res :: gerr option \<times> streamFlusher \<times> 's). S' = S \<longrightarrow> cds = fc_codecs X \<longrightarrow> (\<forall>xs. inv s \<longrightarrow> flush_inv X xs (view s) \<longrightarrow>
      stands sf seq xs (view s) \<longrightarrow>
      moves s xs (snd (snd res)) (\<lambda>ys v. fst res = None \<longrightarrow> flushed_upto X ys v (length ys))))"
  from assms(1) have "P S (fc_codecs X) c seq sf s (err, sf', s')"
  proof (rule drain.raw_induct [rotated])
    fix loop S' cds c seq sf s res
    assume IH: "\<And>S cds c seq sf s res. loop S cds c seq sf s = Some res \<Longrightarrow> P S cds c seq sf s res"
      and step: "(case Log_Read S' c (sf_log sf) seq s of
        (Inl err, s1) \<Rightarrow> Some (if errors_is err ErrEndOfStream then None else Some (Wrap ''drain log'' err), sf, s1)
      | (Inr records, s1) \<Rightarrow>
          (case processRecords S' cds c seq records sf s1 of
             None \<Rightarrow> None
           | Some (Some err, sf', s2) \<Rightarrow> Some (Some err, sf', s2)
           | Some (None, sf', s2) \<Rightarrow> loop S' cds c (seq + 1) sf' s2)) = Some res"
    show "P S' cds c seq sf s res"
      unfolding P_def
    proof (intro impI allI)
      fix xs assume eq: "S' = S" "cds = fc_codecs X" and s: "inv s" "flush_inv X xs (view s)" and st: "stands sf seq xs (view s)"
      obtain r s1 where rd: "Log_Read S c (sf_log sf) seq s = (r, s1)" by fastforce
      show "moves s xs (snd (snd res)) (\<lambda>ys v. fst res = None \<longrightarrow> flushed_upto X ys v (length ys))"
      proof (cases r)
        case (Inl e)
        with step rd eq have res: "res = (if errors_is e ErrEndOfStream then None else Some (Wrap ''drain log'' e), sf, s1)" by auto
        have "l_prefix (sf_log sf) = WALPrefix (fc_scope X)" using st by (simp add: stands_def)
        from Log_Read_moves [OF s this rd] have "moves s xs s1 (\<lambda>ys v. fst res = None \<longrightarrow> flushed_upto X ys v (length ys))"
        proof (rule moves_mono)
          fix ys assume ys: "prefix xs ys" "flush_le X (view s) (view s1)"
            and post: "(\<forall>e. r = Inl e \<longrightarrow> errors_is e ErrEndOfStream \<longrightarrow> length ys < unat seq)
              \<and> (\<forall>records. r = Inr records \<longrightarrow> entry_at ys seq records)"
          from end_of_stream [OF stands_mono [OF st ys flush_inv_wal [OF s(2)]]] post Inl
          show "fst res = None \<longrightarrow> flushed_upto X ys (view s1) (length ys)" by (simp add: res)
        qed
        then show ?thesis by (simp add: res)
      next
        case (Inr records)
        with step rd eq obtain err1 sf1 s2 where run: "processRecords S (fc_codecs X) c seq records sf s1 = Some (err1, sf1, s2)"
          by (auto split: option.splits)
        note mv = round_spec [OF s st rd [unfolded Inr] run]
        show ?thesis
        proof (cases err1)
          case (Some e)
          with step rd eq Inr run have "res = (Some e, sf1, s2)" by auto
          with mv show ?thesis by (auto elim: moves_mono)
        next
          case None
          with step rd eq Inr run have "loop S (fc_codecs X) c (seq + 1) sf1 s2 = Some res" by auto
          from IH [OF this] have P: "P S (fc_codecs X) c (seq + 1) sf1 s2 res" .
          from mv show ?thesis
            by (rule moves_trans) (use P None in \<open>simp add: P_def\<close>)
        qed
      qed
    qed
  qed
  with assms(2-) show ?thesis by (simp add: P_def)
qed

end

end
