(* ===== verification/Flush_Stream.thy ===== *)
theory Flush_Stream
  imports Flush_Steps Log_Properties
begin

text \<open>
  A stream flusher from its start to its end: in a store whose other processes keep \<open>flush_rely\<close> every run keeps the
  invariant, and a run that waits for more, or that was told to stop and returned without an error, has flushed
  every entry of the log. The contract is interpreted on the world of \<open>World\<close>, for any set of
  codecs, any scope and any set of forked branches.
\<close>

context flush_store
begin

lemma init_stands:
  assumes "flush_inv X ys v" and "init_post sf (Inr minC) sf' ys v"
    and "sf_scope sf = fc_scope X" and "l_prefix (sf_log sf) = WALPrefix (fc_scope X)"
  shows "stands sf' (minC + 1) ys v"
proof -
  from assms(2) have up: "flushed_upto X ys v (unat minC)" by (simp add: init_post_def)
  have "length ys < 2 ^ 64 - 1" by (rule log_is_length [OF flush_inv_log [OF assms(1)]])
  with up have "unat (minC + 1) = unat minC + 1" by (simp add: unat_plus_if' flushed_upto_def)
  with up assms(2-4) show ?thesis by (simp add: stands_def init_post_def)
qed

text \<open>Before the checkpoints are read.\<close>

definition fresh :: "streamFlusher \<Rightarrow> bytes list \<Rightarrow> view \<Rightarrow> bool" where
  "fresh sf xs v \<longleftrightarrow> sf_scope sf = fc_scope X \<and> l_prefix (sf_log sf) = WALPrefix (fc_scope X)
     \<and> cps_ok X xs v (sf_branchCheckpoints sf)"

definition flushed_all :: "gerr option \<Rightarrow> bytes list \<Rightarrow> view \<Rightarrow> bool" where
  "flushed_all err ys v \<longleftrightarrow> (err = None \<longrightarrow> flushed_upto X ys v (length ys))"

lemma shutdownFlush_spec:
  assumes "inv s" and "flush_inv X xs (view s)"
    and st: "if seq = 0 then fresh sf xs (view s) else stands sf seq xs (view s)"
    and run: "shutdownFlush S (fc_codecs X) c seq sf s = Some (err, sf', s')"
  shows "moves s xs s' (flushed_all err)"
proof (cases "seq = 0")
  case False
  with st run drain_spec [OF _ assms(1,2)] show ?thesis
    by (simp add: shutdownFlush_def flushed_all_def [abs_def])
next
  case True
  with st have fr: "fresh sf xs (view s)" by simp
  obtain r sf1 s1 where init: "initCheckpoints S (fc_codecs X) c sf s = (r, sf1, s1)" by (metis prod_cases3)
  have "moves s xs s1 (init_post sf r sf1)"
    by (rule initCheckpoints_spec [OF assms(1,2) _ _ init]) (use fr in \<open>simp_all add: fresh_def\<close>)
  then show ?thesis
  proof (rule moves_trans)
    fix ys assume ys: "flush_inv X ys (view s1)" "init_post sf r sf1 ys (view s1)" "inv s1"
    show "moves s1 ys s' (flushed_all err)"
    proof (cases r)
      case (Inl e)
      with True run init have "err = Some (Wrap ''init checkpoints on shutdown'' e)" "s' = s1"
        by (auto simp: shutdownFlush_def)
      with moves_refl [OF ys(3,1), of "flushed_all err"] show ?thesis by (simp add: flushed_all_def)
    next
      case (Inr minC)
      with True run init have "drain S (fc_codecs X) c (minC + 1) sf1 s1 = Some (err, sf', s')"
        by (simp add: shutdownFlush_def)
      moreover have "stands sf1 (minC + 1) ys (view s1)"
        using init_stands [OF ys(1) ys(2) [unfolded Inr]] fr by (simp add: fresh_def)
      ultimately show ?thesis using drain_spec [OF _ ys(3,1)] by (simp add: flushed_all_def [abs_def])
    qed
  qed
qed

definition stream_post :: "stream_state \<Rightarrow> bytes list \<Rightarrow> view \<Rightarrow> bool" where
  "stream_post st ys v \<longleftrightarrow>
     (case st of
        Returned err \<Rightarrow> flushed_all err ys v
      | Waiting q \<Rightarrow> flushed_upto X ys v (length ys) \<and> unat q = length ys + 1)"

lemma shutdown_returned:
  assumes "inv s" and "flush_inv X xs (view s)"
    and "if seq = 0 then fresh sf xs (view s) else stands sf seq xs (view s)"
    and "returned (shutdownFlush S (fc_codecs X) c seq sf s) = Some (st, sf', s')"
  shows "moves s xs s' (stream_post st)"
proof -
  from assms(4) obtain err where "st = Returned err" "shutdownFlush S (fc_codecs X) c seq sf s = Some (err, sf', s')"
    by (auto simp: returned_def)
  with shutdownFlush_spec [OF assms(1-3)] show ?thesis by (simp add: stream_post_def [abs_def] flushed_all_def [abs_def])
qed

lemma stream_loop_spec:
  assumes "stream_loop S (fc_codecs X) c bg evs seq sf s = Some (st, sf', s')" and "inv s" and "flush_inv X xs (view s)"
    and "stands sf seq xs (view s)"
  shows "moves s xs s' (stream_post st)"
proof -
  define P where "P = (\<lambda>S' cds (c :: ctx) (bg :: ctx) (evs :: stream_event list) seq sf s (res :: stream_state \<times> streamFlusher \<times> 's).
      S' = S \<longrightarrow> cds = fc_codecs X \<longrightarrow> (\<forall>xs. inv s \<longrightarrow> flush_inv X xs (view s) \<longrightarrow> stands sf seq xs (view s) \<longrightarrow>
        moves s xs (snd (snd res)) (stream_post (fst res))))"
  from assms(1) have "P S (fc_codecs X) c bg evs seq sf s (st, sf', s')"
  proof (rule stream_loop.raw_induct [rotated])
    fix loop S' cds c bg evs seq sf s res
    assume IH: "\<And>S cds c bg evs seq sf s res. loop S cds c bg evs seq sf s = Some res \<Longrightarrow> P S cds c bg evs seq sf s res"
      and step: "(case Log_Read S' c (sf_log sf) seq s of
        (Inl err, s1) \<Rightarrow>
          if errors_is err ErrEndOfStream
          then
            (case evs of
               [] \<Rightarrow> Some (Waiting seq, sf, s1)
             | StreamDone # _ \<Rightarrow> returned (shutdownFlush S' cds bg seq sf s1)
             | PollTimer # evs' \<Rightarrow> loop S' cds c bg evs' seq sf s1)
          else if context_err err then returned (shutdownFlush S' cds bg seq sf s1)
          else Some (Returned (Some (Wrap ''read log'' err)), sf, s1)
      | (Inr records, s1) \<Rightarrow>
          (case processRecords S' cds c seq records sf s1 of
             None \<Rightarrow> None
           | Some (Some err, sf', s2) \<Rightarrow>
               if context_err err then returned (shutdownFlush S' cds bg seq sf' s2)
               else Some (Returned (Some err), sf', s2)
           | Some (None, sf', s2) \<Rightarrow> loop S' cds c bg evs (seq + 1) sf' s2)) = Some res"
    show "P S' cds c bg evs seq sf s res"
      unfolding P_def
    proof (intro impI allI)
      fix xs assume eq: "S' = S" "cds = fc_codecs X" and s: "inv s" "flush_inv X xs (view s)" and st: "stands sf seq xs (view s)"
      obtain stt sft sst where res: "res = (stt, sft, sst)" by (metis prod_cases3)
      have seq0: "seq \<noteq> 0" using st by (auto simp: stands_def)
      have l: "l_prefix (sf_log sf) = WALPrefix (fc_scope X)" using st by (simp add: stands_def)
      obtain r s1 where rd: "Log_Read S c (sf_log sf) seq s = (r, s1)" by fastforce
      show "moves s xs (snd (snd res)) (stream_post (fst res))"
      proof (cases r)
        case (Inl e)
        from Log_Read_moves [OF s l rd] show ?thesis
        proof (rule moves_trans)
          fix ys assume ys: "prefix xs ys" "flush_inv X ys (view s1)" "flush_le X (view s) (view s1)" and i1: "inv s1"
            and post: "(\<forall>e. r = Inl e \<longrightarrow> errors_is e ErrEndOfStream \<longrightarrow> length ys < unat seq)
              \<and> (\<forall>records. r = Inr records \<longrightarrow> entry_at ys seq records)"
          have st1: "stands sf seq ys (view s1)" by (rule stands_mono [OF st ys(1,3) flush_inv_wal [OF s(2)]])
          have down: "moves s1 ys (snd (snd res)) (stream_post (fst res))"
            if "returned (shutdownFlush S (fc_codecs X) bg seq sf s1) = Some res"
            using shutdown_returned [OF i1 ys(2) _ that [unfolded res]] st1 seq0 by (simp add: res)
          have stop: "moves s1 ys (snd (snd res)) (stream_post (fst res))"
            if "res = (stt', sf, s1)" "stream_post stt' ys (view s1)" for stt'
            using moves_refl [OF i1 ys(2), of "stream_post stt'"] that by simp
          show "moves s1 ys (snd (snd res)) (stream_post (fst res))"
          proof (cases "errors_is e ErrEndOfStream")
            case True
            with post Inl end_of_stream [OF st1] have fin: "stream_post (Waiting seq) ys (view s1)" by (simp add: stream_post_def)
            show ?thesis
            proof (cases evs)
              case Nil
              with True step rd eq Inl stop [OF _ fin] show ?thesis by simp
            next
              case (Cons ev evs')
              show ?thesis
              proof (cases ev)
                case StreamDone
                with Cons True step rd eq Inl down show ?thesis by simp
              next
                case PollTimer
                with Cons True step rd eq Inl have "loop S (fc_codecs X) c bg evs' seq sf s1 = Some res" by simp
                with IH [OF this] i1 ys(2) st1 show ?thesis by (simp add: P_def)
              qed
            qed
          next
            case False
            with step rd eq Inl down stop [of "Returned (Some (Wrap ''read log'' e))"] show ?thesis
              by (auto simp: stream_post_def flushed_all_def split: if_splits)
          qed
        qed
      next
        case (Inr records)
        with step rd eq obtain err1 sf1 s2 where run: "processRecords S (fc_codecs X) c seq records sf s1 = Some (err1, sf1, s2)"
          by (auto split: option.splits)
        from round_spec [OF s st rd [unfolded Inr] run] show ?thesis
        proof (rule moves_trans)
          fix ys assume ys: "flush_inv X ys (view s2)" "inv s2" and post: "(err1 = None \<longrightarrow> stands sf1 (seq + 1) ys (view s2))
              \<and> (\<forall>e. err1 = Some e \<longrightarrow> context_err e \<longrightarrow> stands sf1 seq ys (view s2))"
          show "moves s2 ys (snd (snd res)) (stream_post (fst res))"
          proof (cases err1)
            case None
            with step rd eq Inr run have "loop S (fc_codecs X) c bg evs (seq + 1) sf1 s2 = Some res" by auto
            with IH [OF this] ys post None show ?thesis by (simp add: P_def)
          next
            case (Some e)
            show ?thesis
            proof (cases "context_err e")
              case True
              with Some step rd eq Inr run have "returned (shutdownFlush S (fc_codecs X) bg seq sf1 s2) = Some res" by auto
              with shutdown_returned [OF ys(2,1) _ this [unfolded res]] True Some post seq0 show ?thesis by (simp add: res)
            next
              case False
              with Some step rd eq Inr run have "res = (Returned (Some e), sf1, s2)" by auto
              with moves_refl [OF ys(2,1), of "stream_post (Returned (Some e))"] show ?thesis
                by (simp add: stream_post_def flushed_all_def)
            qed
          qed
        qed
      qed
    qed
  qed
  with assms(2-) show ?thesis by (simp add: P_def)
qed

lemma stream_Run_spec:
  assumes "inv s" and "flush_inv X xs (view s)" and fr: "fresh sf xs (view s)"
    and run: "stream_Run S (fc_codecs X) c bg evs sf s = Some (st, sf', s')"
  shows "moves s xs s' (stream_post st)"
proof -
  obtain r sf1 s1 where init: "initCheckpoints S (fc_codecs X) c sf s = (r, sf1, s1)" by (metis prod_cases3)
  have "moves s xs s1 (init_post sf r sf1)"
    by (rule initCheckpoints_spec [OF assms(1,2) _ _ init]) (use fr in \<open>simp_all add: fresh_def\<close>)
  then show ?thesis
  proof (rule moves_trans)
    fix ys assume ys: "flush_inv X ys (view s1)" "init_post sf r sf1 ys (view s1)" "inv s1"
    have fr1: "fresh sf1 ys (view s1)" using fr ys(2) by (simp add: fresh_def init_post_def)
    show "moves s1 ys s' (stream_post st)"
    proof (cases r)
      case (Inr minC)
      with run init have "stream_loop S (fc_codecs X) c bg evs (minC + 1) sf1 s1 = Some (st, sf', s')"
        by (simp add: stream_Run_def)
      moreover have "stands sf1 (minC + 1) ys (view s1)"
        using init_stands [OF ys(1) ys(2) [unfolded Inr]] fr by (simp add: fresh_def)
      ultimately show ?thesis using stream_loop_spec [OF _ ys(3,1)] by blast
    next
      case (Inl e)
      show ?thesis
      proof (cases "context_err e")
        case True
        with run init Inl have "returned (shutdownFlush S (fc_codecs X) bg 0 sf1 s1) = Some (st, sf', s')"
          by (simp add: stream_Run_def)
        with shutdown_returned [OF ys(3,1), where seq = 0] fr1 show ?thesis by simp
      next
        case False
        with run init Inl have "st = Returned (Some e)" "s' = s1" by (auto simp: stream_Run_def)
        with moves_refl [OF ys(3,1), of "stream_post st"] show ?thesis by (simp add: stream_post_def flushed_all_def)
      qed
    qed
  qed
qed

end

subsection \<open>Every run returns\<close>

text \<open>On a store where the compare-and-swap loops of a flush end, the loops over the log end as well: each round that goes
  on has read an entry, so its sequence number is below the length of the log, which is below \<open>2 ^ 64\<close>.\<close>

locale flush_ends = flush_store S view inv issued rely evolves X
  for S :: "'s Store" and view inv issued rely evolves and X :: flush_ctx +
  assumes flush_ends: "inv s \<Longrightarrow> \<exists>r s'. flush_loop S (cd_manifest (fc_codecs X)) c key ref seq s = Some (r, s') \<and> inv s'"
    and add_ends: "inv s \<Longrightarrow> \<exists>res. AddBranch S (cd_branches (fc_codecs X)) c sc b s = Some res"
begin

lemma flush_commit_returns:
  assumes "inv s"
  shows "\<exists>res. flush_commit S (fc_codecs X) c b ref seq sf s = Some res"
proof -
  obtain r s1 where loop: "flush_loop S (cd_manifest (fc_codecs X)) c (ManifestKey (sf_scope sf) b) ref seq s = Some (r, s1)" "inv s1"
    using flush_ends [OF assms] by blast
  obtain r2 s2 where "AddBranch S (cd_branches (fc_codecs X)) c (sf_scope sf) b s1 = Some (r2, s2)"
    using add_ends [OF loop(2)] by fastforce
  with loop(1) show ?thesis by (cases r; cases r2) (simp_all add: flush_commit_def)
qed

lemma processRecords_returns:
  assumes "inv s"
  shows "\<exists>err sf' s'. processRecords S (fc_codecs X) c seq records sf s = Some (err, sf', s')"
proof -
  have "\<exists>res. flushBranch S (fc_codecs X) c b ms seq sf s = Some res" for b ms sf
  proof (cases "encode_segment (cd_mutation (fc_codecs X)) ms")
    case (Inr data)
    obtain r s1 where put: "Store_Put S c (SegmentKey (sf_scope sf) (segment_name data)) (bytes_Reader data) cond_absent s = (r, s1)"
      by fastforce
    from put_law [OF assms put] have "inv s1" by blast
    with Inr put flush_commit_returns show ?thesis
      by (cases "upload_failed r") (auto simp: flushBranch_def Let_def)
  qed (simp add: flushBranch_def)
  then show ?thesis by (auto simp: processRecords_def split: prod.splits sum.splits)
qed

lemma Log_Read_inv:
  assumes "inv s" and "flush_inv X xs (view s)" and "stands sf seq xs (view s)"
    and "Log_Read S c (sf_log sf) seq s = (r, s')"
  obtains ys where "inv s'" and "flush_inv X ys (view s')" and "stands sf seq ys (view s')"
    and "\<And>records. r = Inr records \<Longrightarrow> unat seq \<le> length ys"
proof -
  from assms(3) have "l_prefix (sf_log sf) = WALPrefix (fc_scope X)" by (simp add: stands_def)
  from Log_Read_moves [OF assms(1,2) this assms(4)] obtain ys where "inv s'" "prefix xs ys" "flush_inv X ys (view s')"
    "flush_le X (view s) (view s')" "\<forall>records. r = Inr records \<longrightarrow> entry_at ys seq records"
    unfolding moves_def by blast
  with stands_mono [OF assms(3) this(2,4) flush_inv_wal [OF assms(2)]] that [of ys] show thesis
    by (simp add: entry_at_def)
qed

text \<open>The next round has a larger sequence number.\<close>

lemma round_next:
  assumes "inv s" and "flush_inv X xs (view s)" and "stands sf seq xs (view s)"
    and rd: "Log_Read S c (sf_log sf) seq s = (Inr records, s1)"
    and run: "processRecords S (fc_codecs X) c seq records sf s1 = Some (err, sf', s2)"
  obtains ys where "inv s2" and "flush_inv X ys (view s2)"
    and "err = None \<Longrightarrow> stands sf' (seq + 1) ys (view s2) \<and> 2 ^ 64 - unat (seq + 1) < 2 ^ 64 - unat seq"
    and "\<And>e. err = Some e \<Longrightarrow> context_err e \<Longrightarrow> stands sf' seq ys (view s2)"
proof -
  from round_spec [OF assms] obtain ys where ys: "inv s2" "flush_inv X ys (view s2)"
    "err = None \<longrightarrow> stands sf' (seq + 1) ys (view s2)" "\<forall>e. err = Some e \<longrightarrow> context_err e \<longrightarrow> stands sf' seq ys (view s2)"
    unfolding moves_def by blast
  obtain zs where zs: "flush_inv X zs (view s1)" "unat seq \<le> length zs" using Log_Read_inv [OF assms(1-3) rd] by metis
  have "length zs < 2 ^ 64 - 1" by (rule log_is_length [OF flush_inv_log [OF zs(1)]])
  with zs(2) have "unat (seq + 1) = unat seq + 1" "unat seq < 2 ^ 64" by (simp_all add: unat_plus_if')
  with ys that show thesis by simp
qed

lemma drain_returns:
  assumes "inv s" and "flush_inv X xs (view s)" and "stands sf seq xs (view s)"
  shows "\<exists>res. drain S (fc_codecs X) c seq sf s = Some res"
  using assms
proof (induction "2 ^ 64 - unat seq" arbitrary: seq sf s xs rule: less_induct)
  case less
  obtain r s1 where rd: "Log_Read S c (sf_log sf) seq s = (r, s1)" by fastforce
  show ?case
  proof (cases r)
    case (Inl e)
    with rd show ?thesis by (simp add: drain.simps [of S])
  next
    case (Inr records)
    obtain ys where "inv s1" by (rule Log_Read_inv [OF less.prems rd])
    from processRecords_returns [OF this] obtain err sf' s2
      where run: "processRecords S (fc_codecs X) c seq records sf s1 = Some (err, sf', s2)" by blast
    obtain zs where zs: "inv s2" "flush_inv X zs (view s2)"
      "err = None \<Longrightarrow> stands sf' (seq + 1) zs (view s2) \<and> 2 ^ 64 - unat (seq + 1) < 2 ^ 64 - unat seq"
      by (rule round_next [OF less.prems rd [unfolded Inr] run]) blast
    show ?thesis
    proof (cases err)
      case None
      from less.hyps [OF conjunct2 [OF zs(3) [OF None]] zs(1,2) conjunct1 [OF zs(3) [OF None]]] rd Inr run None
      show ?thesis by (simp add: drain.simps [of S])
    next
      case (Some e)
      with rd Inr run show ?thesis by (simp add: drain.simps [of S])
    qed
  qed
qed

lemma shutdownFlush_returns:
  assumes "inv s" and "flush_inv X xs (view s)" and "if seq = 0 then fresh sf xs (view s) else stands sf seq xs (view s)"
  shows "\<exists>err sf' s'. shutdownFlush S (fc_codecs X) c seq sf s = Some (err, sf', s')"
proof (cases "seq = 0")
  case False
  with drain_returns [OF assms(1,2)] assms(3) show ?thesis by (simp add: shutdownFlush_def)
next
  case True
  with assms(3) have fr: "fresh sf xs (view s)" by simp
  obtain r sf1 s1 where init: "initCheckpoints S (fc_codecs X) c sf s = (r, sf1, s1)" by (metis prod_cases3)
  from initCheckpoints_spec [OF assms(1,2) _ _ init] fr have "moves s xs s1 (init_post sf r sf1)" by (simp add: fresh_def)
  then obtain ys where ys: "inv s1" "flush_inv X ys (view s1)" "init_post sf r sf1 ys (view s1)" unfolding moves_def by blast
  show ?thesis
  proof (cases r)
    case (Inr minC)
    from init_stands [OF ys(2) ys(3) [unfolded Inr]] fr have "stands sf1 (minC + 1) ys (view s1)" by (simp add: fresh_def)
    from drain_returns [OF ys(1,2) this] True init Inr show ?thesis by (simp add: shutdownFlush_def)
  qed (use True init in \<open>simp add: shutdownFlush_def\<close>)
qed

lemma shutdown_ends:
  assumes "inv s" and "flush_inv X xs (view s)" and "if seq = 0 then fresh sf xs (view s) else stands sf seq xs (view s)"
  shows "\<exists>res. returned (shutdownFlush S (fc_codecs X) c seq sf s) = Some res"
  using shutdownFlush_returns [OF assms, of c] by (auto simp: returned_def)

lemma stream_loop_returns:
  assumes "inv s" and "flush_inv X xs (view s)" and "stands sf seq xs (view s)"
  shows "\<exists>res. stream_loop S (fc_codecs X) c bg evs seq sf s = Some res"
  using assms
proof (induction "length evs + (2 ^ 64 - unat seq)" arbitrary: evs seq sf s xs rule: less_induct)
  case less
  have seq0: "seq \<noteq> 0" using less.prems(3) by (auto simp: stands_def)
  obtain r s1 where rd: "Log_Read S c (sf_log sf) seq s = (r, s1)" by fastforce
  obtain ys where ys: "inv s1" "flush_inv X ys (view s1)" "stands sf seq ys (view s1)" by (rule Log_Read_inv [OF less.prems rd])
  have down: "\<exists>res. returned (shutdownFlush S (fc_codecs X) bg seq sf s1) = Some res"
    using shutdown_ends [OF ys(1,2)] ys(3) seq0 by simp
  show ?case
  proof (cases r)
    case (Inl e)
    have "\<exists>res. stream_loop S (fc_codecs X) c bg evs' seq sf s1 = Some res" if "evs = PollTimer # evs'" for evs'
      using less.hyps [of evs' seq, OF _ ys] that by simp
    with rd Inl down show ?thesis
      by (subst stream_loop.simps) (auto split: list.split stream_event.split)
  next
    case (Inr records)
    from processRecords_returns [OF ys(1)] obtain err sf' s2
      where run: "processRecords S (fc_codecs X) c seq records sf s1 = Some (err, sf', s2)" by blast
    obtain zs where zs: "inv s2" "flush_inv X zs (view s2)"
      "err = None \<Longrightarrow> stands sf' (seq + 1) zs (view s2) \<and> 2 ^ 64 - unat (seq + 1) < 2 ^ 64 - unat seq"
      "\<And>e. err = Some e \<Longrightarrow> context_err e \<Longrightarrow> stands sf' seq zs (view s2)"
      by (rule round_next [OF less.prems rd [unfolded Inr] run]) blast
    show ?thesis
    proof (cases err)
      case None
      with less.hyps [of evs "seq + 1", OF _ zs(1,2)] zs(3) rd Inr run show ?thesis
        by (subst stream_loop.simps) simp
    next
      case (Some e)
      have "\<exists>res. returned (shutdownFlush S (fc_codecs X) bg seq sf' s2) = Some res" if "context_err e"
        using shutdown_ends [OF zs(1,2)] zs(4) [OF Some that] seq0 by simp
      with Some rd Inr run show ?thesis by (subst stream_loop.simps) (simp)
    qed
  qed
qed

lemma stream_Run_returns:
  assumes "inv s" and "flush_inv X xs (view s)" and fr: "fresh sf xs (view s)"
  shows "\<exists>res. stream_Run S (fc_codecs X) c bg evs sf s = Some res"
proof -
  obtain r sf1 s1 where init: "initCheckpoints S (fc_codecs X) c sf s = (r, sf1, s1)" by (metis prod_cases3)
  from initCheckpoints_spec [OF assms(1,2) _ _ init] fr have "moves s xs s1 (init_post sf r sf1)" by (simp add: fresh_def)
  then obtain ys where ys: "inv s1" "flush_inv X ys (view s1)" "init_post sf r sf1 ys (view s1)" unfolding moves_def by blast
  have "fresh sf1 ys (view s1)" using fr ys(3) by (simp add: fresh_def init_post_def)
  with shutdown_ends [OF ys(1,2), where seq = 0 and sf = sf1]
  have down: "\<exists>res. returned (shutdownFlush S (fc_codecs X) bg 0 sf1 s1) = Some res" by simp
  show ?thesis
  proof (cases r)
    case (Inr minC)
    from init_stands [OF ys(2) ys(3) [unfolded Inr]] fr have "stands sf1 (minC + 1) ys (view s1)" by (simp add: fresh_def)
    from stream_loop_returns [OF ys(1,2) this] init Inr show ?thesis by (simp add: stream_Run_def)
  qed (use init down in \<open>simp add: stream_Run_def\<close>)
qed

end

end
