(* ===== verification/Flush_Properties.thy ===== *)
theory Flush_Properties
  imports Flush_Stream Catalog_Properties
begin

text \<open>
  The properties of the flusher (\<open>src/ingest/flusher.go\<close>) on the world of \<open>World\<close>, where other flushers and
  writers act between any two calls, calls fail and contexts are cancelled: the contract of \<open>Flush_Contract\<close> is
  interpreted there for every well-formed setup.
\<close>

subsection \<open>Setups\<close>

text \<open>A namespace, its codecs, and the contents its segments may have: among them the hash tells any two apart.\<close>

definition ctx_ok :: "flush_ctx \<Rightarrow> bool" where
  "ctx_ok X \<longleftrightarrow> valid_scope (fc_scope X) \<and> codec_ok (cd_branches (fc_codecs X)) \<and> codec_ok (cd_manifest (fc_codecs X))
     \<and> codec_ok (cd_wal (fc_codecs X)) \<and> codec_ok (cd_mutation (fc_codecs X)) \<and> inj_on segment_name (fc_data X)"

definition mut_a :: DocumentMutation where
  "mut_a = \<lparr>dm_Branch = ''main'', dm_DocId = ''d'', dm_Op = MutationOp_PUT, dm_Payload = [7]\<rparr>"

definition entry_a :: bytes where "entry_a = frames [[1]]"

definition man_a :: BranchManifest where
  "man_a = \<lparr>bm_CheckpointSeq = 1, bm_SchemaVersion = 1, bm_Segments = [seg_ref [mut_a] entry_a]\<rparr>"

definition setup_a :: flush_ctx where
  "setup_a = \<lparr>fc_codecs = \<lparr>cd_catalog = cat_codec, cd_branches = branch_codec, cd_manifest = two_codec man_a new_manifest,
       cd_wal = two_codec (WalMutation mut_a) WalEmpty, cd_mutation = two_codec mut_a (mut_a\<lparr>dm_DocId := ''e''\<rparr>)\<rparr>,
     fc_scope = scope_a, fc_data = {entry_a}, fc_forks = {}\<rparr>"

lemma valid_scope_a [simp]: "valid_scope scope_a"
  by (simp add: Scope_Validate_def)

lemma ctx_ok_setup_a: "ctx_ok setup_a"
  by (simp add: ctx_ok_def setup_a_def)

typedef flush_setup = "{X. ctx_ok X}"
  using ctx_ok_setup_a by blast

abbreviation setup_ctx :: "flush_setup \<Rightarrow> flush_ctx" where "setup_ctx \<equiv> Rep_flush_setup"

lemma ctx_ok_setup: "ctx_ok (setup_ctx Y)"
  using Rep_flush_setup by blast

subsection \<open>The loops of a flush in the world\<close>

lemma manifest_or_new_world:
  assumes "codec_ok cd" and "world_inv R w" and "manifest_or_new world_Store cd c key w = (r, w')"
  shows "world_inv R w' \<and> wd_script w' = tl (wd_script w) \<and>
    (case r of Inl _ \<Rightarrow> True | Inr (y, gen) \<Rightarrow> seen (world_view w') key gen)"
proof -
  obtain r0 w0 where get: "Store_Get world_Store c key w = (r0, w0)" by fastforce
  obtain r1 w1 where rd: "manifest_Read world_Store cd c key w = (r1, w1)" by fastforce
  from get rd assms(3) have "w1 = w'" "w0 = w'"
    by (auto simp: manifest_or_new_def manifest_Read_def get_decode_def split: sum.splits if_splits)
  with world_Store_script(1) [OF get] ws.get_decode_law [OF assms(1,2) rd [unfolded manifest_Read_def]] assms(3) rd show ?thesis
    by (cases r1) (auto simp: manifest_or_new_def seen_def split: if_splits)
qed

lemma flush_loop_world:
  assumes "codec_ok cd" and "world_inv R w"
  shows "\<exists>r w'. flush_loop world_Store cd c key ref seq w = Some (r, w') \<and> world_inv R w'"
proof -
  have "\<exists>res. flush_loop world_Store cd c key ref seq w = Some res"
    unfolding flush_loop_def
    by (rule cas_loop_returns [OF assms(1) writes_as_manifest assms(2) manifest_or_new_world [OF assms(1)] refl])
  then obtain r w' where loop: "flush_loop world_Store cd c key ref seq w = Some (r, w')" by fastforce
  from ws.cas_loop_post [OF assms(1) writes_as_manifest ws.manifest_reader_ok [OF assms(1)] assms(2) loop [unfolded flush_loop_def]] loop show ?thesis by blast
qed

interpretation wf: flush_ends world_Store world_view "world_inv (flush_rely (setup_ctx Y))" world_issued
    "(flush_rely (setup_ctx Y))\<^sup>=\<^sup>=" world_evolves "setup_ctx Y"
  for Y
proof (unfold_locales, goal_cases)
  case (1 v v')
  then show ?case by (auto simp: flush_rely_def)
next
  case (2 v v')
  then show ?case by auto
next
  case (9 s c key ref seq)
  then show ?case using flush_loop_world ctx_ok_setup by (simp add: ctx_ok_def)
next
  case (10 s c sc b)
  then show ?case using updateBranches_returns ctx_ok_setup by (simp add: ctx_ok_def AddBranch_def)
qed (use ctx_ok_setup in \<open>simp_all add: ctx_ok_def\<close>)

subsection \<open>The documents of a manifest\<close>

text \<open>What the segments of a manifest hold, read with the segment reader, in order.\<close>

definition segment_documents :: "flush_ctx \<Rightarrow> view \<Rightarrow> SegmentRef \<Rightarrow> DocumentMutation list" where
  "segment_documents X v ref =
     (case segment_at X v (sg_SegmentId ref) of
        None \<Rightarrow> []
      | Some (d, _) \<Rightarrow> fst (seg_read_all (cd_mutation (fc_codecs X)) (seg_NewReader (bytes_Reader d))))"

definition manifest_documents :: "flush_ctx \<Rightarrow> view \<Rightarrow> BranchManifest \<Rightarrow> DocumentMutation list" where
  "manifest_documents X v m = concat (map (segment_documents X v) (bm_Segments m))"

text \<open>The mutations of a branch that the log holds up to entry \<open>k\<close>.\<close>

definition log_documents :: "flush_ctx \<Rightarrow> bytes list \<Rightarrow> string \<Rightarrow> nat \<Rightarrow> DocumentMutation list" where
  "log_documents X xs b k = concat (map (muts X xs b) [1..<Suc k])"

text \<open>A mutation that can be encoded is within the record limit.\<close>

definition mutations_fit :: "flush_ctx \<Rightarrow> bool" where
  "mutations_fit X \<longleftrightarrow> (\<forall>m d. marshal (cd_mutation (fc_codecs X)) m = Inr d \<longrightarrow> int (length d) \<le> DefaultMaxRecordSize)"

lemma marshal_all_set:
  assumes "marshal_all cd ms = Inr bs" and "b \<in> set bs"
  shows "\<exists>m. marshal cd m = Inr b"
  using assms by (induction ms arbitrary: bs) (auto split: sum.splits)

lemma segment_flushed:
  assumes "codec_ok (cd_mutation (fc_codecs X))" and "mutations_fit X" and "inj_on segment_name (fc_data X)" and "segments_ok X v"
    and enc: "encode_segment (cd_mutation (fc_codecs X)) ms = Inr data" and "data \<in> fc_data X"
    and "segment_at X v (segment_name data) = Some (d, g)"
  shows "seg_read_all (cd_mutation (fc_codecs X)) (seg_NewReader (bytes_Reader d)) = (ms, io_EOF)"
proof -
  let ?cd = "cd_mutation (fc_codecs X)"
  from assms(4,7) have "segment_name d = segment_name data" "d \<in> fc_data X" unfolding segments_ok_def by blast+
  with assms(3,6) have d: "d = data" by (auto dest: inj_onD)
  obtain bs where bs: "marshal_all ?cd ms = Inr bs"
    using enc encode_segment_error [of ?cd ms] by (cases "marshal_all ?cd ms") auto
  with enc encode_segment_frames [OF bs] have "data = frames bs" by simp
  moreover have "\<forall>b \<in> set bs. int (length b) \<le> DefaultMaxRecordSize"
    using marshal_all_set [OF bs] assms(2) unfolding mutations_fit_def by blast
  ultimately show ?thesis
    using segment_reads_back [OF assms(1) bs, of "bytes_Reader d"] d by (simp add: bytes_Reader_def is_eof_def)
qed

lemma built_encodes:
  assumes "built X xs b m" and "b \<notin> fc_forks X" and "length xs < 2 ^ 64"
    and "i \<le> unat (bm_CheckpointSeq m)" and "muts X xs b i \<noteq> []"
  shows "\<exists>data. encode_segment (cd_mutation (fc_codecs X)) (muts X xs b i) = Inr data"
  using assms
proof (induction arbitrary: i rule: built.induct)
  case (built_new b)
  then show ?case by (simp add: new_manifest_def muts_def)
next
  case (built_flush b m j data)
  have "unat (of_nat j :: u64) = j" using built_flush.hyps(3) built_flush.prems(2) by (intro unat_of_nat_u64) simp
  with built_flush.prems(3) have "i \<le> unat (bm_CheckpointSeq m) \<or> unat (bm_CheckpointSeq m) < i \<and> i < j \<or> i = j" by auto
  with built_flush show ?case by auto
qed auto

text \<open>An entry that a manifest covers has its segment there, which reads back as the mutations of the entry.\<close>

lemma manifest_segment:
  assumes "ctx_ok X" and "mutations_fit X" and inv: "flush_inv X xs v"
    and "b \<notin> fc_forks X" and "ok_branch b" and at: "manifest_at X v b m"
    and i: "i \<in> set [1..<Suc (unat (bm_CheckpointSeq m))]" and ne: "muts X xs b i \<noteq> []"
  shows "\<exists>data d g. encode_segment (cd_mutation (fc_codecs X)) (muts X xs b i) = Inr data
    \<and> segment_at X v (segment_name data) = Some (d, g)
    \<and> seg_read_all (cd_mutation (fc_codecs X)) (seg_NewReader (bytes_Reader d)) = (muts X xs b i, io_EOF)"
proof -
  have len: "length xs < 2 ^ 64" using log_is_length [OF flush_inv_log [OF inv]] by simp
  from inv assms(5) at have ok: "manifest_ok X xs v b m" by (simp add: flush_inv_def)
  then have built: "built X xs b m" by (simp add: manifest_ok_def)
  note refs = built_unforked [OF built assms(4) len]
  let ?enc = "encode_segment (cd_mutation (fc_codecs X)) (muts X xs b i)"
  from i have "i \<le> unat (bm_CheckpointSeq m)" by auto
  from built_encodes [OF built assms(4) len this ne] obtain data where data: "?enc = Inr data" by blast
  from ne have "1 \<le> i" "i \<le> length xs" by (auto simp: muts_def split: if_splits)
  with inv have "entry_ok X xs i" by (simp add: flush_inv_def wal_ok_def)
  with data ne have D: "data \<in> fc_data X" unfolding entry_ok_def by blast
  have "seg_ref (muts X xs b i) data \<in> set (bm_Segments m)"
    unfolding refs branch_refs_def using i data ne by (auto intro!: bexI [of _ i] simp del: upt_Suc)
  with ok obtain data' d g where "sg_SegmentId (seg_ref (muts X xs b i) data) = segment_name data'"
    "segment_at X v (segment_name data') = Some (d, g)" unfolding manifest_ok_def by blast
  then have s: "segment_at X v (segment_name data) = Some (d, g)" by (simp add: seg_ref_def)
  have X: "codec_ok (cd_mutation (fc_codecs X))" "inj_on segment_name (fc_data X)" "segments_ok X v"
    using assms(1) inv by (simp_all add: ctx_ok_def flush_inv_def)
  from segment_flushed [OF X(1) assms(2) X(2,3) data D s] data s show ?thesis by blast
qed

lemma manifest_refs:
  assumes "flush_inv X xs v" and "b \<notin> fc_forks X" and "ok_branch b" and "manifest_at X v b m"
  shows "bm_Segments m = branch_refs X xs b (unat (bm_CheckpointSeq m))"
proof -
  have "length xs < 2 ^ 64" using log_is_length [OF flush_inv_log [OF assms(1)]] by simp
  moreover from assms have "built X xs b m" by (simp add: flush_inv_def manifest_ok_def)
  ultimately show ?thesis using built_unforked assms(2) by blast
qed

lemma manifest_documents_log:
  assumes "ctx_ok X" and "mutations_fit X" and inv: "flush_inv X xs v"
    and "b \<notin> fc_forks X" and "ok_branch b" and at: "manifest_at X v b m"
  shows "manifest_documents X v m = log_documents X xs b (unat (bm_CheckpointSeq m))"
proof -
  let ?enc = "\<lambda>i. encode_segment (cd_mutation (fc_codecs X)) (muts X xs b i)"
  have one: "concat (map (segment_documents X v) (case ?enc i of Inl _ \<Rightarrow> [] | Inr data \<Rightarrow>
      if muts X xs b i = [] then [] else [seg_ref (muts X xs b i) data])) = muts X xs b i"
    if i: "i \<in> set [1..<Suc (unat (bm_CheckpointSeq m))]" for i
  proof (cases "muts X xs b i = []")
    case False
    with manifest_segment [OF assms i] show ?thesis by (auto simp: segment_documents_def seg_ref_def)
  qed (simp split: sum.split)
  have cong: "concat (map f (concat (map h is))) = concat (map k is)"
    if "\<And>i. i \<in> set is \<Longrightarrow> concat (map f (h i)) = k i" for f h k "is"
    using that by (induction "is") auto
  show ?thesis
    unfolding manifest_documents_def log_documents_def manifest_refs [OF assms(3-6)] branch_refs_def by (rule cong [OF one])
qed

text \<open>All segments of a manifest are there and can be read to their end.\<close>

definition segment_whole :: "flush_ctx \<Rightarrow> view \<Rightarrow> SegmentRef \<Rightarrow> bool" where
  "segment_whole X v ref =
     (case segment_at X v (sg_SegmentId ref) of
        None \<Rightarrow> False
      | Some (d, _) \<Rightarrow> errors_is (snd (seg_read_all (cd_mutation (fc_codecs X)) (seg_NewReader (bytes_Reader d)))) io_EOF)"

lemma manifest_segments_whole:
  assumes "ctx_ok X" and "mutations_fit X" and inv: "flush_inv X xs v"
    and "b \<notin> fc_forks X" and "ok_branch b" and at: "manifest_at X v b m" and "ref \<in> set (bm_Segments m)"
  shows "segment_whole X v ref"
proof -
  let ?enc = "\<lambda>i. encode_segment (cd_mutation (fc_codecs X)) (muts X xs b i)"
  from assms(7) [unfolded manifest_refs [OF assms(3-6)]] obtain i where i: "i \<in> set [1..<Suc (unat (bm_CheckpointSeq m))]"
      "ref \<in> set (case ?enc i of Inl _ \<Rightarrow> [] | Inr data \<Rightarrow> if muts X xs b i = [] then [] else [seg_ref (muts X xs b i) data])"
    unfolding branch_refs_def set_concat set_map by blast
  then obtain data where data: "?enc i = Inr data" "muts X xs b i \<noteq> []" "ref = seg_ref (muts X xs b i) data"
    by (cases "?enc i") (simp_all split: if_splits)
  with manifest_segment [OF assms(1-6) i(1) data(2)] show ?thesis by (auto simp: segment_whole_def seg_ref_def)
qed

text \<open>After the last entry of a branch its manifest holds the whole log.\<close>

lemma log_documents_gap:
  assumes "j \<le> k" and "\<forall>i. j < i \<longrightarrow> i \<le> k \<longrightarrow> muts X xs b i = []"
  shows "log_documents X xs b k = log_documents X xs b j"
proof -
  have "[1..<Suc k] = [1..<Suc j] @ [Suc j..<Suc k]"
    using upt_add_eq_append [of 1 "Suc j" "k - j"] assms(1) by (simp del: upt_Suc)
  moreover have "muts X xs b i = []" if "i \<in> set [Suc j..<Suc k]" for i using that assms(2) by auto
  ultimately show ?thesis unfolding log_documents_def by (auto simp: concat_eq_Nil_conv simp del: upt_Suc)
qed

lemma flushed_documents:
  assumes "ctx_ok X" and "mutations_fit X" and inv: "flush_inv X xs v" and up: "flushed_upto X xs v (length xs)"
    and "b \<notin> fc_forks X" and docs: "log_documents X xs b (length xs) \<noteq> []"
  shows "\<exists>m. manifest_at X v b m \<and> manifest_documents X v m = log_documents X xs b (length xs)"
proof -
  let ?I = "{i. i \<le> length xs \<and> muts X xs b i \<noteq> []}"
  from docs have ne: "?I \<noteq> {}" by (force simp: log_documents_def concat_eq_Nil_conv simp del: upt_Suc)
  have fin: "finite ?I" by simp
  define i where "i = Max ?I"
  have i: "i \<in> ?I" unfolding i_def by (rule Max_in [OF fin ne])
  have last: "muts X xs b j = []" if "i < j" "j \<le> length xs" for j
    using Max_ge [OF fin, of j] that by (fastforce simp: i_def)
  from up i obtain m where m: "manifest_at X v b m" "i \<le> unat (bm_CheckpointSeq m)" unfolding flushed_upto_def by blast
  have wal: "wal_ok X xs" using inv by (simp add: flush_inv_def)
  from i have b: "ok_branch b" using muts_ok_branch [OF wal] by blast
  with inv m(1) have "built X xs b m" by (simp add: flush_inv_def manifest_ok_def)
  then have "unat (bm_CheckpointSeq m) \<le> length xs"
    using built_bound log_is_length [OF flush_inv_log [OF inv]] by simp
  with log_documents_gap [OF this] last m(2) manifest_documents_log [OF assms(1-3,5) b m(1)] m(1) show ?thesis by auto
qed

subsection \<open>A run, computed\<close>

text \<open>The store of a namespace whose log has one entry, one document for branch \<open>main\<close>, and what a stream makes of it.\<close>

abbreviation logged_world :: world where
  "logged_world \<equiv> first_append (WALPrefix scope_a) [[1]]"

definition flushed_world :: world where
  "flushed_world =
     quiet_put (branchesKey scope_a) [1]
       (quiet_put (ManifestKey scope_a ''main'') [1]
         (quiet_put (SegmentKey scope_a (segment_name entry_a)) entry_a logged_world))"

definition stream_a :: streamFlusher where
  "stream_a = \<lparr>sf_log = \<lparr>l_prefix = WALPrefix scope_a, lastKnown = 0\<rparr>, sf_scope = scope_a, sf_walPrefix = WALPrefix scope_a,
     sf_pollInterval = defaultPollInterval, sf_branchCheckpoints = Map.empty\<rparr>"

lemma logged_view:
  "world_view logged_world = Map.empty(segmentKey (WALPrefix scope_a) 1 \<mapsto> (entry_a, localGeneration 1 (int (length entry_a))))"
  by (rule ext) (simp add: world_view_def first_append_def new_world_def newMemStore_def mem_view_def entry_a_def)

lemma scope_a_keys [simp]:
  "segmentKey (WALPrefix scope_a) q \<noteq> SegmentKey scope_a (segment_name d)"
  "segmentKey (WALPrefix scope_a) q \<noteq> branchesKey scope_a"
  "ok_branch b \<Longrightarrow> segmentKey (WALPrefix scope_a) q \<noteq> ManifestKey scope_a b"
  using flush_keys_not_log [OF valid_scope_a] segmentKey_prefix by metis+

lemma ok_main [simp]: "ok_branch ''main''"
  by (simp add: ok_branch_def)

lemma main_keys [simp]:
  "ManifestKey scope_a ''main'' \<noteq> SegmentKey scope_a (segment_name d)"
  "SegmentKey scope_a (segment_name d) \<noteq> ManifestKey scope_a ''main''"
  "ManifestKey scope_a ''main'' \<noteq> branchesKey scope_a"
  "branchesKey scope_a \<noteq> ManifestKey scope_a ''main''"
  "SegmentKey scope_a (segment_name d) \<noteq> branchesKey scope_a"
  "branchesKey scope_a \<noteq> SegmentKey scope_a (segment_name d)"
  using flush_keys(3-5) [OF valid_scope_a] ok_main by metis+

lemma entry_a_records: "entry_records entry_a = [[1]]"
  unfolding entry_a_def by (rule entry_records_frames) (simp add: DefaultMaxRecordSize_def)

lemma entry_a_mutations: "entry_mutations setup_a [entry_a] 1 = [mut_a]"
  by (simp add: entry_mutations_def entry_a_records setup_a_def batch_mutations_def rec_mutation_def two_codec_def map_filter_simps mut_a_def)

lemma muts_a: "muts setup_a [entry_a] b i = (if b = ''main'' \<and> i = 1 then [mut_a] else [])"
  using entry_a_mutations by (auto simp: muts_def mut_a_def)

lemma encode_a: "encode_segment (cd_mutation (fc_codecs setup_a)) [mut_a] = Inr entry_a"
  unfolding entry_a_def by (rule encode_segment_frames) (simp add: setup_a_def two_codec_def)

lemma flush_inv_logged: "flush_inv setup_a [entry_a] (world_view logged_world)"
proof -
  have "log_is (WALPrefix scope_a) ([] @ [entry_a])
      ((world_view (new_world []))(segmentKey (WALPrefix scope_a) 1 \<mapsto> (entry_a, localGeneration 1 (int (length entry_a)))))"
    by (rule log_is_append [OF log_is_new_world]) simp_all
  moreover have "world_view (new_world []) = Map.empty" by (rule ext) simp
  ultimately have log: "log_is (WALPrefix scope_a) [entry_a] (world_view logged_world)" by (simp add: logged_view)
  have "dm_Branch mut_a = ''main''" by (simp add: mut_a_def)
  then have "entry_ok setup_a [entry_a] 1"
    unfolding entry_ok_def muts_a entry_a_mutations
    by (auto simp: entry_a_records encode_a) (simp_all add: setup_a_def two_codec_def rec_event_def)
  then have "wal_ok setup_a [entry_a]" by (auto simp: wal_ok_def le_Suc_eq)
  moreover have "segment_at setup_a (world_view logged_world) (segment_name d) = None" for d
    by (simp add: setup_a_def logged_view scope_a_keys [symmetric] del: scope_a_keys)
  moreover have "\<not> manifest_at setup_a (world_view logged_world) b m" if "ok_branch b" for b m
    using not_sym [OF scope_a_keys(3) [OF that]] by (auto simp: setup_a_def manifest_at_def logged_view)
  moreover have "branches_ok setup_a (world_view logged_world)"
    unfolding branches_ok_def
    by (auto simp: setup_a_def meaning_def logged_view not_sym [OF scope_a_keys(2)] empty_branches_def)
  ultimately show ?thesis
    using log by (simp add: flush_inv_def segments_ok_def) (simp add: setup_a_def)
qed

abbreviation uploaded_world :: world where
  "uploaded_world \<equiv> quiet_put (SegmentKey scope_a (segment_name entry_a)) entry_a logged_world"

abbreviation committed_world :: world where
  "committed_world \<equiv> quiet_put (ManifestKey scope_a ''main'') [1] uploaded_world"

lemmas quiet_worlds = quiet_first_append quiet_quiet_put

lemma committed_view:
  "world_view logged_world (SegmentKey scope_a (segment_name d)) = None"
  "world_view uploaded_world (ManifestKey scope_a ''main'') = None"
  "world_view committed_world (branchesKey scope_a) = None"
  "world_view logged_world (ManifestKey scope_a ''main'') = None"
  "world_view logged_world (branchesKey scope_a) = None"
  using not_sym [OF scope_a_keys(1)] not_sym [OF scope_a_keys(2)] not_sym [OF scope_a_keys(3) [OF ok_main]]
  by (simp_all add: logged_view)

lemma commit_run:
  "flush_commit world_Store (fc_codecs setup_a) c ''main'' (seg_ref [mut_a] entry_a) 1 stream_a uploaded_world =
     Some (None, stream_a\<lparr>sf_branchCheckpoints := [''main'' \<mapsto> 1]\<rparr>, flushed_world)"
proof -
  have "flush_loop world_Store (two_codec man_a new_manifest) c (ManifestKey scope_a ''main'') (seg_ref [mut_a] entry_a) 1 uploaded_world
      = Some (Inr 1, committed_world)"
    unfolding flush_loop_def
    by (subst quiet_cas [where y = new_manifest and gen = "[]" and x = man_a and d = "[1]", OF _ _ _ _ _ writes_as_manifest])
      (simp_all add: quiet_worlds manifest_or_new_def manifest_Read_def quiet_get_decode committed_view on_error_def seen_def
        new_manifest_def man_a_def two_codec_def)
  moreover have "AddBranch world_Store branch_codec c scope_a ''main'' committed_world = Some (Inr (), flushed_world)"
    unfolding AddBranch_def updateBranches_def Let_def flushed_world_def
    by (subst quiet_cas [where y = empty_branches and gen = "[]" and x = bc_main and d = "[1]", OF _ _ _ _ _ writes_as_branches])
      (simp_all add: quiet_worlds readBranchCatalog_def quiet_Get committed_view on_error_def seen_def empty_branches_def bc_main_def two_codec_def)
  ultimately show ?thesis by (simp add: flush_commit_def setup_a_def stream_a_def)
qed

lemma process_run:
  "processRecords world_Store (fc_codecs setup_a) c 1 [[1]] stream_a logged_world =
     Some (None, stream_a\<lparr>sf_branchCheckpoints := [''main'' \<mapsto> 1]\<rparr>, flushed_world)"
proof -
  have "collect (cd_wal (fc_codecs setup_a)) 1 [[1]] [] [] (sf_branchCheckpoints stream_a) = (Inr (''main'', [mut_a]), Map.empty)"
    by (simp add: setup_a_def two_codec_def stream_a_def mut_a_def)
  moreover have "Store_Put world_Store c (SegmentKey scope_a (segment_name entry_a)) (bytes_Reader entry_a) cond_absent logged_world
      = (Inr (quiet_gen entry_a logged_world), uploaded_world)"
    using quiet_Put [where g = "[]", OF quiet_first_append] by (simp add: seen_def committed_view match_cond_def)
  moreover have "stream_a\<lparr>sf_branchCheckpoints := Map.empty\<rparr> = stream_a" by (simp add: stream_a_def)
  moreover have "sf_scope stream_a = scope_a" by (simp add: stream_a_def)
  ultimately show ?thesis
    using commit_run by (simp add: processRecords_def flushBranch_def encode_a upload_failed_def Let_def seg_ref_def)
qed

lemma stream_run:
  "stream_Run world_Store (fc_codecs setup_a) c bg [] stream_a logged_world =
     Some (Waiting 2, stream_a\<lparr>sf_branchCheckpoints := [''main'' \<mapsto> 1]\<rparr>, flushed_world)"
proof -
  let ?sf = "stream_a\<lparr>sf_branchCheckpoints := [''main'' \<mapsto> 1 :: u64]\<rparr>"
  have "ListBranches world_Store branch_codec c scope_a logged_world = (Inr [DefaultBranch], logged_world)"
    by (simp add: ListBranches_def readBranchCatalog_def quiet_Get quiet_worlds committed_view empty_branches_def)
  then have init: "initCheckpoints world_Store (fc_codecs setup_a) c stream_a logged_world = (Inr 0, stream_a, logged_world)"
    by (simp add: initCheckpoints_def setup_a_def stream_a_def manifest_Read_def quiet_get_decode quiet_worlds committed_view DefaultBranch_def)
  have log: "sf_log stream_a = \<lparr>l_prefix = WALPrefix scope_a, lastKnown = 0\<rparr>" "sf_log ?sf = sf_log stream_a" by (simp_all add: stream_a_def)
  have one: "Log_Read world_Store c (sf_log stream_a) 1 logged_world = (Inr [[1]], logged_world)"
    unfolding log by (rule Log_Read_first_append) (simp add: DefaultMaxRecordSize_def)
  have "segmentKey (WALPrefix scope_a) 2 \<noteq> segmentKey (WALPrefix scope_a) 1" by (simp add: segmentKey_inject)
  then have "world_view flushed_world (segmentKey (WALPrefix scope_a) 2) = None" by (simp add: flushed_world_def logged_view)
  then have two: "Log_Read world_Store c (sf_log ?sf) 2 flushed_world = (Inl ErrEndOfStream, flushed_world)"
    by (simp add: log Log_Read_def quiet_Get flushed_world_def quiet_worlds)
  have "stream_loop world_Store (fc_codecs setup_a) c bg [] 2 ?sf flushed_world = Some (Waiting 2, ?sf, flushed_world)"
    by (subst stream_loop.simps) (simp only: two, simp)
  then have "stream_loop world_Store (fc_codecs setup_a) c bg [] 1 stream_a logged_world = Some (Waiting 2, ?sf, flushed_world)"
    by (subst stream_loop.simps) (simp add: one process_run)
  with init show ?thesis by (simp add: stream_Run_def)
qed

subsection \<open>Properties\<close>

lemma setup_cases:
  assumes "ctx_ok X"
  obtains Y where "X = setup_ctx Y"
  using assms by (metis Abs_flush_setup_inverse mem_Collect_eq)

text \<open>The stream that \<open>startStream\<close> makes for a scope.\<close>

definition new_stream :: "flush_ctx \<Rightarrow> streamFlusher \<Rightarrow> bool" where
  "new_stream X sf \<longleftrightarrow> sf_scope sf = fc_scope X \<and> l_prefix (sf_log sf) = WALPrefix (fc_scope X) \<and> sf_branchCheckpoints sf = Map.empty"

lemma new_stream_fresh: "new_stream (setup_ctx Y) sf \<Longrightarrow> wf.fresh Y sf xs v"
  by (simp add: new_stream_def wf.fresh_def cps_ok_def)

text \<open>
  C22. A stream flushes its log. Whatever other writers and flushers do between its calls, and wherever its
  calls fail or its context is cancelled, a run of a new stream leaves the log, the segments, the manifests and the
  list of branches in order, with no manifest shrunk and no segment gone; and when it waits for a new entry, or was told to
  stop and returned nil, every entry of the log has reached the manifest of its branch, the number it waits for
  being the one behind the last entry.
\<close>

theorem stream_flushes:
  assumes "ctx_ok X" and "world_inv (flush_rely X) w" and "flush_inv X xs (world_view w)" and "new_stream X sf"
    and "stream_Run world_Store (fc_codecs X) c bg evs sf w = Some (st, sf', w')"
  shows "\<exists>ys. prefix xs ys \<and> flush_inv X ys (world_view w') \<and> flush_le X (world_view w) (world_view w')
    \<and> (case st of
         Returned err \<Rightarrow> err = None \<longrightarrow> flushed_upto X ys (world_view w') (length ys)
       | Waiting q \<Rightarrow> flushed_upto X ys (world_view w') (length ys) \<and> unat q = length ys + 1)"
proof -
  obtain Y where Y: "X = setup_ctx Y" by (rule setup_cases [OF assms(1)])
  from wf.stream_Run_spec [OF assms(2,3) [unfolded Y] new_stream_fresh [OF assms(4) [unfolded Y]] assms(5) [unfolded Y]]
  show ?thesis unfolding wf.moves_def wf.stream_post_def wf.flushed_all_def Y by blast
qed

theorem stream_flushes_witness:
  "\<exists>ys. prefix [entry_a] ys \<and> flushed_upto setup_a ys (world_view flushed_world) (length ys) \<and> unat (2 :: u64) = length ys + 1"
  using stream_flushes [OF ctx_ok_setup_a quiet_world_inv [OF quiet_first_append] flush_inv_logged _ stream_run [of 0 0]]
  by (auto simp: new_stream_def stream_a_def setup_a_def)

text \<open>
  C23. Every run of a stream returns or waits: no batch, no conflict on a manifest and no cancellation keeps it in a loop,
  for any script of what the other processes do and any list of its own events.
\<close>

theorem stream_returns:
  assumes "ctx_ok X" and "world_inv (flush_rely X) w" and "flush_inv X xs (world_view w)" and "new_stream X sf"
  shows "\<exists>res. stream_Run world_Store (fc_codecs X) c bg evs sf w = Some res"
proof -
  obtain Y where Y: "X = setup_ctx Y" by (rule setup_cases [OF assms(1)])
  from wf.stream_Run_returns [OF assms(2,3) [unfolded Y] new_stream_fresh] assms(4) Y show ?thesis by simp
qed

theorem stream_returns_witness:
  "\<exists>res. stream_Run world_Store (fc_codecs setup_a) 0 0 [PollTimer, StreamDone] stream_a logged_world = Some res"
  by (rule stream_returns [OF ctx_ok_setup_a quiet_world_inv [OF quiet_first_append] flush_inv_logged])
    (simp add: new_stream_def stream_a_def setup_a_def)

text \<open>
  C24. Every document is delivered once, in order. When a stream waits for a new entry, or was told to stop and
  returned nil, then for each branch that is not a fork and for which the log holds mutations, reading the segments of its
  manifest in order gives exactly the mutations that the log holds for the branch, in their order, although several
  flushers may have flushed the log at the same time, crashed, and started again.
\<close>

theorem documents_delivered:
  assumes "ctx_ok X" and "mutations_fit X" and "world_inv (flush_rely X) w" and "flush_inv X xs (world_view w)"
    and "new_stream X sf" and "stream_Run world_Store (fc_codecs X) c bg evs sf w = Some (st, sf', w')"
    and "st = Returned None \<or> st = Waiting q"
  shows "\<exists>ys. prefix xs ys \<and> log_is (WALPrefix (fc_scope X)) ys (world_view w')
    \<and> (\<forall>b. b \<notin> fc_forks X \<longrightarrow> log_documents X ys b (length ys) \<noteq> [] \<longrightarrow>
         (\<exists>m. manifest_at X (world_view w') b m
            \<and> manifest_documents X (world_view w') m = log_documents X ys b (length ys)))"
proof -
  obtain Y where Y: "X = setup_ctx Y" by (rule setup_cases [OF assms(1)])
  from wf.stream_Run_spec [OF assms(3,4) [unfolded Y] new_stream_fresh [OF assms(5) [unfolded Y]] assms(6) [unfolded Y]]
  have mv: "wf.moves Y w xs w' (wf.stream_post Y st)" by blast
  obtain ys where ys: "prefix xs ys" "flush_inv X ys (world_view w')" "wf.stream_post Y st ys (world_view w')"
    using mv unfolding wf.moves_def Y by blast
  have up: "flushed_upto X ys (world_view w') (length ys)"
    using ys(3) assms(7) by (elim disjE) (simp_all add: wf.stream_post_def wf.flushed_all_def Y)
  from flushed_documents [OF assms(1,2) ys(2) up] flush_inv_log [OF ys(2)] ys(1) show ?thesis by blast
qed

theorem documents_delivered_witness:
  "\<exists>ys. prefix [entry_a] ys \<and> log_is (WALPrefix scope_a) ys (world_view flushed_world)
     \<and> (\<forall>b. log_documents setup_a ys b (length ys) \<noteq> [] \<longrightarrow>
         (\<exists>m. manifest_at setup_a (world_view flushed_world) b m
            \<and> manifest_documents setup_a (world_view flushed_world) m = log_documents setup_a ys b (length ys)))"
proof -
  have "mutations_fit setup_a" by (simp add: mutations_fit_def setup_a_def two_codec_def DefaultMaxRecordSize_def)
  from documents_delivered [OF ctx_ok_setup_a this quiet_world_inv [OF quiet_first_append] flush_inv_logged _ stream_run [of 0 0], of 2]
  show ?thesis by (simp add: new_stream_def stream_a_def setup_a_def)
qed

end
