(* ===== verification/Floats.thy ===== *)
theory Floats
  imports Prelude Complex_Main
begin

text \<open>
  The floating-point numbers of the language: the binary interchange formats of 16, 32 and 64 bits as bit patterns, and the
  operations that the vector and query packages use (addition, subtraction, multiplication, division, square root,
  fused multiply-add, conversions and comparisons), each the exact result rounded to nearest, ties to even.

  A bit pattern is a natural number below \<open>2 ^ width\<close> in the generic part, and a machine word afterwards. An operation whose
  result is not a number gives one quiet pattern: the language does not say which one a program sees.
\<close>

subsection \<open>Formats\<close>

text \<open>\<open>fprec\<close> counts the leading bit that is not stored; \<open>fexp\<close> the bits of the exponent.\<close>

record fformat =
  fprec :: nat
  fexp :: nat

definition F16 :: fformat where "F16 = \<lparr>fprec = 11, fexp = 5\<rparr>"
definition F32 :: fformat where "F32 = \<lparr>fprec = 24, fexp = 8\<rparr>"
definition F64 :: fformat where "F64 = \<lparr>fprec = 53, fexp = 11\<rparr>"

text \<open>The weight of the last bit of the smallest numbers is \<open>2\<close> to the power \<open>fmin\<close>.\<close>

definition fmin :: "fformat \<Rightarrow> int" where
  "fmin F = 3 - 2 ^ (fexp F - 1) - int (fprec F)"

definition frac_mod :: "fformat \<Rightarrow> nat" where "frac_mod F = 2 ^ (fprec F - 1)"
definition sign_bit :: "fformat \<Rightarrow> nat" where "sign_bit F = 2 ^ (fprec F - 1 + fexp F)"
definition inf_bits :: "fformat \<Rightarrow> nat" where "inf_bits F = (2 ^ fexp F - 1) * frac_mod F"
definition nan_bits :: "fformat \<Rightarrow> nat" where "nan_bits F = inf_bits F + frac_mod F div 2"

lemma format_simps [simp]:
  "fprec F16 = 11" "fexp F16 = 5" "fmin F16 = -24" "frac_mod F16 = 1024" "sign_bit F16 = 32768" "inf_bits F16 = 31744"
  "fprec F32 = 24" "fexp F32 = 8" "fmin F32 = -149" "frac_mod F32 = 8388608" "sign_bit F32 = 2147483648" "inf_bits F32 = 2139095040"
  "fprec F64 = 53" "fexp F64 = 11" "fmin F64 = -1074"
  by (simp_all add: F16_def F32_def F64_def fmin_def frac_mod_def sign_bit_def inf_bits_def)

text \<open>What a pattern stands for: \<open>Fin s m e\<close> is \<open>m * 2 ^ e\<close>, negated when \<open>s\<close>.\<close>

datatype fval = NaN | Inf bool | Fin bool nat int

definition mag_val :: "fformat \<Rightarrow> bool \<Rightarrow> nat \<Rightarrow> fval" where
  "mag_val F s b =
     (let e = b div frac_mod F; m = b mod frac_mod F
      in if b > inf_bits F then NaN
         else if b = inf_bits F then Inf s
         else if e = 0 then Fin s m (fmin F)
         else Fin s (m + frac_mod F) (fmin F + int e - 1))"

definition decode :: "fformat \<Rightarrow> nat \<Rightarrow> fval" where
  "decode F b = mag_val F (b \<ge> sign_bit F) (b mod sign_bit F)"

subsection \<open>Rounding\<close>

fun bitlen :: "nat \<Rightarrow> nat" where
  "bitlen n = (if n = 0 then 0 else Suc (bitlen (n div 2)))"

declare bitlen.simps [simp del]

text \<open>\<open>n / 2 ^ s\<close> to the nearest integer, ties to even.\<close>

definition rne :: "nat \<Rightarrow> nat \<Rightarrow> nat" where
  "rne n s =
     (let q = n div 2 ^ s; r = n mod 2 ^ s
      in if 2 * r > 2 ^ s \<or> (2 * r = 2 ^ s \<and> odd q) then q + 1 else q)"

text \<open>\<open>n * 2 ^ e\<close> in the format, as a pattern without sign: \<open>k\<close> steps above the smallest numbers; a carry out of
  the fraction runs into the exponent, and beyond the largest number it is infinity.\<close>

definition round_exp :: "fformat \<Rightarrow> nat \<Rightarrow> int \<Rightarrow> nat" where
  "round_exp F n e = nat (e + int (bitlen n) - int (fprec F) - fmin F)"

definition round_mag :: "fformat \<Rightarrow> nat \<Rightarrow> int \<Rightarrow> nat" where
  "round_mag F n e =
     (if n = 0 then 0
      else
        let k = round_exp F n e; shift = fmin F + int k - e
        in min (inf_bits F) (k * frac_mod F + (if shift \<le> 0 then n * 2 ^ nat (- shift) else rne n (nat shift))))"

definition signed :: "fformat \<Rightarrow> bool \<Rightarrow> nat \<Rightarrow> nat" where
  "signed F s b = (if s then sign_bit F + b else b)"

definition encode :: "fformat \<Rightarrow> fval \<Rightarrow> nat" where
  "encode F v =
     (case v of
        NaN \<Rightarrow> nan_bits F
      | Inf s \<Rightarrow> signed F s (inf_bits F)
      | Fin s n e \<Rightarrow> signed F s (round_mag F n e))"

lemma bitlen_0 [simp]: "bitlen 0 = 0"
  by (simp add: bitlen.simps)

lemma bitlen_bounds:
  assumes "n \<noteq> 0"
  shows "2 ^ (bitlen n - 1) \<le> n \<and> n < 2 ^ bitlen n \<and> 0 < bitlen n"
  using assms
proof (induction n rule: bitlen.induct)
  case (1 n)
  show ?case
  proof (cases "n div 2 = 0")
    case True
    with 1 have "n = 1" by simp
    then show ?thesis by (simp add: bitlen.simps)
  next
    case False
    with 1 have "2 ^ (bitlen (n div 2) - 1) \<le> n div 2" "n div 2 < 2 ^ bitlen (n div 2)" "0 < bitlen (n div 2)" by auto
    then obtain l where "bitlen (n div 2) = Suc l" "2 ^ l \<le> n div 2" "n div 2 < 2 ^ Suc l" by (cases "bitlen (n div 2)") auto
    with 1 show ?thesis by (subst (1 2 3) bitlen.simps) auto
  qed
qed

lemma bitlen_unique:
  assumes "2 ^ k \<le> n" and "n < 2 ^ Suc k"
  shows "bitlen n = Suc k"
proof -
  have "n \<noteq> 0" using assms(1) by (metis le_zero_eq power_not_zero zero_neq_numeral)
  from bitlen_bounds [OF this] obtain l where l: "bitlen n = Suc l" "2 ^ l \<le> n" "n < 2 ^ Suc l" by (cases "bitlen n") auto
  have "(2 :: nat) ^ k < 2 ^ Suc l" "(2 :: nat) ^ l < 2 ^ Suc k" using assms l by linarith+
  then have "k < Suc l" "l < Suc k" by (metis one_less_numeral_iff power_less_imp_less_exp semiring_norm(76))+
  with l show ?thesis by simp
qed

lemma bitlen_le:
  assumes "n < 2 ^ k"
  shows "bitlen n \<le> k"
proof (cases "n = 0")
  case False
  from bitlen_bounds [OF this] assms have "(2 :: nat) ^ (bitlen n - 1) < 2 ^ k" by linarith
  then have "bitlen n - 1 < k" by (metis one_less_numeral_iff power_less_imp_less_exp semiring_norm(76))
  then show ?thesis by simp
qed simp

lemma bitlen_scale: "n \<noteq> 0 \<Longrightarrow> bitlen (n * 2 ^ j) = bitlen n + j"
proof -
  assume "n \<noteq> 0"
  from bitlen_bounds [OF this] obtain l where l: "bitlen n = Suc l" "2 ^ l \<le> n" "n < 2 ^ Suc l" by (cases "bitlen n") auto
  have "bitlen (n * 2 ^ j) = Suc (l + j)" by (rule bitlen_unique) (use l in \<open>simp_all add: power_add\<close>)
  with l show ?thesis by simp
qed

lemma rne_scale: "rne (n * 2 ^ j) (s + j) = rne n s"
proof -
  have "n * 2 ^ j mod 2 ^ (s + j) = (n mod 2 ^ s) * 2 ^ j" by (simp add: power_add mult_mod_left)
  moreover have "n * 2 ^ j div 2 ^ (s + j) = n div 2 ^ s" by (simp add: power_add)
  ultimately show ?thesis by (simp add: rne_def power_add Let_def)
qed

lemma rne_0 [simp]: "rne n 0 = n"
  by (simp add: rne_def)

lemma rne_exact: "rne (n * 2 ^ s) s = n"
  using rne_scale [of n s 0] by simp

text \<open>Only the number counts, not how it is written.\<close>

lemma round_mag_scale: "round_mag F (n * 2 ^ j) (e - int j) = round_mag F n e"
proof (cases "n = 0")
  case False
  let ?k = "round_exp F n e"
  have k: "round_exp F (n * 2 ^ j) (e - int j) = ?k" using bitlen_scale [OF False] by (simp add: round_exp_def)
  let ?s = "fmin F + int ?k - e"
  have same: "(if ?s + int j \<le> 0 then n * 2 ^ j * 2 ^ nat (- (?s + int j)) else rne (n * 2 ^ j) (nat (?s + int j)))
      = (if ?s \<le> 0 then n * 2 ^ nat (- ?s) else rne n (nat ?s))"
  proof (cases "?s \<le> 0")
    case True
    show ?thesis
    proof (cases "?s + int j \<le> 0")
      case True
      have "nat (- ?s) = j + nat (- (?s + int j))" using True by simp
      then show ?thesis using True by (simp add: power_add)
    next
      case b: False
      have "j = nat (- ?s) + nat (?s + int j)" using b True by simp
      then have eq: "n * 2 ^ j = (n * 2 ^ nat (- ?s)) * 2 ^ nat (?s + int j)" by (metis mult.assoc power_add)
      show ?thesis unfolding eq rne_exact using b True by simp
    qed
  next
    case pos: False
    then have "nat (?s + int j) = nat ?s + j" by simp
    with pos rne_scale [of n j "nat ?s"] show ?thesis by simp
  qed
  have shift: "fmin F + int ?k - (e - int j) = ?s + int j" by simp
  have "n * 2 ^ j \<noteq> 0" using False by simp
  then show ?thesis using False by (simp only: round_mag_def k Let_def shift same if_False)
qed (simp add: round_mag_def)

text \<open>A number of the format is its own rounding.\<close>

lemma fmin_frac: "fformat.fprec F > 0 \<Longrightarrow> frac_mod F * 2 = 2 ^ fprec F"
  by (cases "fprec F") (simp_all add: frac_mod_def)

lemma round_mag_val:
  assumes "0 < fprec F" and "b < inf_bits F" and "mag_val F s b = Fin s m e"
  shows "round_mag F m e = b"
proof -
  let ?B = "frac_mod F"
  have B: "0 < ?B" by (simp add: frac_mod_def)
  have rm: "b mod ?B < ?B" using B by simp
  obtain q where q: "fprec F = Suc q" using assms(1) by (cases "fprec F") auto
  then have Bq: "?B = 2 ^ q" by (simp add: frac_mod_def)
  show ?thesis
  proof (cases "b div ?B = 0")
    case True
    with assms have m: "m = b mod ?B" "e = fmin F" by (auto simp: mag_val_def Let_def)
    have "b mod ?B = b" using True B by (simp add: div_eq_0_iff)
    with m have mb: "m = b" by simp
    have "bitlen m \<le> q" using bitlen_le [of m q] rm m(1) Bq by simp
    then have "round_exp F m e = 0" by (simp add: round_exp_def m(2) q)
    with mb m(2) assms(2) show ?thesis by (simp add: round_mag_def)
  next
    case False
    with assms have m: "m = b mod ?B + ?B" "e = fmin F + int (b div ?B) - 1" by (auto simp: mag_val_def Let_def split: if_splits)
    have "bitlen m = Suc q" by (rule bitlen_unique) (use m(1) rm Bq in simp_all)
    then have k: "round_exp F m e = b div ?B - 1" using False by (simp add: round_exp_def m(2) q nat_diff_distrib)
    have "fmin F + int (b div ?B - 1) - e = 0" using False by (simp add: m(2) of_nat_diff)
    moreover have "(b div ?B - 1) * ?B + m = b"
      using False div_mult_mod_eq [of b ?B] by (cases "b div ?B") (simp_all add: m(1))
    ultimately show ?thesis using assms(2) k m(1) B by (simp add: round_mag_def)
  qed
qed

subsection \<open>Exact operations\<close>

definition sgn_int :: "bool \<Rightarrow> nat \<Rightarrow> int" where "sgn_int s m = (if s then - int m else int m)"

text \<open>A sum that is zero is negative only when both terms are.\<close>

definition val_add :: "fval \<Rightarrow> fval \<Rightarrow> fval" where
  "val_add x y =
     (case (x, y) of
        (NaN, _) \<Rightarrow> NaN
      | (_, NaN) \<Rightarrow> NaN
      | (Inf s, Inf t) \<Rightarrow> if s = t then Inf s else NaN
      | (Inf s, _) \<Rightarrow> Inf s
      | (_, Inf t) \<Rightarrow> Inf t
      | (Fin s m e, Fin t n f) \<Rightarrow>
          (let g = min e f; z = sgn_int s (m * 2 ^ nat (e - g)) + sgn_int t (n * 2 ^ nat (f - g))
           in Fin (z < 0 \<or> (z = 0 \<and> s \<and> t)) (nat \<bar>z\<bar>) g))"

definition val_neg :: "fval \<Rightarrow> fval" where
  "val_neg x = (case x of NaN \<Rightarrow> NaN | Inf s \<Rightarrow> Inf (\<not> s) | Fin s m e \<Rightarrow> Fin (\<not> s) m e)"

definition val_mul :: "fval \<Rightarrow> fval \<Rightarrow> fval" where
  "val_mul x y =
     (case (x, y) of
        (NaN, _) \<Rightarrow> NaN
      | (_, NaN) \<Rightarrow> NaN
      | (Inf s, Inf t) \<Rightarrow> Inf (s \<noteq> t)
      | (Inf s, Fin t n _) \<Rightarrow> if n = 0 then NaN else Inf (s \<noteq> t)
      | (Fin s m _, Inf t) \<Rightarrow> if m = 0 then NaN else Inf (s \<noteq> t)
      | (Fin s m e, Fin t n f) \<Rightarrow> Fin (s \<noteq> t) (m * n) (e + f))"

text \<open>A quotient and a square root with bits to spare and a last bit that says whether anything was cut off, which rounds as the
  exact value does.\<close>

definition val_div :: "fformat \<Rightarrow> fval \<Rightarrow> fval \<Rightarrow> fval" where
  "val_div F x y =
     (case (x, y) of
        (NaN, _) \<Rightarrow> NaN
      | (_, NaN) \<Rightarrow> NaN
      | (Inf s, Inf t) \<Rightarrow> NaN
      | (Inf s, Fin t n _) \<Rightarrow> Inf (s \<noteq> t)
      | (Fin s m _, Inf t) \<Rightarrow> Fin (s \<noteq> t) 0 0
      | (Fin s m e, Fin t n f) \<Rightarrow>
          if n = 0 then (if m = 0 then NaN else Inf (s \<noteq> t))
          else
            let k = fprec F + 2 + bitlen n; q = m * 2 ^ k div n; r = m * 2 ^ k mod n
            in Fin (s \<noteq> t) (2 * q + (if r = 0 then 0 else 1)) (e - f - int k - 1))"

text \<open>The integer square root, by bisection of \<open>[lo, hi)\<close>.\<close>

function isqrt_between :: "nat \<Rightarrow> nat \<Rightarrow> nat \<Rightarrow> nat" where
  "isqrt_between n lo hi =
     (if hi \<le> lo + 1 then lo
      else let mid = (lo + hi) div 2 in if mid * mid \<le> n then isqrt_between n mid hi else isqrt_between n lo mid)"
  by pat_completeness auto
termination
  by (relation "measure (\<lambda>(n, lo, hi). hi - lo)") auto

declare isqrt_between.simps [simp del]

definition isqrt :: "nat \<Rightarrow> nat" where
  "isqrt n = isqrt_between n 0 (2 ^ (bitlen n div 2 + 1))"

definition val_sqrt :: "fformat \<Rightarrow> fval \<Rightarrow> fval" where
  "val_sqrt F x =
     (case x of
        NaN \<Rightarrow> NaN
      | Inf s \<Rightarrow> if s then NaN else Inf s
      | Fin s m e \<Rightarrow>
          if m = 0 then Fin s 0 0
          else if s then NaN
          else
            let k = (if even e then 2 * fprec F + 4 else 2 * fprec F + 5); n = m * 2 ^ k; q = isqrt n
            in Fin False (2 * q + (if q * q = n then 0 else 1)) ((e - int k) div 2 - 1))"

subsection \<open>Comparison\<close>

text \<open>Whether \<open>x\<close> lies below \<open>y\<close>; nothing is comparable with a value that is not a number.\<close>

definition val_less :: "fval \<Rightarrow> fval \<Rightarrow> bool" where
  "val_less x y =
     (case (x, y) of
        (NaN, _) \<Rightarrow> False
      | (_, NaN) \<Rightarrow> False
      | (Inf s, Inf t) \<Rightarrow> s \<and> \<not> t
      | (Inf s, _) \<Rightarrow> s
      | (_, Inf t) \<Rightarrow> \<not> t
      | (Fin s m e, Fin t n f) \<Rightarrow>
          (let g = min e f in sgn_int s (m * 2 ^ nat (e - g)) < sgn_int t (n * 2 ^ nat (f - g))))"

definition val_eq :: "fval \<Rightarrow> fval \<Rightarrow> bool" where
  "val_eq x y \<longleftrightarrow> x \<noteq> NaN \<and> y \<noteq> NaN \<and> \<not> val_less x y \<and> \<not> val_less y x"

subsection \<open>The types of the language\<close>

type_synonym float32 = u32
type_synonym float64 = u64

definition val32 :: "float32 \<Rightarrow> fval" where "val32 x = decode F32 (unat x)"
definition of_val32 :: "fval \<Rightarrow> float32" where "of_val32 v = of_nat (encode F32 v)"
definition val64 :: "float64 \<Rightarrow> fval" where "val64 x = decode F64 (unat x)"
definition of_val64 :: "fval \<Rightarrow> float64" where "of_val64 v = of_nat (encode F64 v)"

definition fadd :: "float32 \<Rightarrow> float32 \<Rightarrow> float32" where "fadd x y = of_val32 (val_add (val32 x) (val32 y))"
definition fsub :: "float32 \<Rightarrow> float32 \<Rightarrow> float32" where "fsub x y = of_val32 (val_add (val32 x) (val_neg (val32 y)))"
definition fmul :: "float32 \<Rightarrow> float32 \<Rightarrow> float32" where "fmul x y = of_val32 (val_mul (val32 x) (val32 y))"
definition fdiv :: "float32 \<Rightarrow> float32 \<Rightarrow> float32" where "fdiv x y = of_val32 (val_div F32 (val32 x) (val32 y))"
definition fneg :: "float32 \<Rightarrow> float32" where "fneg x = x XOR 0x80000000"

text \<open>\<open>x * y + z\<close> with one rounding.\<close>

definition ffma :: "float32 \<Rightarrow> float32 \<Rightarrow> float32 \<Rightarrow> float32" where
  "ffma x y z = of_val32 (val_add (val_mul (val32 x) (val32 y)) (val32 z))"

text \<open>\<open>z + x * y\<close> in a Go expression: the compiler may fuse the two operations, on the machines where it does.\<close>

definition fmac :: "bool \<Rightarrow> float32 \<Rightarrow> float32 \<Rightarrow> float32 \<Rightarrow> float32" where
  "fmac fuse z x y = (if fuse then ffma x y z else fadd z (fmul x y))"

definition flt :: "float32 \<Rightarrow> float32 \<Rightarrow> bool" where "flt x y = val_less (val32 x) (val32 y)"
definition feq :: "float32 \<Rightarrow> float32 \<Rightarrow> bool" where "feq x y = val_eq (val32 x) (val32 y)"
definition IsNaN :: "float32 \<Rightarrow> bool" where "IsNaN x \<longleftrightarrow> val32 x = NaN"
definition IsInf :: "float32 \<Rightarrow> bool" where "IsInf x \<longleftrightarrow> (\<exists>s. val32 x = Inf s)"
definition fof_nat :: "nat \<Rightarrow> float32" where "fof_nat n = of_val32 (Fin False n 0)"

definition f64_of_f32 :: "float32 \<Rightarrow> float64" where "f64_of_f32 x = of_val64 (val32 x)"
definition f32_of_f64 :: "float64 \<Rightarrow> float32" where "f32_of_f64 x = of_val32 (val64 x)"
definition fmul64 :: "float64 \<Rightarrow> float64 \<Rightarrow> float64" where "fmul64 x y = of_val64 (val_mul (val64 x) (val64 y))"
definition fdiv64 :: "float64 \<Rightarrow> float64 \<Rightarrow> float64" where "fdiv64 x y = of_val64 (val_div F64 (val64 x) (val64 y))"
definition math_Sqrt :: "float64 \<Rightarrow> float64" where "math_Sqrt x = of_val64 (val_sqrt F64 (val64 x))"

lemma IsInf_code [code]: "IsInf x = (case val32 x of Inf _ \<Rightarrow> True | _ \<Rightarrow> False)"
  by (auto simp: IsInf_def split: fval.splits)

definition f32_0 :: float32 where "f32_0 = 0"
definition f32_1 :: float32 where "f32_1 = 0x3F800000"
definition f32_m1 :: float32 where "f32_m1 = 0xBF800000"

subsection \<open>Numbers\<close>

text \<open>The real number that a value stands for, and when a value is one.\<close>

definition rval :: "fval \<Rightarrow> real" where
  "rval v = (case v of Fin s m e \<Rightarrow> of_int (sgn_int s m) * 2 powi e | _ \<Rightarrow> 0)"

definition finite_val :: "fval \<Rightarrow> bool" where
  "finite_val v \<longleftrightarrow> (case v of Fin _ _ _ \<Rightarrow> True | _ \<Rightarrow> False)"

lemma finite_val_simps [simp]: "finite_val (Fin s m e)" "\<not> finite_val NaN" "\<not> finite_val (Inf s)"
  by (simp_all add: finite_val_def)

lemma finite_valE: "finite_val v \<Longrightarrow> (\<And>s m e. v = Fin s m e \<Longrightarrow> thesis) \<Longrightarrow> thesis"
  by (cases v) auto

lemma powi_nat: "j \<le> e \<Longrightarrow> (2 :: real) powi e = 2 ^ nat (e - j) * 2 powi j"
  using power_int_add [of "2 :: real" "e - j" j] by (simp add: power_int_def [of _ "e - j"])

lemma sgn_int_scale: "of_int (sgn_int s (m * 2 ^ k)) = of_int (sgn_int s m) * (2 :: real) ^ k"
  by (simp add: sgn_int_def)

lemma rval_align: "g \<le> e \<Longrightarrow> rval (Fin s m e) = of_int (sgn_int s (m * 2 ^ nat (e - g))) * 2 powi g"
  using powi_nat [of g e] by (simp add: rval_def sgn_int_scale)

lemma rval_add:
  assumes "finite_val x" and "finite_val y"
  shows "finite_val (val_add x y) \<and> rval (val_add x y) = rval x + rval y"
proof -
  obtain s m e where x: "x = Fin s m e" by (rule finite_valE [OF assms(1)])
  obtain t n f where y: "y = Fin t n f" by (rule finite_valE [OF assms(2)])
  let ?g = "min e f"
  let ?z = "sgn_int s (m * 2 ^ nat (e - ?g)) + sgn_int t (n * 2 ^ nat (f - ?g))"
  have eq: "val_add x y = Fin (?z < 0 \<or> (?z = 0 \<and> s \<and> t)) (nat \<bar>?z\<bar>) ?g"
    by (simp only: val_add_def x y prod.case fval.case Let_def)
  have "sgn_int (?z < 0 \<or> (?z = 0 \<and> s \<and> t)) (nat \<bar>?z\<bar>) = ?z" by (auto simp: sgn_int_def)
  then have "rval (val_add x y) = of_int ?z * 2 powi ?g" unfolding eq rval_def fval.case by (simp only:)
  also have "\<dots> = rval x + rval y"
    unfolding x y rval_align [OF min.cobounded1 [of e f], of s m] rval_align [OF min.cobounded2 [of e f], of t n]
    by (simp only: of_int_add distrib_right)
  finally show ?thesis using eq by simp
qed

lemma rval_neg [simp]: "rval (val_neg x) = - rval x" "finite_val (val_neg x) = finite_val x"
  by (auto simp: val_neg_def rval_def sgn_int_def split: fval.split)

lemma rval_mul:
  assumes "finite_val x" and "finite_val y"
  shows "finite_val (val_mul x y) \<and> rval (val_mul x y) = rval x * rval y"
  using assms by (auto elim!: finite_valE simp: val_mul_def rval_def sgn_int_def power_int_add)

text \<open>Rounding looks at the number only.\<close>

lemma round_mag_real:
  assumes "real n * 2 powi e = real m * 2 powi f"
  shows "round_mag F n e = round_mag F m f"
proof -
  let ?g = "min e f"
  have "real (n * 2 ^ nat (e - ?g)) * 2 powi ?g = real (m * 2 ^ nat (f - ?g)) * 2 powi ?g"
    using assms powi_nat [of ?g e] powi_nat [of ?g f] by simp
  then have "real (n * 2 ^ nat (e - ?g)) = real (m * 2 ^ nat (f - ?g))" by simp
  then have eq: "n * 2 ^ nat (e - ?g) = m * 2 ^ nat (f - ?g)" by (simp only: of_nat_eq_iff)
  have "round_mag F n e = round_mag F (n * 2 ^ nat (e - ?g)) (e - int (nat (e - ?g)))" by (simp only: round_mag_scale)
  also have "\<dots> = round_mag F (m * 2 ^ nat (f - ?g)) (f - int (nat (f - ?g)))" by (simp add: eq)
  also have "\<dots> = round_mag F m f" by (simp only: round_mag_scale)
  finally show ?thesis .
qed

text \<open>A number that the format has is not changed.\<close>

lemma mag_val_round:
  assumes "0 < fprec F" and "0 < fexp F" and n: "n < 2 ^ fprec F" and e: "fmin F \<le> e"
    and big: "e + int (bitlen n) \<le> 2 ^ (fexp F - 1)"
  shows "round_mag F n e < inf_bits F
    \<and> (\<exists>m f. mag_val F s (round_mag F n e) = Fin s m f \<and> real m * 2 powi f = real n * 2 powi e)"
proof (cases "n = 0")
  case True
  obtain x where x: "fexp F = Suc x" using assms(2) by (cases "fexp F") auto
  have B: "0 < frac_mod F" by (simp add: frac_mod_def)
  moreover have "0 < (2 :: nat) ^ fexp F - 1" using one_less_power [of "2 :: nat" "fexp F"] assms(2) by simp
  ultimately have "0 < inf_bits F" by (simp add: inf_bits_def)
  with True B show ?thesis by (auto simp: round_mag_def mag_val_def)
next
  case False
  obtain q where q: "fprec F = Suc q" using assms(1) by (cases "fprec F") auto
  then have B: "frac_mod F = 2 ^ q" by (simp add: frac_mod_def)
  obtain x where x: "fexp F = Suc x" using assms(2) by (cases "fexp F") auto
  have len: "bitlen n \<le> Suc q" using bitlen_le [OF n] q by simp
  from bitlen_bounds [OF False] obtain l where l: "bitlen n = Suc l" "2 ^ l \<le> n" "n < 2 ^ Suc l" by (cases "bitlen n") auto
  let ?k = "round_exp F n e"
  show ?thesis
  proof (cases "fmin F + int (fprec F) \<le> e + int (bitlen n)")
    case True
    then have k: "int ?k = e + int (bitlen n) - int (fprec F) - fmin F" by (simp add: round_exp_def)
    then have sh: "fmin F + int ?k - e = - int (q - l)" using len l(1) q by simp
    have nk: "nat (e - (fmin F + int ?k)) = q - l" using sh by linarith
    define m where "m = n * 2 ^ (q - l)"
    have lq: "l \<le> q" using len l(1) by simp
    have pq: "(2 :: nat) ^ l * 2 ^ (q - l) = 2 ^ q" unfolding power_add [symmetric] using lq by simp
    have "2 ^ l * 2 ^ (q - l) \<le> m" unfolding m_def by (rule mult_le_mono1 [OF l(2)])
    then have m1: "2 ^ q \<le> m" by (simp only: pq)
    have "m < 2 ^ Suc l * 2 ^ (q - l)" unfolding m_def by (rule mult_less_mono1 [OF l(3)]) simp
    also have "(2 :: nat) ^ Suc l * 2 ^ (q - l) = 2 * 2 ^ q" using pq by simp
    finally have m: "2 ^ q \<le> m" "m < 2 * 2 ^ q" using m1 by simp_all
    have "int ?k + 3 \<le> 2 ^ Suc x" using k big by (simp add: fmin_def x)
    then have "int (?k + 3) \<le> int (2 ^ Suc x)" by simp
    then have kb: "?k + 3 \<le> 2 ^ Suc x" by (simp only: of_nat_le_iff)
    have sum: "?k * 2 ^ q + m < (?k + 2) * 2 ^ q" using m(2) by (simp add: algebra_simps)
    also have "\<dots> \<le> (2 ^ Suc x - 1) * 2 ^ q" by (rule mult_le_mono1) (use kb in simp)
    finally have lt: "?k * frac_mod F + m < inf_bits F" by (simp add: inf_bits_def x B)
    have r: "round_mag F n e = ?k * frac_mod F + m"
      using False lt unfolding round_mag_def Let_def sh m_def by (simp add: min_def)
    have d: "m div 2 ^ q = 1" by (rule div_nat_eqI) (use m in simp_all)
    then have "m mod 2 ^ q = m - 2 ^ q" using div_mult_mod_eq [of m "2 ^ q"] by simp
    have v: "mag_val F s (round_mag F n e) = Fin s m (fmin F + int ?k)"
      using lt m(1) d \<open>m mod 2 ^ q = m - 2 ^ q\<close> unfolding r by (simp add: mag_val_def B)
    have "real m * 2 powi (fmin F + int ?k) = real n * 2 powi e"
      using powi_nat [of "fmin F + int ?k" e] sh nk by (simp add: m_def)
    with v lt r show ?thesis by auto
  next
    case small: False
    then have k: "?k = 0" by (simp add: round_exp_def)
    define m where "m = n * 2 ^ nat (e - fmin F)"
    have "m < 2 ^ (Suc l + nat (e - fmin F))" unfolding m_def using l(3) by (simp add: power_add)
    also have "(2 :: nat) ^ (Suc l + nat (e - fmin F)) \<le> 2 ^ q" by (rule power_increasing) (use small l(1) q e in simp_all)
    finally have m: "m < 2 ^ q" .
    have "1 \<le> (2 :: nat) ^ fexp F - 1" using one_less_power [of "2 :: nat" "fexp F"] assms(2) by simp
    from mult_le_mono1 [OF this, of "2 ^ q"] have "(2 :: nat) ^ q \<le> inf_bits F" by (simp add: inf_bits_def B)
    with m have lt: "m < inf_bits F" by simp
    have r: "round_mag F n e = m"
      using False lt e unfolding round_mag_def k Let_def m_def by (simp add: min_def)
    have v: "mag_val F s (round_mag F n e) = Fin s m (fmin F)"
      using lt m unfolding r by (simp add: mag_val_def B)
    have "real m * 2 powi fmin F = real n * 2 powi e" using powi_nat [OF e] by (simp add: m_def)
    with v lt r show ?thesis by auto
  qed
qed


lemma decode_signed: "b < sign_bit F \<Longrightarrow> decode F (signed F s b) = mag_val F s b"
  by (simp add: decode_def signed_def)

lemma val32_of_val32:
  assumes "n < 2 ^ 24" and "-149 \<le> e" and "e + int (bitlen n) \<le> 128"
  shows "\<exists>m f. val32 (of_val32 (Fin s n e)) = Fin s m f \<and> real m * 2 powi f = real n * 2 powi e"
proof -
  have r: "round_mag F32 n e < 2139095040"
    and v: "\<exists>m f. mag_val F32 s (round_mag F32 n e) = Fin s m f \<and> real m * 2 powi f = real n * 2 powi e"
    using mag_val_round [of F32 n e s] assms by simp_all
  have "unat (of_val32 (Fin s n e)) = signed F32 s (round_mag F32 n e)"
    unfolding of_val32_def encode_def fval.case by (rule unat_u32) (use r in \<open>simp add: signed_def\<close>)
  with v r decode_signed [of "round_mag F32 n e" F32 s] show ?thesis by (simp add: val32_def)
qed

lemma rval_Fin: "rval (Fin s m e) = (if s then - (real m * 2 powi e) else real m * 2 powi e)"
  by (simp add: rval_def sgn_int_def)

text \<open>So an operation whose exact result is a number of the format gives that number.\<close>

lemma of_val32_exact:
  assumes "finite_val v" and "\<bar>rval v\<bar> = real n * 2 powi e" and "n < 2 ^ 24" and "-149 \<le> e" and "e + int (bitlen n) \<le> 128"
  shows "finite_val (val32 (of_val32 v)) \<and> rval (val32 (of_val32 v)) = rval v"
proof -
  obtain s m f where v: "v = Fin s m f" by (rule finite_valE [OF assms(1)])
  then have "real m * 2 powi f = real n * 2 powi e" using assms(2) by (auto simp: rval_Fin split: if_splits)
  from round_mag_real [OF this, of F32] have "of_val32 v = of_val32 (Fin s n e)"
    by (simp add: v of_val32_def encode_def)
  with val32_of_val32 [OF assms(3-5), of s] \<open>real m * 2 powi f = real n * 2 powi e\<close> show ?thesis by (auto simp: v rval_Fin)
qed

subsection \<open>Rounding is to nearest\<close>

text \<open>The nearest integer is nearest.\<close>

lemma rne_nearest: "\<bar>int n - int (rne n s) * 2 ^ s\<bar> \<le> \<bar>int n - z * 2 ^ s\<bar>"
proof -
  define D :: nat where "D = 2 ^ s"
  define d where "d = int D"
  define q where "q = int (n div D)"
  define r where "r = int (n mod D)"
  have dd: "(2 :: int) ^ s = d" by (simp add: d_def D_def)
  have D0: "0 < D" by (simp add: D_def)
  have n: "int n = q * d + r" unfolding q_def r_def d_def of_nat_mult [symmetric] of_nat_add [symmetric] by simp
  have d0: "0 < d" using D0 by (simp add: d_def)
  have r: "0 \<le> r" "r < d" using D0 by (simp_all add: r_def d_def)
  have side: "r \<le> \<bar>int n - z * d\<bar>" if "z \<le> q"
  proof -
    have "z * d \<le> q * d" using that d0 by (intro mult_right_mono) simp_all
    then show ?thesis using n r by linarith
  qed
  have other: "d - r \<le> \<bar>int n - z * d\<bar>" if "q < z"
  proof -
    have "(q + 1) * d \<le> z * d" using that d0 by (intro mult_right_mono) simp_all
    then have "q * d + d \<le> z * d" by (simp only: distrib_right mult_1)
    then show ?thesis using n by linarith
  qed
  have cmp: "2 * (n mod D) > D \<longleftrightarrow> 2 * r > d" "2 * (n mod D) = D \<longleftrightarrow> 2 * r = d"
    unfolding r_def d_def by linarith+
  show ?thesis
  proof (cases "2 * (n mod D) > D \<or> (2 * (n mod D) = D \<and> odd (n div D))")
    case True
    then have "int (rne n s) = q + 1" "2 * r \<ge> d" using cmp by (auto simp: rne_def Let_def q_def simp flip: D_def)
    then have "\<bar>int n - int (rne n s) * d\<bar> = d - r" using n r by (simp add: algebra_simps)
    with side other \<open>2 * r \<ge> d\<close> show ?thesis unfolding dd by (cases "z \<le> q") auto
  next
    case False
    then have "int (rne n s) = q" "2 * r \<le> d" using cmp by (auto simp: rne_def Let_def q_def simp flip: D_def)
    then have "\<bar>int n - int (rne n s) * d\<bar> = r" using n r by (simp add: algebra_simps)
    with side other \<open>2 * r \<le> d\<close> show ?thesis unfolding dd by (cases "z \<le> q") auto
  qed
qed

text \<open>The number of a pattern made from an exponent and a rounded fraction.\<close>

lemma mag_val_num:
  assumes "0 < fprec F" and "k * frac_mod F + M < inf_bits F" and "M \<le> 2 * frac_mod F" and "k \<noteq> 0 \<Longrightarrow> frac_mod F \<le> M"
  shows "\<exists>m f. mag_val F s (k * frac_mod F + M) = Fin s m f \<and> real m * 2 powi f = real M * 2 powi (fmin F + int k)"
proof -
  let ?B = "frac_mod F"
  have B: "0 < ?B" by (simp add: frac_mod_def)
  consider "M < ?B" | "?B \<le> M" "M < 2 * ?B" | "M = 2 * ?B" using assms(3) by linarith
  then show ?thesis
  proof cases
    case 1
    with assms(4) have "k = 0" by auto
    with 1 assms(2) show ?thesis by (simp add: mag_val_def)
  next
    case 2
    have d: "M div ?B = 1" by (rule div_nat_eqI) (use 2 in simp_all)
    then have m: "M mod ?B = M - ?B" using div_mult_mod_eq [of M ?B] by simp
    have "(k * ?B + M) div ?B = Suc k" "(k * ?B + M) mod ?B = M - ?B" using d m B by simp_all
    with assms(2) 2(1) show ?thesis by (simp add: mag_val_def)
  next
    case 3
    have "(k * ?B + M) div ?B = k + 2" "(k * ?B + M) mod ?B = 0" using 3 B by (simp_all add: mult.commute)
    with assms(2) have "mag_val F s (k * ?B + M) = Fin s ?B (fmin F + int k + 1)" by (simp add: mag_val_def)
    moreover have "real ?B * 2 powi (fmin F + int k + 1) = real M * 2 powi (fmin F + int k)"
      using 3 power_int_add [of "2 :: real" "fmin F + int k" 1] by simp
    ultimately show ?thesis by blast
  qed
qed

text \<open>The fraction that rounding picks: where it lies, and that no other multiple of the unit is nearer.\<close>

definition round_frac :: "fformat \<Rightarrow> nat \<Rightarrow> int \<Rightarrow> nat" where
  "round_frac F n e =
     (let shift = fmin F + int (round_exp F n e) - e in if shift \<le> 0 then n * 2 ^ nat (- shift) else rne n (nat shift))"

lemma round_mag_frac: "n \<noteq> 0 \<Longrightarrow> round_mag F n e = min (inf_bits F) (round_exp F n e * frac_mod F + round_frac F n e)"
  by (simp add: round_mag_def round_frac_def Let_def)

lemma rne_bounds: "n div 2 ^ s \<le> rne n s \<and> rne n s \<le> n div 2 ^ s + 1"
  by (simp add: rne_def Let_def)

lemma div_pow_bounds:
  fixes n :: nat
  assumes "2 ^ (a + s) \<le> n"
  shows "2 ^ a \<le> n div 2 ^ s"
  using assms by (simp add: power_add less_eq_div_iff_mult_less_eq)

lemma round_frac_le:
  assumes "fprec F = Suc q" and "n \<noteq> 0"
  shows "round_frac F n e \<le> 2 ^ Suc q"
proof -
  from bitlen_bounds [OF assms(2)] obtain l where l: "bitlen n = Suc l" "2 ^ l \<le> n" "n < 2 ^ Suc l" by (cases "bitlen n") auto
  define sh where "sh = fmin F + int (round_exp F n e) - e"
  have b: "int l - int q \<le> sh" by (simp add: sh_def round_exp_def l(1) assms(1))
  show ?thesis
  proof (cases "sh \<le> 0")
    case True
    have "n * 2 ^ nat (- sh) \<le> 2 ^ Suc l * 2 ^ nat (- sh)" using l(3) by simp
    also have "(2 :: nat) ^ Suc l * 2 ^ nat (- sh) = 2 ^ (Suc l + nat (- sh))" by (simp only: power_add)
    also have "(2 :: nat) ^ (Suc l + nat (- sh)) \<le> 2 ^ Suc q" by (rule power_increasing) (use b True in simp_all)
    finally show ?thesis using True by (simp add: round_frac_def sh_def Let_def)
  next
    case False
    have "(2 :: nat) ^ Suc l \<le> 2 ^ (Suc q + nat sh)" by (rule power_increasing) (use b False in simp_all)
    with l(3) have "n < 2 ^ (Suc q + nat sh)" by (rule less_le_trans)
    then have "n < 2 ^ Suc q * 2 ^ nat sh" by (simp only: power_add)
    then have "n div 2 ^ nat sh < 2 ^ Suc q" by (rule less_mult_imp_div_less)
    with rne_bounds [of n "nat sh"] have "rne n (nat sh) \<le> 2 ^ Suc q" by linarith
    with False show ?thesis by (simp add: round_frac_def sh_def Let_def)
  qed
qed

lemma round_frac_ge:
  assumes "fprec F = Suc q" and "n \<noteq> 0" and "round_exp F n e \<noteq> 0"
  shows "2 ^ q \<le> round_frac F n e"
proof -
  from bitlen_bounds [OF assms(2)] obtain l where l: "bitlen n = Suc l" "2 ^ l \<le> n" "n < 2 ^ Suc l" by (cases "bitlen n") auto
  define sh where "sh = fmin F + int (round_exp F n e) - e"
  have b: "int l - int q = sh" using assms(3) by (simp add: sh_def round_exp_def l(1) assms(1))
  show ?thesis
  proof (cases "sh \<le> 0")
    case True
    have "(2 :: nat) ^ q = 2 ^ (l + nat (- sh))" using b True by (intro arg_cong [where f = "(^) 2"]) simp
    also have "\<dots> \<le> n * 2 ^ nat (- sh)" using l(2) by (simp add: power_add)
    finally show ?thesis using True by (simp add: round_frac_def sh_def Let_def)
  next
    case False
    have "l = q + nat sh" using b False by simp
    with l(2) have "2 ^ q \<le> n div 2 ^ nat sh" by (intro div_pow_bounds) simp
    with rne_bounds [of n "nat sh"] have "2 ^ q \<le> rne n (nat sh)" by linarith
    with False show ?thesis by (simp add: round_frac_def sh_def Let_def)
  qed
qed

lemma round_frac_nearest:
  fixes F n e
  defines "u \<equiv> (2 :: real) powi (fmin F + int (round_exp F n e))"
  shows "\<bar>real (round_frac F n e) * u - real n * 2 powi e\<bar> \<le> \<bar>of_int z * u - real n * 2 powi e\<bar>"
proof -
  define sh where "sh = fmin F + int (round_exp F n e) - e"
  show ?thesis
  proof (cases "sh \<le> 0")
    case True
    then have "2 powi e = 2 ^ nat (- sh) * u" using powi_nat [of "fmin F + int (round_exp F n e)" e] by (simp add: u_def sh_def)
    with True show ?thesis by (simp add: round_frac_def sh_def Let_def)
  next
    case False
    let ?s = "nat sh"
    have u: "u = 2 ^ ?s * 2 powi e" using powi_nat [of e "fmin F + int (round_exp F n e)"] False by (simp add: u_def sh_def)
    have m: "round_frac F n e = rne n ?s" using False by (simp add: round_frac_def sh_def Let_def)
    have "real_of_int \<bar>int n - int (rne n ?s) * 2 ^ ?s\<bar> \<le> real_of_int \<bar>int n - z * 2 ^ ?s\<bar>"
      using rne_nearest [of n ?s z] by (simp only: of_int_le_iff)
    then have "\<bar>real n - real (rne n ?s) * 2 ^ ?s\<bar> \<le> \<bar>real n - of_int z * 2 ^ ?s\<bar>" by simp
    from mult_right_mono [OF this, of "2 powi e"]
    have "\<bar>(real n - real (rne n ?s) * 2 ^ ?s) * 2 powi e\<bar> \<le> \<bar>(real n - of_int z * 2 ^ ?s) * 2 powi e\<bar>"
      by (simp add: abs_mult)
    then show ?thesis by (simp add: m u algebra_simps abs_minus_commute)
  qed
qed


text \<open>No number of the format is nearer than the rounded one.\<close>

lemma mag_val_bounds:
  assumes "mag_val F t b = Fin t' m f"
  shows "m < 2 * frac_mod F \<and> fmin F \<le> f"
proof -
  have "b mod frac_mod F < frac_mod F" by (simp add: frac_mod_def)
  with assms show ?thesis by (auto simp: mag_val_def Let_def split: if_splits)
qed

lemma round_nearest:
  assumes "0 < fprec F" and lt: "round_mag F n e < inf_bits F" and y: "mag_val F t b = Fin t' m' f'" and "y = real m' * 2 powi f' \<or> y = - (real m' * 2 powi f')"
  shows "\<exists>m f. mag_val F s (round_mag F n e) = Fin s m f \<and> \<bar>real m * 2 powi f - real n * 2 powi e\<bar> \<le> \<bar>y - real n * 2 powi e\<bar>"
proof (cases "n = 0")
  case True
  with mag_val_num [of F 0 0 s] assms(1,2) show ?thesis by (auto simp: round_mag_def)
next
  case False
  obtain q where q: "fprec F = Suc q" using assms(1) by (cases "fprec F") auto
  then have B: "frac_mod F = 2 ^ q" by (simp add: frac_mod_def)
  define k where "k = round_exp F n e"
  define M where "M = round_frac F n e"
  define u where "u = (2 :: real) powi (fmin F + int k)"
  define x where "x = real n * 2 powi e"
  have r: "round_mag F n e = k * frac_mod F + M" using lt round_mag_frac [OF False, of F e] by (simp add: k_def M_def min_def split: if_splits)
  have MB: "M \<le> 2 * frac_mod F" using round_frac_le [OF q False, of e] by (simp add: B M_def)
  have BM: "k \<noteq> 0 \<Longrightarrow> frac_mod F \<le> M" using round_frac_ge [OF q False, of e] by (simp add: B k_def M_def)
  from mag_val_num [OF assms(1) lt [unfolded r] MB BM, of s]
  obtain m f where v: "mag_val F s (round_mag F n e) = Fin s m f" "real m * 2 powi f = real M * u" by (auto simp: r u_def)
  have near: "\<bar>real M * u - x\<bar> \<le> \<bar>of_int z * u - x\<bar>" for z
    using round_frac_nearest [of F n e z] by (simp add: M_def u_def k_def x_def)
  have "\<bar>real M * u - x\<bar> \<le> \<bar>y - x\<bar>"
  proof (cases "fmin F + int k \<le> f'")
    case True
    then have "2 powi f' = 2 ^ nat (f' - (fmin F + int k)) * u" using powi_nat by (simp add: u_def)
    then have "y = of_int (int m' * 2 ^ nat (f' - (fmin F + int k))) * u \<or> y = of_int (- int m' * 2 ^ nat (f' - (fmin F + int k))) * u"
      using assms(4) by auto
    with near show ?thesis by metis
  next
    case small: False
    have k0: "k \<noteq> 0" using small mag_val_bounds [OF y] by auto
    have u2: "u = 2 * 2 powi (fmin F + int k - 1)" using power_int_add [of "2 :: real" "fmin F + int k - 1" 1] by (simp add: u_def)
    have "real m' * 2 powi f' \<le> (2 * 2 ^ q) * 2 powi (fmin F + int k - 1)"
    proof (rule mult_mono)
      have "real m' \<le> real (2 * 2 ^ q)" using mag_val_bounds [OF y] B by (simp only: of_nat_le_iff) simp
      then show "real m' \<le> 2 * 2 ^ q" by simp
      show "(2 :: real) powi f' \<le> 2 powi (fmin F + int k - 1)" using small by (intro power_int_increasing) simp_all
    qed simp_all
    moreover have p0: "0 \<le> real m' * 2 powi f'" by simp
    from assms(4) have "y \<le> real m' * 2 powi f'" by (rule disjE) (use p0 in linarith)+
    ultimately have yB: "y \<le> of_int (2 ^ q) * u" using u2 by simp
    from bitlen_bounds [OF False] obtain l where l: "bitlen n = Suc l" "2 ^ l \<le> n" by (cases "bitlen n") auto
    have "fmin F + int k = (e + int l) - int q" using k0 by (simp add: k_def round_exp_def l(1) q)
    then have "2 ^ q * u = 2 powi (e + int l)" using powi_nat [of "e + int l - int q" "e + int l"] by (simp add: u_def)
    also have "\<dots> = 2 ^ l * 2 powi e" using powi_nat [of e "e + int l"] by simp
    also have "\<dots> \<le> x"
    proof -
      have "real (2 ^ l) \<le> real n" using l(2) by (simp only: of_nat_le_iff)
      then show ?thesis unfolding x_def by (intro mult_right_mono) simp_all
    qed
    finally have "of_int (2 ^ q) * u \<le> x" by simp
    with yB near [of "2 ^ q"] show ?thesis by linarith
  qed
  with v show ?thesis by (auto simp: x_def)
qed

end
