(* ===== verification/Messages.thy ===== *)
theory Messages
  imports Floats "HOL-Library.Finite_Map"
begin

text \<open>
  The messages of \<open>src/proto/cloudyneigh/v1/index.proto\<close> that the program handles. A repeated field is a list, a map field a
  finite map, a pointer to a message an \<open>option\<close> where the code looks at \<open>nil\<close>, an enumeration an integer (proto3
  keeps unknown numbers). \<open>proto.Clone\<close> copies a value, so it does not show here.
\<close>

text \<open>The \<open>oneof\<close> of an attribute value has one alternative besides being unset.\<close>

datatype AttributeValue = AttributeValue_unset | AttributeValue_StringValue string

record Record =
  r_Id :: string
  r_Vectors :: "(string, float32 list option) fmap"
  r_Attributes :: "(string, AttributeValue option) fmap"

record EqualityFilter =
  ef_Field :: string
  ef_Value :: "AttributeValue option"

definition DISTANCE_METRIC_COSINE :: int where "DISTANCE_METRIC_COSINE = 1"
definition DISTANCE_METRIC_EUCLIDEAN_SQUARED :: int where "DISTANCE_METRIC_EUCLIDEAN_SQUARED = 2"
definition DISTANCE_METRIC_DOT_PRODUCT :: int where "DISTANCE_METRIC_DOT_PRODUCT = 3"

record ScoredRecord =
  sr_Record :: Record
  sr_Score :: float32

subsection \<open>Requests and responses\<close>

record UpsertRequest =
  ur_Namespace :: string
  ur_Records :: "Record option list"
  ur_Branch :: string

record DeleteRequest =
  dr_Namespace :: string
  dr_Ids :: "string list"
  dr_Branch :: string

record QueryRequest =
  qr_Namespace :: string
  qr_Vector :: "float32 list"
  qr_TopK :: u32
  qr_Filter :: "EqualityFilter option"
  qr_VectorColumn :: string
  qr_Branch :: string

record ForkRequest =
  fr_Namespace :: string
  fr_SourceBranch :: string
  fr_TargetBranch :: string

end
