(* ===== verification/Vector_Format.thy ===== *)
theory Vector_Format
  imports Floats
begin

text \<open>
  Half-precision storage of vectors (\<open>src/vector/format.go\<close>): the conversions between \<open>float32\<close> and 16-bit numbers, which the
  code does on the bits, and \<open>EncodeFP16\<close>. The conversion down is proved to be rounding to nearest, ties to even;
  the conversion up to be exact.
\<close>

definition ErrDimensionMismatch :: gerr where "ErrDimensionMismatch = Sentinel ''dimension mismatch''"
definition ErrZeroVector :: gerr where "ErrZeroVector = Sentinel ''zero vector''"
definition ErrFloat16Overflow :: gerr where "ErrFloat16Overflow = Sentinel ''vector: value overflows float16''"

definition fp16FromFloat32 :: "float32 \<Rightarrow> u16 \<times> bool" where
  "fp16FromFloat32 b =
     (let sign = (ucast (drop_bit 16 b) :: u16) AND 0x8000;
          exp = uint (drop_bit 23 b AND 0xFF) - 127 + 15;
          mant = b AND 0x7FFFFF
      in if exp \<ge> 31 then (0, False)
         else if exp < -10 then (sign, True)
         else if exp \<le> 0 then
           (let mant = mant OR 0x800000;
                shift = nat (14 - exp);
                half = drop_bit shift mant;
                rem = mant AND (push_bit shift 1 - 1);
                mid = push_bit (shift - 1) 1;
                half = (if rem > mid \<or> (rem = mid \<and> half AND 1 = 1) then half + 1 else half)
            in (sign OR ucast half, True))
         else
           (let half = push_bit 10 (of_int exp) OR drop_bit 13 mant;
                rem = mant AND 0x1FFF;
                half = (if rem > 0x1000 \<or> (rem = 0x1000 \<and> half AND 1 = 1) then half + 1 else half)
            in if half \<ge> 0x7C00 then (0, False) else (sign OR ucast half, True)))"

definition fp16ToFloat32 :: "u16 \<Rightarrow> float32" where
  "fp16ToFloat32 h =
     (let sign = push_bit 16 (ucast (h AND 0x8000) :: u32);
          exp = (ucast (drop_bit 10 h) :: u32) AND 0x1F;
          mant = (ucast (h AND 0x3FF) :: u32)
      in if exp = 0 then
           (let f = fmul (fof_nat (unat mant)) 0x33800000 in if sign \<noteq> 0 then fneg f else f)
         else if exp = 31 then sign OR 0x7F800000 OR push_bit 13 mant
         else sign OR push_bit 23 (exp + 112) OR push_bit 13 mant)"

text \<open>The loop of \<open>EncodeFP16\<close> from index \<open>i\<close> on.\<close>

fun encode16_loop :: "nat \<Rightarrow> u16 list \<Rightarrow> float32 list \<Rightarrow> gerr option \<times> u16 list" where
  "encode16_loop i dst [] = (None, dst)"
| "encode16_loop i dst (x # src) =
     (if IsNaN x \<or> IsInf x then (Some (ErrMsg ''vector: non-finite float32 value''), dst)
      else
        (case fp16FromFloat32 x of
           (h, ok) \<Rightarrow>
             if \<not> ok then (Some ErrFloat16Overflow, dst)
             else encode16_loop (i + 1) (dst[i := h]) src))"

definition EncodeFP16 :: "u16 list \<Rightarrow> float32 list \<Rightarrow> gerr option \<times> u16 list" where
  "EncodeFP16 dst src =
     (if length dst < length src then (Some ErrDimensionMismatch, dst) else encode16_loop 0 dst src)"

subsection \<open>Conversion down is rounding\<close>

text \<open>Sign, exponent and fraction of a \<open>float32\<close>.\<close>

lemma sign_part: "(ucast (drop_bit 16 (b :: u32)) :: u16) AND 0x8000 = (if unat b \<ge> 2 ^ 31 then 0x8000 else 0)"
  using and_exp_if [of "ucast (drop_bit 16 b) :: u16" 15] bit_top [of 31 b] by (simp add: bit_ucast_iff bit_drop_bit_eq)

definition f32_e :: "u32 \<Rightarrow> nat" where "f32_e b = unat b div 2 ^ 23 mod 256"
definition f32_f :: "u32 \<Rightarrow> nat" where "f32_f b = unat b mod 2 ^ 23"
definition f32_s :: "u32 \<Rightarrow> bool" where "f32_s b \<longleftrightarrow> unat b \<ge> 2 ^ 31"

lemma exp_part: "uint (drop_bit 23 (b :: u32) AND 0xFF) = int (f32_e b)"
proof -
  have "(0xFF :: u32) = mask 8" by (simp add: mask_eq_exp_minus_1)
  then have "unat (drop_bit 23 b AND 0xFF) = f32_e b"
    by (simp only: unat_and_mask) (simp only: f32_e_def unat_drop, simp)
  then show ?thesis by (metis of_nat_unat)
qed

lemma mant_part: "unat ((b :: u32) AND 0x7FFFFF) = f32_f b"
proof -
  have "(0x7FFFFF :: u32) = mask 23" by (simp add: mask_eq_exp_minus_1)
  then show ?thesis by (simp only: unat_and_mask) (simp add: f32_f_def)
qed

lemma val32_parts:
  "val32 b =
     (if f32_e b = 255 then (if f32_f b = 0 then Inf (f32_s b) else NaN)
      else if f32_e b = 0 then Fin (f32_s b) (f32_f b) (-149)
      else Fin (f32_s b) (f32_f b + 8388608) (int (f32_e b) - 150))"
proof -
  define n where "n = unat b mod 2147483648"
  have e: "n div 8388608 = f32_e b" unfolding n_def f32_e_def
    using mod_mult2_eq [of "unat b" 8388608 256] by simp
  have f: "n mod 8388608 = f32_f b" unfolding n_def f32_f_def by (simp add: mod_mod_cancel)
  have n: "n = f32_e b * 8388608 + f32_f b" using div_mult_mod_eq [of n 8388608] e f by simp
  have "f32_e b < 256" "f32_f b < 8388608" by (simp_all add: f32_e_def f32_f_def)
  then have "(n > 2139095040) = (f32_e b = 255 \<and> f32_f b > 0) \<and> (n = 2139095040) = (f32_e b = 255 \<and> f32_f b = 0)"
  proof (cases "f32_e b = 255")
    case False
    with \<open>f32_e b < 256\<close> have "f32_e b \<le> 254" by simp
    with n \<open>f32_f b < 8388608\<close> have "n < 2139095040" by linarith
    with False show ?thesis by simp
  qed (simp add: n)
  moreover have "f32_s b \<longleftrightarrow> 2147483648 \<le> unat b" by (simp add: f32_s_def)
  ultimately show ?thesis
    by (simp add: val32_def decode_def mag_val_def Let_def e f flip: n_def)
qed

lemma sign_or:
  fixes h :: u32
  assumes "unat h < 32768"
  shows "(if s then 0x8000 else (0 :: u16)) OR ucast h = of_nat (signed F16 s (unat h))"
proof -
  have u: "unat (ucast h :: u16) = unat h" unfolding unsigned_ucast_eq using assms by (simp add: take_bit_nat_eq_self)
  have "unat (0x8000 :: u16) AND unat (ucast h :: u16) = 0"
    using nat_and_disjoint [of "unat h" 15 1] assms by (simp add: u)
  from unat_or_add [OF this] have "unat (0x8000 OR ucast h :: u16) = 32768 + unat h" by (simp add: u)
  then have "0x8000 OR (ucast h :: u16) = of_nat (32768 + unat h)" by (metis of_nat_unat ucast_id)
  then show ?thesis by (simp add: signed_def u)
qed

text \<open>What the rounding is for the numbers of \<open>float32\<close>.\<close>

lemma round16_normal:
  assumes "113 \<le> e" and "f < 8388608"
  shows "round_mag F16 (f + 8388608) (int e - 150) =
    min 31744 ((e - 112) * 1024 + f div 8192 + (if f mod 8192 > 4096 \<or> (f mod 8192 = 4096 \<and> odd (f div 8192)) then 1 else 0))"
proof -
  have l: "bitlen (f + 8388608) = Suc 23" by (rule bitlen_unique) (use assms(2) in simp_all)
  have k: "round_exp F16 (f + 8388608) (int e - 150) = e - 113" using assms(1) by (simp add: round_exp_def l nat_diff_distrib)
  have s: "fmin F16 + int (e - 113) - (int e - 150) = 13" using assms(1) by simp
  have d: "(f + 8388608) div 8192 = f div 8192 + 1024" "(f + 8388608) mod 8192 = f mod 8192"
    using div_mult_self1 [of 8192 f 1024] mod_mult_self1 [of f 1024 8192] by simp_all
  define up :: nat where "up = (if f mod 8192 > 4096 \<or> (f mod 8192 = 4096 \<and> odd (f div 8192)) then 1 else 0)"
  have r: "rne (f + 8388608) 13 = f div 8192 + 1024 + up"
    by (simp add: rne_def Let_def d up_def)
  have "(e - 113) * 1024 + 1024 = (e - 112) * 1024" using assms(1) by (simp add: diff_mult_distrib)
  then have eq: "(e - 113) * 1024 + (f div 8192 + 1024 + up) = (e - 112) * 1024 + f div 8192 + up" by linarith
  show ?thesis unfolding up_def [symmetric] unfolding round_mag_def k Let_def s by (simp add: r eq)
qed

lemma round16_small:
  assumes "e \<le> 112" and "1 \<le> e" and "f < 8388608"
  shows "round_mag F16 (f + 8388608) (int e - 150) = min 31744 (rne (f + 8388608) (126 - e))"
proof -
  have l: "bitlen (f + 8388608) = Suc 23" by (rule bitlen_unique) (use assms(3) in simp_all)
  have k: "round_exp F16 (f + 8388608) (int e - 150) = 0" using assms(1) by (simp add: round_exp_def l)
  have s: "fmin F16 + int 0 - (int e - 150) = int (126 - e)" using assms(1) by simp
  have "nat (126 - int e) = 126 - e" by simp
  then show ?thesis unfolding round_mag_def k Let_def s using assms(1) by simp
qed

lemma rne_tiny: "2 * n < 2 ^ s \<Longrightarrow> rne n s = 0"
  by (simp add: rne_def)

lemma round16_tiny:
  assumes "e \<le> 101" and "1 \<le> e" and "f < 8388608"
  shows "round_mag F16 (f + 8388608) (int e - 150) = 0"
proof -
  have "(2 :: nat) ^ 25 \<le> 2 ^ (126 - e)" by (rule power_increasing) (use assms(1) in simp_all)
  with assms(3) have "rne (f + 8388608) (126 - e) = 0" by (intro rne_tiny) simp
  with round16_small [of e f] assms show ?thesis by simp
qed

lemma round16_subnormal:
  assumes "f < 8388608"
  shows "round_mag F16 f (-149) = 0"
proof (cases "f = 0")
  case False
  have "bitlen f \<le> 23" using bitlen_le [of f 23] assms by simp
  then have k: "round_exp F16 f (-149) = 0" by (simp add: round_exp_def)
  have "rne f 125 = 0" by (rule rne_tiny) (use assms in simp)
  with False k show ?thesis by (simp add: round_mag_def)
qed (simp add: round_mag_def)

text \<open>The two branches of the code as numbers.\<close>

lemma small_branch:
  fixes mant :: u32
  assumes "102 \<le> e" and "e \<le> 112" and "unat mant = f" and "f < 8388608"
  defines "m \<equiv> mant OR 0x800000" and "s \<equiv> 126 - e"
  defines "half \<equiv> drop_bit s m" and "rem \<equiv> m AND (push_bit s 1 - 1)" and "mid \<equiv> push_bit (s - 1) 1"
  shows "unat (if rem > mid \<or> (rem = mid \<and> half AND 1 = 1) then half + 1 else half) = rne (f + 8388608) s"
proof -
  have s: "14 \<le> s" "s \<le> 24" using assms by simp_all
  have "unat mant AND unat (0x800000 :: u32) = 0"
    using nat_and_disjoint [of f 23 1] assms(3,4) by (simp add: and.commute)
  from unat_or_add [OF this] have m: "unat m = f + 8388608" by (simp add: m_def assms(3))
  have half: "unat half = (f + 8388608) div 2 ^ s" by (simp add: half_def unat_drop m)
  have "push_bit s 1 - 1 = (mask s :: u32)" by (simp add: mask_eq_exp_minus_1 push_bit_eq_mult)
  then have rem: "unat rem = (f + 8388608) mod 2 ^ s" by (simp only: rem_def unat_and_mask m)
  have "(2 :: nat) ^ (s - 1) < 2 ^ 32" by (rule power_strict_increasing) (use s in simp_all)
  moreover have "mid = of_nat (2 ^ (s - 1))" by (simp add: mid_def push_bit_eq_mult)
  ultimately have mid: "unat mid = 2 ^ (s - 1)" by (simp only: unat_u32)
  have two: "(2 :: nat) ^ s = 2 * 2 ^ (s - 1)" using s by (cases s) simp_all
  have lt: "(f + 8388608) div 2 ^ s < 2 ^ 32 - 1"
    by (rule le_less_trans [OF div_le_dividend]) (use assms(4) in simp)
  have eq: "rem = mid \<longleftrightarrow> unat rem = unat mid" by (simp add: word_eq_iff_unsigned [where ?'a = nat])
  show ?thesis
    using lt unfolding half [symmetric] eq u32_odd word_less_nat_alt
    by (simp add: unat_inc rem mid half rne_def Let_def two)
qed

lemma normal_branch:
  fixes mant :: u32
  assumes "113 \<le> e" and "e \<le> 142" and "unat mant = f" and "f < 8388608"
  defines "half \<equiv> push_bit 10 (of_int (int e - 112)) OR drop_bit 13 mant" and "rem \<equiv> mant AND 0x1FFF"
  shows "unat (if rem > 0x1000 \<or> (rem = 0x1000 \<and> half AND 1 = 1) then half + 1 else half) =
    (e - 112) * 1024 + f div 8192 + (if f mod 8192 > 4096 \<or> (f mod 8192 = 4096 \<and> odd (f div 8192)) then 1 else 0)"
proof -
  have e: "of_int (int e - 112) = (of_nat (e - 112) :: u32)" using assms(1) by (simp add: of_nat_diff)
  have p: "unat (push_bit 10 (of_nat (e - 112)) :: u32) = (e - 112) * 2 ^ 10"
  proof -
    have "push_bit 10 (of_nat (e - 112)) = (of_nat ((e - 112) * 1024) :: u32)" by (simp add: push_bit_eq_mult)
    moreover have "(e - 112) * 1024 < 2 ^ 32" using assms(2) by simp
    ultimately show ?thesis by (simp only: unat_u32) simp
  qed
  have d: "unat (drop_bit 13 mant) = f div 8192" by (simp add: unat_drop assms(3))
  have "f div 8192 < 2 ^ 10" using assms(4) by (simp add: less_mult_imp_div_less)
  from unat_or_add [of "push_bit 10 (of_nat (e - 112))" "drop_bit 13 mant"] nat_and_disjoint [OF this]
  have half: "unat half = (e - 112) * 1024 + f div 8192" unfolding half_def e by (simp add: p d)
  have "(0x1FFF :: u32) = mask 13" by (simp add: mask_eq_exp_minus_1)
  then have rem: "unat rem = f mod 8192" by (simp only: rem_def unat_and_mask assms(3)) simp
  have lt: "unat half < 2 ^ 32 - 1" using half assms(2) \<open>f div 8192 < 2 ^ 10\<close> by simp
  have odd: "odd ((e - 112) * 1024 + f div 8192) = odd (f div 8192)" by simp
  have eq: "rem = 0x1000 \<longleftrightarrow> unat rem = 4096" by (simp add: word_eq_iff_unsigned [where ?'a = nat])
  show ?thesis
    using lt unfolding eq u32_odd word_less_nat_alt by (simp add: unat_inc rem half odd)
qed

lemmas fp16_code = fp16FromFloat32_def [unfolded exp_part sign_part f32_s_def [symmetric] Let_def]

lemma fp16_small:
  assumes "102 \<le> f32_e b" and "f32_e b \<le> 112"
  shows "\<exists>h :: u32. fp16FromFloat32 b = ((if f32_s b then 0x8000 else 0) OR ucast h, True)
    \<and> unat h = rne (f32_f b + 8388608) (126 - f32_e b)"
proof -
  have f: "f32_f b < 8388608" by (simp add: f32_f_def)
  have sh: "nat (14 - (int (f32_e b) - 127 + 15)) = 126 - f32_e b" using assms by simp
  have c: "\<not> 31 \<le> int (f32_e b) - 127 + 15" "\<not> int (f32_e b) - 127 + 15 < - 10" "int (f32_e b) - 127 + 15 \<le> 0"
    using assms by simp_all
  show ?thesis
    unfolding fp16_code if_not_P [OF c(1)] if_not_P [OF c(2)] if_P [OF c(3)] sh
    by (intro exI conjI, rule refl, rule small_branch [OF assms mant_part f])
qed

lemma fp16_normal:
  assumes "113 \<le> f32_e b" and "f32_e b \<le> 142"
  shows "\<exists>h :: u32. fp16FromFloat32 b = (if h \<ge> 0x7C00 then (0, False) else ((if f32_s b then 0x8000 else 0) OR ucast h, True))
    \<and> unat h = (f32_e b - 112) * 1024 + f32_f b div 8192
        + (if f32_f b mod 8192 > 4096 \<or> (f32_f b mod 8192 = 4096 \<and> odd (f32_f b div 8192)) then 1 else 0)"
proof -
  have f: "f32_f b < 8388608" by (simp add: f32_f_def)
  have ex: "int (f32_e b) - 127 + 15 = int (f32_e b) - 112" by simp
  have c: "\<not> 31 \<le> int (f32_e b) - 112" "\<not> int (f32_e b) - 112 < - 10" "\<not> int (f32_e b) - 112 \<le> 0"
    using assms by simp_all
  show ?thesis
    unfolding fp16_code ex if_not_P [OF c(1)] if_not_P [OF c(2)] if_not_P [OF c(3)]
    by (intro exI conjI, rule refl, rule normal_branch [OF assms mant_part f])
qed

lemma fp16FromFloat32_rounds:
  assumes "val32 b = Fin s m e"
  shows "fp16FromFloat32 b =
    (if round_mag F16 m e = inf_bits F16 then (0, False) else (of_nat (signed F16 s (round_mag F16 m e)), True))"
proof -
  let ?e = "f32_e b" and ?f = "f32_f b"
  have f: "?f < 8388608" and e: "?e \<noteq> 255" "?e < 256" and s: "s = f32_s b"
    using assms by (auto simp: val32_parts f32_f_def f32_e_def split: if_splits)
  have me: "?e = 0 \<and> m = ?f \<and> e = -149 \<or> ?e \<noteq> 0 \<and> m = ?f + 8388608 \<and> e = int ?e - 150"
    using assms e by (auto simp: val32_parts split: if_splits)
  consider "143 \<le> ?e" | "?e \<le> 101" | "102 \<le> ?e" "?e \<le> 112" | "113 \<le> ?e" "?e \<le> 142" by linarith
  then show ?thesis
  proof cases
    case 1
    then have "(?e - 112) * 1024 \<ge> 31744" by linarith
    with me 1 round16_normal [of ?e ?f] f have "round_mag F16 m e = 31744" by auto
    with 1 show ?thesis by (simp add: fp16_code)
  next
    case 2
    have "round_mag F16 m e = 0" using me 2 f round16_subnormal round16_tiny [of ?e ?f] by auto
    with 2 s show ?thesis by (simp add: fp16_code signed_def)
  next
    case 3
    have "(2 :: nat) ^ 14 \<le> 2 ^ (126 - ?e)" by (rule power_increasing) (use 3 in simp_all)
    with f have "?f + 8388608 < 1024 * 2 ^ (126 - ?e)" by simp
    then have "(?f + 8388608) div 2 ^ (126 - ?e) < 1024" by (simp add: less_mult_imp_div_less)
    then have lt: "rne (?f + 8388608) (126 - ?e) \<le> 1024" by (simp add: rne_def Let_def)
    with me 3 round16_small [of ?e ?f] f have r: "round_mag F16 m e = rne (?f + 8388608) (126 - ?e)" by auto
    obtain h :: u32 where h: "fp16FromFloat32 b = ((if s then 0x8000 else 0) OR ucast h, True)" "unat h = rne (?f + 8388608) (126 - ?e)"
      using fp16_small [OF 3] s by blast
    from sign_or [of h s] h(2) lt have "(if s then 0x8000 else 0) OR ucast h = (of_nat (signed F16 s (round_mag F16 m e)) :: u16)"
      by (simp add: r)
    with h(1) lt r show ?thesis by simp
  next
    case 4
    obtain h :: u32 where h: "fp16FromFloat32 b = (if h \<ge> 0x7C00 then (0, False) else ((if f32_s b then 0x8000 else 0) OR ucast h, True))"
      and u: "unat h = (?e - 112) * 1024 + ?f div 8192 + (if ?f mod 8192 > 4096 \<or> (?f mod 8192 = 4096 \<and> odd (?f div 8192)) then 1 else 0)"
      using fp16_normal [OF 4] by (elim exE conjE)
    have "m = ?f + 8388608" "e = int ?e - 150" using me 4(1) by (elim disjE; simp)+
    then have r: "round_mag F16 m e = min 31744 (unat h)" by (simp only: round16_normal [OF 4(1) f] u)
    note h = h [folded s] r
    have "h \<ge> 0x7C00 \<longleftrightarrow> unat h \<ge> 31744" by (simp add: word_le_nat_alt)
    with sign_or [of h s] h show ?thesis by (auto simp: min_def)
  qed
qed

subsection \<open>Conversion up is exact\<close>

lemma u16_sign: "push_bit 16 (ucast (h AND 0x8000 :: u16) :: u32) = (if unat h \<ge> 2 ^ 15 then 0x80000000 else 0)"
  using and_exp_if [of h 15] bit_top [of 15 h] by (simp add: push_bit_eq_mult)

definition f16_e :: "u16 \<Rightarrow> nat" where "f16_e h = unat h div 2 ^ 10 mod 32"
definition f16_f :: "u16 \<Rightarrow> nat" where "f16_f h = unat h mod 2 ^ 10"
definition f16_s :: "u16 \<Rightarrow> bool" where "f16_s h \<longleftrightarrow> unat h \<ge> 2 ^ 15"

lemma unat_ucast16: "unat (ucast (h :: u16) :: u32) = unat h"
  using unsigned_less [of h, where ?'a = nat] by (simp add: unsigned_ucast_eq take_bit_nat_eq_self)

lemma u16_exp: "unat ((ucast (drop_bit 10 h) :: u32) AND 0x1F) = f16_e h"
proof -
  have "(0x1F :: u32) = mask 5" by (simp add: mask_eq_exp_minus_1)
  then show ?thesis by (simp only: unat_and_mask unat_ucast16 unat_drop f16_e_def) simp
qed

lemma u16_mant: "unat (ucast (h AND 0x3FF) :: u32) = f16_f h"
proof -
  have "(0x3FF :: u16) = mask 10" by (simp add: mask_eq_exp_minus_1)
  then show ?thesis by (simp only: unat_ucast16 unat_and_mask f16_f_def)
qed

lemma val16_parts:
  "decode F16 (unat h) =
     (if f16_e h = 31 then (if f16_f h = 0 then Inf (f16_s h) else NaN)
      else if f16_e h = 0 then Fin (f16_s h) (f16_f h) (-24)
      else Fin (f16_s h) (f16_f h + 1024) (int (f16_e h) - 25))"
proof -
  define n where "n = unat h mod 32768"
  have e: "n div 1024 = f16_e h" unfolding n_def f16_e_def
    using mod_mult2_eq [of "unat h" 1024 32] by simp
  have f: "n mod 1024 = f16_f h" unfolding n_def f16_f_def by (simp add: mod_mod_cancel)
  have n: "n = f16_e h * 1024 + f16_f h" using div_mult_mod_eq [of n 1024] e f by simp
  have "f16_e h < 32" "f16_f h < 1024" by (simp_all add: f16_e_def f16_f_def)
  then have "(n > 31744) = (f16_e h = 31 \<and> f16_f h > 0) \<and> (n = 31744) = (f16_e h = 31 \<and> f16_f h = 0)"
  proof (cases "f16_e h = 31")
    case False
    with \<open>f16_e h < 32\<close> have "f16_e h \<le> 30" by simp
    with n \<open>f16_f h < 1024\<close> have "n < 31744" by linarith
    with False show ?thesis by simp
  qed (simp add: n)
  moreover have "f16_s h \<longleftrightarrow> 32768 \<le> unat h" by (simp add: f16_s_def)
  ultimately show ?thesis
    by (simp add: decode_def mag_val_def Let_def e f flip: n_def)
qed

lemma u32_fields:
  assumes "e < 256" and "f < 8388608"
  shows "f32_e (of_nat (signed F32 s (e * 8388608 + f))) = e" and "f32_f (of_nat (signed F32 s (e * 8388608 + f))) = f"
    and "f32_s (of_nat (signed F32 s (e * 8388608 + f))) = s"
proof -
  have "e * 8388608 + f < 2147483648" using assms by linarith
  then have u: "unat (of_nat (signed F32 s (e * 8388608 + f)) :: u32) = signed F32 s (e * 8388608 + f)"
    by (intro unat_u32) (simp add: signed_def)
  have d: "(e * 8388608 + f) div 8388608 = e" "(e * 8388608 + f) mod 8388608 = f" using assms(2) by simp_all
  have s: "2147483648 + (e * 8388608 + f) = (256 + e) * 8388608 + f" by simp
  have "(2147483648 + (e * 8388608 + f)) div 8388608 = 256 + e" "(2147483648 + (e * 8388608 + f)) mod 8388608 = f"
    using assms(2) unfolding s by (simp, simp only: mod_mult_self3 mod_less)
  then show "f32_e (of_nat (signed F32 s (e * 8388608 + f))) = e" "f32_f (of_nat (signed F32 s (e * 8388608 + f))) = f"
    "f32_s (of_nat (signed F32 s (e * 8388608 + f))) = s"
    unfolding f32_e_def f32_f_def f32_s_def u using d assms \<open>e * 8388608 + f < 2147483648\<close>
    by (cases s; simp add: signed_def)+
qed

lemma fneg_parts: "f32_e (fneg x) = f32_e x" "f32_f (fneg x) = f32_f x" "f32_s (fneg x) = (\<not> f32_s x)"
proof -
  have "(0x80000000 :: u32) = 2 ^ 31" by simp
  then have m: "bit (0x80000000 :: u32) n \<longleftrightarrow> n = 31" for n by (simp only: bit_exp_iff) auto
  have "fneg x AND 0x7FFFFF = x AND 0x7FFFFF"
  proof -
    have b: "bit (mask 23 :: u32) n \<longleftrightarrow> n < 23" for n by (auto simp: bit_mask_iff)
    have "fneg x AND mask 23 = x AND mask 23"
      by (rule bit_eqI) (simp only: fneg_def bit_and_iff bit_xor_iff m b, auto)
    then show ?thesis by (simp add: mask_eq_exp_minus_1)
  qed
  then show "f32_f (fneg x) = f32_f x" by (simp only: mant_part [symmetric])
  have "drop_bit 23 (fneg x) AND 0xFF = drop_bit 23 x AND 0xFF"
  proof -
    have b: "bit (mask 8 :: u32) n \<longleftrightarrow> n < 8" for n by (auto simp: bit_mask_iff)
    have "drop_bit 23 (fneg x) AND mask 8 = drop_bit 23 x AND mask 8"
      by (rule bit_eqI) (simp only: fneg_def bit_and_iff bit_drop_bit_eq o_apply bit_xor_iff m b, auto)
    then show ?thesis by (simp add: mask_eq_exp_minus_1)
  qed
  then show "f32_e (fneg x) = f32_e x" using exp_part [of x] exp_part [of "fneg x"] by simp
  have "bit (fneg x) 31 \<longleftrightarrow> \<not> bit x 31" by (simp only: fneg_def bit_xor_iff m) simp
  then show "f32_s (fneg x) = (\<not> f32_s x)" using bit_top [of 31 x] bit_top [of 31 "fneg x"] by (simp add: f32_s_def)
qed

lemma fneg_val: "val32 (fneg x) = val_neg (val32 x)"
  by (simp add: val32_parts fneg_parts val_neg_def)

lemma fp16ToFloat32_normal:
  assumes "f16_e h \<noteq> 0" and "f16_e h \<noteq> 31"
  shows "fp16ToFloat32 h = of_nat (signed F32 (f16_s h) ((f16_e h + 112) * 8388608 + f16_f h * 8192))"
proof -
  let ?S = "if f16_s h then 0x80000000 else (0 :: u32)" and ?e = "ucast (drop_bit 10 h) AND 0x1F :: u32" and ?m = "ucast (h AND 0x3FF) :: u32"
  have f: "f16_f h < 1024" and e: "f16_e h < 31" using assms by (auto simp: f16_f_def f16_e_def)
  have ne: "?e \<noteq> 0" "?e \<noteq> 31" using assms u16_exp [of h] by (auto simp: word_eq_iff_unsigned [where ?'a = nat])
  have c: "fp16ToFloat32 h = (?S OR push_bit 23 (?e + 112)) OR push_bit 13 ?m"
    using ne by (simp add: fp16ToFloat32_def Let_def u16_sign f16_s_def or.assoc)
  have m: "unat (push_bit 13 ?m) = f16_f h * 8192"
  proof -
    have "push_bit 13 ?m = of_nat (f16_f h * 8192)" using u16_mant [of h] by (simp add: push_bit_eq_mult) (metis of_nat_unat ucast_id)
    moreover have "f16_f h * 8192 < 2 ^ 32" using f by simp
    ultimately show ?thesis by (simp only: unat_u32)
  qed
  have x: "unat (push_bit 23 (?e + 112)) = (f16_e h + 112) * 8388608"
  proof -
    have "push_bit 23 (?e + 112) = of_nat ((f16_e h + 112) * 8388608)"
      using u16_exp [of h] by (simp add: push_bit_eq_mult) (metis of_nat_unat ucast_id)
    moreover have "(f16_e h + 112) * 8388608 < 2 ^ 32" using e by simp
    ultimately show ?thesis by (simp only: unat_u32)
  qed
  have "f16_f h * 8192 < 2 ^ 23" using f by simp
  note d = nat_and_disjoint [OF this]
  have xm: "unat (push_bit 23 (?e + 112) OR push_bit 13 ?m) = (f16_e h + 112) * 8388608 + f16_f h * 8192"
    using unat_or_add [of "push_bit 23 (?e + 112)" "push_bit 13 ?m"] d [of "f16_e h + 112"] by (simp add: x m)
  have lt: "(f16_e h + 112) * 8388608 + f16_f h * 8192 < 2 ^ 31" using e f by simp
  have "unat ?S AND unat (push_bit 23 (?e + 112) OR push_bit 13 ?m) = 0"
    using nat_and_disjoint [OF lt, of 1] by (simp add: xm)
  from unat_or_add [OF this] have "unat (fp16ToFloat32 h) = signed F32 (f16_s h) ((f16_e h + 112) * 8388608 + f16_f h * 8192)"
    by (simp add: c or.assoc xm signed_def)
  then show ?thesis by (metis of_nat_unat ucast_id)
qed

lemma fp16ToFloat32_subnormal:
  assumes "f16_e h = 0"
  shows "\<exists>m e. val32 (fp16ToFloat32 h) = Fin (f16_s h) m e \<and> real m * 2 powi e = real (f16_f h) * 2 powi (-24)"
proof -
  let ?S = "if f16_s h then 0x80000000 else (0 :: u32)" and ?x = "fof_nat (f16_f h)"
  have f: "f16_f h < 1024" by (simp add: f16_f_def)
  have len: "bitlen (f16_f h) \<le> 10" using bitlen_le [of "f16_f h" 10] f by simp
  have "ucast (drop_bit 10 h) AND 0x1F = (0 :: u32)" using assms u16_exp [of h] by (simp add: word_eq_iff_unsigned [where ?'a = nat])
  then have c: "fp16ToFloat32 h = (if f16_s h then fneg (fmul ?x 0x33800000) else fmul ?x 0x33800000)"
    using u16_mant [of h] by (simp add: fp16ToFloat32_def Let_def u16_sign f16_s_def)
  obtain a i where x: "val32 ?x = Fin False a i" "real a * 2 powi i = real (f16_f h)"
    using val32_of_val32 [of "f16_f h" 0 False] f len unfolding fof_nat_def by auto
  have "val32 0x33800000 = Fin False 8388608 (-47)" by (simp add: val32_parts f32_e_def f32_f_def f32_s_def)
  then have mul: "fmul ?x 0x33800000 = of_val32 (Fin False (a * 8388608) (i - 47))" by (simp add: fmul_def x(1) val_mul_def)
  have eight: "(8388608 :: real) = 2 powi 23" by (simp add: power_int_def)
  have "real (a * 8388608) * 2 powi (i - 47) = real a * (2 powi 23 * 2 powi (i - 47))"
    unfolding of_nat_mult of_nat_numeral eight by (simp only: mult.assoc)
  also have "(2 :: real) powi 23 * 2 powi (i - 47) = 2 powi (23 + (i - 47))" by (rule power_int_add [symmetric]) simp
  also have "23 + (i - 47) = i + (-24)" by simp
  also have "(2 :: real) powi (i + (-24)) = 2 powi i * 2 powi (-24)" by (rule power_int_add) simp
  finally have "real (a * 8388608) * 2 powi (i - 47) = real (f16_f h) * 2 powi (-24)"
    unfolding x(2) [symmetric] by (simp only: mult.assoc)
  from round_mag_real [OF this, of F32] have "fmul ?x 0x33800000 = of_val32 (Fin False (f16_f h) (-24))"
    by (simp add: mul of_val32_def encode_def)
  moreover obtain m e where me: "val32 (of_val32 (Fin False (f16_f h) (-24))) = Fin False m e" "real m * 2 powi e = real (f16_f h) * 2 powi (-24)"
    using val32_of_val32 [of "f16_f h" "-24" False] f len by auto
  ultimately have "val32 (fp16ToFloat32 h) = Fin (f16_s h) m e" by (simp add: c fneg_val val_neg_def)
  with me(2) show ?thesis by blast
qed

text \<open>The conversion up keeps sign and number.\<close>

lemma fp16ToFloat32_exact:
  assumes "decode F16 (unat h) = Fin s m e"
  shows "\<exists>n f. val32 (fp16ToFloat32 h) = Fin s n f \<and> real n * 2 powi f = real m * 2 powi e"
proof (cases "f16_e h = 0")
  case True
  with assms fp16ToFloat32_subnormal [OF True] show ?thesis by (auto simp: val16_parts)
next
  case False
  with assms have e31: "f16_e h \<noteq> 31" and me: "s = f16_s h" "m = f16_f h + 1024" "e = int (f16_e h) - 25"
    by (auto simp: val16_parts split: if_splits)
  have lt: "f16_e h + 112 < 255" "f16_f h * 8192 < 8388608" using e31 by (auto simp: f16_e_def f16_f_def)
  then have "f16_e h + 112 < 256" by simp
  note p = u32_fields [OF this lt(2), of "f16_s h"]
  have "val32 (fp16ToFloat32 h) = Fin s (f16_f h * 8192 + 8388608) (int (f16_e h) - 38)"
    unfolding val32_parts fp16ToFloat32_normal [OF False e31] p using lt(1) by (simp add: me)
  moreover have "real (f16_f h * 8192 + 8388608) * 2 powi (int (f16_e h) - 38) = real m * 2 powi e"
    using powi_nat [of "int (f16_e h) - 38" e] by (simp add: me)
  ultimately show ?thesis by blast
qed

lemma fp16_roundtrip:
  assumes "decode F16 (unat h) = Fin s m e"
  shows "fp16FromFloat32 (fp16ToFloat32 h) = (h, True)"
proof -
  obtain n f where v: "val32 (fp16ToFloat32 h) = Fin s n f" "real n * 2 powi f = real m * 2 powi e"
    using fp16ToFloat32_exact [OF assms] by blast
  have mag: "mag_val F16 s (unat h mod 32768) = Fin s m e" and s: "s = (unat h \<ge> 32768)"
    using assms by (auto simp: decode_def mag_val_def Let_def split: if_splits)
  then have lt: "unat h mod 32768 < inf_bits F16" by (auto simp: mag_val_def Let_def split: if_splits)
  have "round_mag F16 n f = unat h mod 32768"
    using round_mag_val [OF _ lt mag] round_mag_real [OF v(2), of F16] by simp
  moreover have "signed F16 s (unat h mod 32768) = unat h"
  proof -
    have "unat h < 65536" using unsigned_less [of h, where ?'a = nat] by simp
    then show ?thesis by (auto simp: signed_def s mod_if)
  qed
  ultimately show ?thesis using fp16FromFloat32_rounds [OF v(1)] lt by simp
qed

subsection \<open>Properties\<close>

lemma fp16_result:
  assumes "val32 x = Fin s m e" and "fp16FromFloat32 x = (h, True)"
  shows "round_mag F16 m e < inf_bits F16 \<and> unat h = signed F16 s (round_mag F16 m e)"
proof -
  have "round_mag F16 m e \<le> 31744" by (simp add: round_mag_def Let_def)
  with assms(2) fp16FromFloat32_rounds [OF assms(1)] have lt: "round_mag F16 m e < 31744"
    and h: "h = of_nat (signed F16 s (round_mag F16 m e))" by (auto split: if_splits)
  have "signed F16 s (round_mag F16 m e) < 65536" using lt by (simp add: signed_def)
  with h have "unat h = signed F16 s (round_mag F16 m e)" by (simp only: unat_of_nat) simp
  with lt show ?thesis by simp
qed

lemma fp16_overflow:
  assumes "val32 x = Fin s m e"
  shows "snd (fp16FromFloat32 x) \<longleftrightarrow> \<bar>rval (val32 x)\<bar> < 65520"
proof -
  let ?e = "f32_e x" and ?f = "f32_f x"
  have f: "?f < 8388608" and e: "?e < 255" by (use assms in \<open>auto simp: val32_parts f32_f_def f32_e_def split: if_splits\<close>)
  define v where "v = real (?f + 8388608) * 2 powi (int ?e - 150)"
  have abs: "\<bar>rval (val32 x)\<bar> = v" if "?e \<noteq> 0" using that e by (simp add: val32_parts rval_Fin v_def)
  consider "143 \<le> ?e" | "?e = 0" | "?e \<noteq> 0" "?e \<le> 141" | "?e = 142" using e by linarith
  then show ?thesis
  proof cases
    case 1
    have "(65536 :: real) = 8388608 * 2 powi (-7)" by (simp add: power_int_def power_one_over)
    also have "\<dots> \<le> v" unfolding v_def
    proof (rule mult_mono)
      show "(2 :: real) powi (-7) \<le> 2 powi (int ?e - 150)" by (rule power_int_increasing) (use 1 in simp_all)
    qed simp_all
    finally show ?thesis using 1 abs by (simp add: fp16_code)
  next
    case 2
    have "real ?f * 2 powi (-149) \<le> 8388608 * 2 powi (-23)" by (rule mult_mono) (use f in \<open>auto intro!: power_int_increasing\<close>)
    also have "\<dots> < (65520 :: real)" by (simp add: power_int_def power_one_over)
    finally show ?thesis using 2 by (simp add: fp16_code val32_parts rval_Fin)
  next
    case 3
    have "v \<le> 16777216 * 2 powi (-9)" unfolding v_def
    proof (rule mult_mono)
      show "(2 :: real) powi (int ?e - 150) \<le> 2 powi (-9)" by (rule power_int_increasing) (use 3 in simp_all)
    qed (use f in simp_all)
    also have "\<dots> < (65520 :: real)" by (simp add: power_int_def power_one_over)
    finally have lt: "\<bar>rval (val32 x)\<bar> < 65520" using 3 abs by simp
    have "snd (fp16FromFloat32 x)"
    proof (cases "113 \<le> ?e")
      case True
      with fp16_normal [of x] 3 obtain h :: u32 where h: "fp16FromFloat32 x = (if h \<ge> 0x7C00 then (0, False) else ((if f32_s x then 0x8000 else 0) OR ucast h, True))"
        "unat h \<le> (?e - 112) * 1024 + ?f div 8192 + 1" by fastforce
      have "?f div 8192 < 1024" using f by (simp add: less_mult_imp_div_less)
      with h(2) 3 have "unat h < 31744" by linarith
      with h(1) show ?thesis by (simp add: word_le_nat_alt)
    next
      case False
      then show ?thesis using fp16_small [of x] by (cases "102 \<le> ?e") (auto simp: fp16_code)
    qed
    with lt show ?thesis by simp
  next
    case 4
    have "v = real (?f + 8388608) / 256" using 4 by (simp add: v_def power_int_def power_one_over)
    then have v: "v < 65520 \<longleftrightarrow> ?f < 8384512" by simp linarith
    obtain h :: u32 where h: "fp16FromFloat32 x = (if h \<ge> 0x7C00 then (0, False) else ((if f32_s x then 0x8000 else 0) OR ucast h, True))"
      "unat h = 30720 + ?f div 8192 + (if ?f mod 8192 > 4096 \<or> (?f mod 8192 = 4096 \<and> odd (?f div 8192)) then 1 else 0)"
      using fp16_normal [of x] 4 by auto
    define a where "a = ?f div 8192"
    define b where "b = ?f mod 8192"
    note h2 = h(2) [folded a_def b_def]
    have ab: "?f = 8192 * a + b" "b < 8192" by (simp_all add: a_def b_def)
    have "a < 1024" using f by (simp add: a_def less_mult_imp_div_less)
    have "unat h < 31744 \<longleftrightarrow> ?f < 8384512"
    proof (cases "a = 1023")
      case True
      with h2 ab show ?thesis by (simp split: if_splits)
    next
      case False
      with \<open>a < 1024\<close> have "a \<le> 1022" by simp
      with h2 ab show ?thesis by (simp split: if_splits)
    qed
    with h(1) v abs 4 show ?thesis by (auto simp: word_le_nat_alt not_le)
  qed
qed

text \<open>What becomes of a vector: the elements before the first that cannot be stored are written, and that one decides the error.\<close>

definition fp16_err :: "float32 \<Rightarrow> gerr option" where
  "fp16_err x = (if \<not> finite_val (val32 x) then Some (ErrMsg ''vector: non-finite float32 value'')
     else if snd (fp16FromFloat32 x) then None else Some ErrFloat16Overflow)"

lemma fp16_err_loop:
  "(IsNaN x \<or> IsInf x) = (\<not> finite_val (val32 x))"
  by (cases "val32 x") (simp_all add: IsNaN_def IsInf_def)

lemma encode16_loop_spec:
  assumes "i + length src \<le> length dst"
  shows "encode16_loop i dst src =
    (let good = takeWhile (\<lambda>x. fp16_err x = None) src
     in (case drop (length good) src of [] \<Rightarrow> None | x # _ \<Rightarrow> fp16_err x,
         take i dst @ map (fst \<circ> fp16FromFloat32) good @ drop (i + length good) dst))"
  using assms
proof (induction src arbitrary: i dst)
  case (Cons x src)
  show ?case
  proof (cases "fp16_err x = None")
    case True
    then obtain h where h: "finite_val (val32 x)" "fp16FromFloat32 x = (h, True)"
      by (cases "fp16FromFloat32 x") (auto simp: fp16_err_def split: if_splits)
    have i: "i < length dst" using Cons.prems by simp
    then have t: "take (Suc i) (dst[i := h]) = take i dst @ [h]" by (simp add: take_Suc_conv_app_nth)
    have d: "drop (Suc i + n) (dst[i := h]) = drop (Suc i + n) dst" for n by (simp add: drop_update_cancel)
    from Cons.IH [of "Suc i" "dst[i := h]"] Cons.prems True h show ?thesis
      by (simp add: Let_def fp16_err_loop t d)
  next
    case False
    then show ?thesis by (auto simp: fp16_err_def fp16_err_loop Let_def split: prod.splits if_splits)
  qed
qed simp

lemma val32_one: "val32 0x3F800001 = Fin False 8388609 (-23)"
  by (simp add: val32_parts f32_e_def f32_f_def f32_s_def)

lemma half_one: "fp16FromFloat32 0x3F800001 = (0x3C00, True)"
  by code_simp

text \<open>
  C25. Storing a number in half precision rounds to nearest. When \<open>fp16FromFloat32\<close> accepts a finite number, the pattern it
  returns is a finite half-precision number, and no half-precision number is nearer to the original.
\<close>

theorem FP16_nearest:
  fixes h g :: u16
  assumes "finite_val (val32 x)" and "fp16FromFloat32 x = (h, True)" and "finite_val (decode F16 (unat g))"
  shows "finite_val (decode F16 (unat h))
    \<and> \<bar>rval (decode F16 (unat h)) - rval (val32 x)\<bar> \<le> \<bar>rval (decode F16 (unat g)) - rval (val32 x)\<bar>"
proof -
  obtain s m e where x: "val32 x = Fin s m e" by (rule finite_valE [OF assms(1)])
  obtain t m' f' where g: "decode F16 (unat g) = Fin t m' f'" by (rule finite_valE [OF assms(3)])
  then have y: "mag_val F16 (unat g \<ge> sign_bit F16) (unat g mod sign_bit F16) = Fin t m' f'" by (simp only: decode_def)
  note h = fp16_result [OF x assms(2)]
  define y' where "y' = (if s = t then real m' * 2 powi f' else - (real m' * 2 powi f'))"
  then have "y' = real m' * 2 powi f' \<or> y' = - (real m' * 2 powi f')" by simp
  from round_nearest [OF _ conjunct1 [OF h] y this, of s] obtain n f
    where n: "mag_val F16 s (round_mag F16 m e) = Fin s n f" "\<bar>real n * 2 powi f - real m * 2 powi e\<bar> \<le> \<bar>y' - real m * 2 powi e\<bar>"
    by auto
  have "decode F16 (unat h) = Fin s n f"
    using decode_signed [of "round_mag F16 m e" F16 s] h n(1) by simp
  then have r: "rval (decode F16 (unat h)) = (if s then -1 else 1) * (real n * 2 powi f)"
    "rval (val32 x) = (if s then -1 else 1) * (real m * 2 powi e)" "rval (decode F16 (unat g)) = (if s then -1 else 1) * y'"
    using x g by (auto simp: rval_Fin y'_def)
  have "\<bar>(if s then -1 else 1) * a - (if s then -1 else 1) * b\<bar> = \<bar>a - b\<bar>" for a b :: real by auto
  with n(2) \<open>decode F16 (unat h) = Fin s n f\<close> show ?thesis unfolding r by simp
qed


theorem FP16_nearest_witness:
  "\<bar>rval (decode F16 (unat (0x3C00 :: u16))) - rval (val32 0x3F800001)\<bar> \<le> \<bar>rval (decode F16 (unat (0x3C01 :: u16))) - rval (val32 0x3F800001)\<bar>"
proof -
  have "decode F16 (unat (0x3C01 :: u16)) = Fin False 1025 (-10)" by (simp add: decode_def mag_val_def)
  with FP16_nearest [OF _ half_one, of "0x3C01"] show ?thesis by (simp add: val32_one)
qed

text \<open>
  C26. Reading a stored number loses nothing. Every finite half-precision number is converted to a \<open>float32\<close> of the same
  value, and converting that back gives the same pattern.
\<close>

theorem FP16_roundtrip:
  assumes "finite_val (decode F16 (unat h))"
  shows "fp16FromFloat32 (fp16ToFloat32 h) = (h, True) \<and> rval (val32 (fp16ToFloat32 h)) = rval (decode F16 (unat h))"
proof -
  obtain s m e where h: "decode F16 (unat h) = Fin s m e" by (rule finite_valE [OF assms])
  with fp16_roundtrip [OF h] fp16ToFloat32_exact [OF h] show ?thesis by (auto simp: rval_Fin)
qed

theorem FP16_roundtrip_witness:
  "fp16FromFloat32 (fp16ToFloat32 0x8001) = (0x8001, True)"
  using FP16_roundtrip [of "0x8001"] by (simp add: decode_def mag_val_def)

text \<open>
  C27. What \<open>EncodeFP16\<close> accepts. It writes the conversions of the elements up to the first one that is not finite or whose
  magnitude is 65520 or more, leaves the rest of the destination alone, and reports that element: a value that is not finite, or
  one that overflows; without such an element there is no error.
\<close>

theorem EncodeFP16_range:
  assumes "length src \<le> length dst"
  shows "EncodeFP16 dst src =
    (let good = takeWhile (\<lambda>x. finite_val (val32 x) \<and> \<bar>rval (val32 x)\<bar> < 65520) src
     in (case drop (length good) src of
           [] \<Rightarrow> None
         | x # _ \<Rightarrow> Some (if finite_val (val32 x) then ErrFloat16Overflow else ErrMsg ''vector: non-finite float32 value''),
         map (fst \<circ> fp16FromFloat32) good @ drop (length good) dst))"
proof -
  have ov: "snd (fp16FromFloat32 x) \<longleftrightarrow> \<bar>rval (val32 x)\<bar> < 65520" if "finite_val (val32 x)" for x
    using that fp16_overflow by (metis finite_valE)
  have err: "fp16_err x = None \<longleftrightarrow> finite_val (val32 x) \<and> \<bar>rval (val32 x)\<bar> < 65520" for x
    using ov by (auto simp: fp16_err_def)
  have first: "\<not> P (hd (drop (length (takeWhile P xs)) xs))" if "drop (length (takeWhile P xs)) xs \<noteq> []" for P and xs :: "float32 list"
    using that by (metis dropWhile_eq_drop hd_dropWhile)
  let ?good = "takeWhile (\<lambda>x. finite_val (val32 x) \<and> \<bar>rval (val32 x)\<bar> < 65520) src"
  have "(case drop (length ?good) src of [] \<Rightarrow> None | x # _ \<Rightarrow> fp16_err x) =
      (case drop (length ?good) src of [] \<Rightarrow> None
       | x # _ \<Rightarrow> Some (if finite_val (val32 x) then ErrFloat16Overflow else ErrMsg ''vector: non-finite float32 value''))"
    using first [of "\<lambda>x. finite_val (val32 x) \<and> \<bar>rval (val32 x)\<bar> < 65520" src] ov
    by (cases "drop (length ?good) src") (auto simp: fp16_err_def)
  with assms encode16_loop_spec [of 0 src dst] show ?thesis by (simp add: EncodeFP16_def Let_def err)
qed

theorem EncodeFP16_range_witness:
  "EncodeFP16 [0, 0, 7] [0x3F800001, 0x7F800000] = (Some (ErrMsg ''vector: non-finite float32 value''), [0x3C00, 0, 7])"
proof -
  have inf: "val32 0x7F800000 = Inf False" by (simp add: val32_parts f32_e_def f32_f_def f32_s_def)
  show ?thesis
    using EncodeFP16_range [of "[0x3F800001, 0x7F800000]" "[0, 0, 7]"]
    by (simp add: val32_one inf half_one rval_Fin power_int_def power_one_over)
qed

end
