(* ===== verification/Vector_Kernels.thy ===== *)
theory Vector_Kernels
  imports Vector_Format Logkeys
begin

text \<open>
  The distance kernels of \<open>src/vector\<close>: the plain loops (\<open>distance_pure.go\<close>), the portable lanes (\<open>distance_simd.go\<close>), the
  AVX-512 versions (\<open>distance_amd64.go\<close>), the half-precision ones with the blocks that are written in assembly
  (\<open>distance_fp16_amd64.go\<close>, \<open>distance_fp16_amd64.s\<close>), the functions of \<open>distance.go\<close>, and the choice of a variant
  (\<open>variant.go\<close>).

  A kernel returns \<open>None\<close> where the code panics, which is when the second vector is shorter than the first. What depends on
  the machine is a record: whether it has AVX-512, the number of lanes of a portable vector, and whether the compiler
  fuses \<open>x * y + z\<close>. A vector register is the list of its lanes.
\<close>

record machine =
  m_avx512 :: bool
  m_lanes :: nat
  m_fuse :: bool

type_synonym kernel = "float32 list \<Rightarrow> float32 list \<Rightarrow> float32 option"
type_synonym kernel16 = "float32 list \<Rightarrow> u16 list \<Rightarrow> float32 option"
type_synonym lanes = "float32 list"

subsection \<open>Plain loops\<close>

text \<open>\<open>for i := range a\<close> with \<open>a[i]\<close> and \<open>b[i]\<close>.\<close>

fun fold_pairs :: "('c \<Rightarrow> 'a \<Rightarrow> 'b \<Rightarrow> 'c) \<Rightarrow> 'c \<Rightarrow> 'a list \<Rightarrow> 'b list \<Rightarrow> 'c option" where
  "fold_pairs f s [] b = Some s"
| "fold_pairs f s (x # a) [] = None"
| "fold_pairs f s (x # a) (y # b) = fold_pairs f (f s x y) a b"

definition l2_step :: "machine \<Rightarrow> float32 \<Rightarrow> float32 \<Rightarrow> float32 \<Rightarrow> float32" where
  "l2_step M s x y = (let diff = fsub x y in fmac (m_fuse M) s diff diff)"

definition dot_step :: "machine \<Rightarrow> float32 \<Rightarrow> float32 \<Rightarrow> float32 \<Rightarrow> float32" where
  "dot_step M s x y = fmac (m_fuse M) s x y"

definition l2SquaredPure :: "machine \<Rightarrow> kernel" where
  "l2SquaredPure M a b = fold_pairs (l2_step M) f32_0 a b"

definition dotProductPure :: "machine \<Rightarrow> kernel" where
  "dotProductPure M a b = fold_pairs (dot_step M) f32_0 a b"

text \<open>The three sums of a cosine, and what it makes of them.\<close>

definition cosine_step :: "machine \<Rightarrow> float32 \<times> float32 \<times> float32 \<Rightarrow> float32 \<Rightarrow> float32 \<Rightarrow> float32 \<times> float32 \<times> float32" where
  "cosine_step M s x y = (case s of (dot, sumA, sumB) \<Rightarrow> (dot_step M dot x y, dot_step M sumA x x, dot_step M sumB y y))"

definition cosine_finish :: "float32 \<times> float32 \<times> float32 \<Rightarrow> float32 result" where
  "cosine_finish s =
     (case s of (dot, sumA, sumB) \<Rightarrow>
        if feq sumA f32_0 \<or> feq sumB f32_0 then Inl ErrZeroVector
        else
          let denom = f32_of_f64 (fmul64 (math_Sqrt (f64_of_f32 sumA)) (math_Sqrt (f64_of_f32 sumB)));
              sim = fdiv dot denom;
              sim = (if flt f32_1 sim then f32_1 else if flt sim f32_m1 then f32_m1 else sim)
          in Inr (fsub f32_1 sim))"

definition index_panic :: gerr where "index_panic = Panic ''index out of range''"

definition of_kernel :: "'a option \<Rightarrow> 'a result" where
  "of_kernel r = (case r of None \<Rightarrow> Inl index_panic | Some x \<Rightarrow> Inr x)"

definition cosinePure :: "machine \<Rightarrow> float32 list \<Rightarrow> float32 list \<Rightarrow> float32 result" where
  "cosinePure M a b =
     (case fold_pairs (cosine_step M) (f32_0, f32_0, f32_0) a b of
        None \<Rightarrow> Inl index_panic
      | Some s \<Rightarrow> cosine_finish s)"

definition normalizeInPlacePure :: "machine \<Rightarrow> float32 list \<Rightarrow> gerr option \<times> float32 list" where
  "normalizeInPlacePure M v =
     (let s = foldl (\<lambda>s x. fmac (m_fuse M) s x x) f32_0 v
      in if feq s f32_0 then (Some ErrZeroVector, v)
         else
           let norm = f32_of_f64 (math_Sqrt (f64_of_f32 s)); invNorm = fdiv f32_1 norm
           in (None, map (\<lambda>x. fmul x invNorm) v))"

subsection \<open>Lanes\<close>

definition vadd :: "lanes \<Rightarrow> lanes \<Rightarrow> lanes" where "vadd x y = map2 fadd x y"
definition vsub :: "lanes \<Rightarrow> lanes \<Rightarrow> lanes" where "vsub x y = map2 fsub x y"
definition vmul :: "lanes \<Rightarrow> lanes \<Rightarrow> lanes" where "vmul x y = map2 fmul x y"

text \<open>\<open>x.MulAdd(y, z)\<close>.\<close>

definition vfma :: "lanes \<Rightarrow> lanes \<Rightarrow> lanes \<Rightarrow> lanes" where
  "vfma x y z = map2 (\<lambda>(a, b) c. ffma a b c) (zip x y) z"

definition vzero :: "nat \<Rightarrow> lanes" where "vzero n = replicate n f32_0"

definition l2_lanes :: "lanes \<Rightarrow> lanes \<Rightarrow> lanes \<Rightarrow> lanes" where
  "l2_lanes x y acc = (let d = vsub x y in vfma d d acc)"

definition dot_lanes :: "lanes \<Rightarrow> lanes \<Rightarrow> lanes \<Rightarrow> lanes" where
  "dot_lanes x y acc = vfma x y acc"

subsection \<open>The portable versions\<close>

text \<open>\<open>for i := 0; i < chunks; i += vl\<close>: whole vectors from the front, then the rest.\<close>

fun portable_loop :: "(lanes \<Rightarrow> lanes \<Rightarrow> 'c \<Rightarrow> 'c) \<Rightarrow> nat \<Rightarrow> nat \<Rightarrow> float32 list \<Rightarrow> float32 list \<Rightarrow> 'c \<Rightarrow> 'c option" where
  "portable_loop f vl 0 a b acc = Some acc"
| "portable_loop f vl (Suc n) a b acc =
     (if length b < vl then None
      else portable_loop f vl n (drop vl a) (drop vl b) (f (take vl a) (take vl b) acc))"

definition add_lanes :: "lanes \<Rightarrow> float32" where
  "add_lanes buf = foldl fadd f32_0 buf"

definition portable :: "(lanes \<Rightarrow> lanes \<Rightarrow> lanes \<Rightarrow> lanes) \<Rightarrow> (float32 \<Rightarrow> float32 \<Rightarrow> float32 \<Rightarrow> float32) \<Rightarrow> nat \<Rightarrow> kernel" where
  "portable f g vl a b =
     (let n = length a div vl
      in case portable_loop f vl n a b (vzero vl) of
           None \<Rightarrow> None
         | Some acc \<Rightarrow> fold_pairs g (add_lanes acc) (drop (n * vl) a) (drop (n * vl) b))"

definition l2SquaredPortable :: "machine \<Rightarrow> kernel" where
  "l2SquaredPortable M = portable l2_lanes (l2_step M) (m_lanes M)"

definition dotProductPortable :: "machine \<Rightarrow> kernel" where
  "dotProductPortable M = portable dot_lanes (dot_step M) (m_lanes M)"

definition cosine_lanes :: "lanes \<Rightarrow> lanes \<Rightarrow> lanes \<times> lanes \<times> lanes \<Rightarrow> lanes \<times> lanes \<times> lanes" where
  "cosine_lanes x y s = (case s of (d, sa, sb) \<Rightarrow> (vfma x y d, vfma x x sa, vfma y y sb))"

definition cosinePortable :: "machine \<Rightarrow> float32 list \<Rightarrow> float32 list \<Rightarrow> float32 result" where
  "cosinePortable M a b =
     (let vl = m_lanes M; n = length a div vl; z = vzero vl
      in case portable_loop cosine_lanes vl n a b (z, z, z) of
           None \<Rightarrow> Inl index_panic
         | Some (d, sa, sb) \<Rightarrow>
             (case fold_pairs (cosine_step M) (add_lanes d, add_lanes sa, add_lanes sb) (drop (n * vl) a) (drop (n * vl) b) of
                None \<Rightarrow> Inl index_panic
              | Some s \<Rightarrow> cosine_finish s))"

definition normalizeInPlacePortable :: "machine \<Rightarrow> float32 list \<Rightarrow> gerr option \<times> float32 list" where
  "normalizeInPlacePortable M v =
     (case dotProductPortable M v v of
        None \<Rightarrow> (Some index_panic, v)
      | Some s \<Rightarrow>
          if feq s f32_0 then (Some ErrZeroVector, v)
          else
            let norm = f32_of_f64 (math_Sqrt (f64_of_f32 s)); invNorm = fdiv f32_1 norm; vl = m_lanes M;
                chunks = length v - length v mod vl; vInv = replicate vl invNorm
            in (None, concat (map (\<lambda>i. vmul (take vl (drop (i * vl) v)) vInv) [0..<length v div vl])
                   @ map (\<lambda>x. fmul x invNorm) (drop chunks v)))"

subsection \<open>AVX-512\<close>

text \<open>The loops of the AVX-512 versions. Each consumes \<open>w\<close> blocks of 16 from both vectors per turn, into the first \<open>w\<close>
  accumulators, while both have that many.\<close>

definition blocks16 :: "nat \<Rightarrow> float32 list \<Rightarrow> lanes list" where
  "blocks16 w a = map (\<lambda>i. take 16 (drop (16 * i) a)) [0..<w]"

definition avx_step :: "(lanes \<Rightarrow> lanes \<Rightarrow> 'c \<Rightarrow> 'c) \<Rightarrow> nat \<Rightarrow> float32 list \<Rightarrow> float32 list \<Rightarrow> 'c list \<Rightarrow> 'c list" where
  "avx_step f w a b accs = map2 (\<lambda>(x, y) acc. f x y acc) (zip (blocks16 w a) (blocks16 w b)) (take w accs) @ drop w accs"

function avx_loop ::
    "(lanes \<Rightarrow> lanes \<Rightarrow> 'c \<Rightarrow> 'c) \<Rightarrow> nat \<Rightarrow> float32 list \<Rightarrow> float32 list \<Rightarrow> 'c list \<Rightarrow> float32 list \<times> float32 list \<times> 'c list" where
  "avx_loop f w a b accs =
     (if 0 < w \<and> length a \<ge> 16 * w \<and> length b \<ge> 16 * w
      then avx_loop f w (drop (16 * w) a) (drop (16 * w) b) (avx_step f w a b accs)
      else (a, b, accs))"
  by pat_completeness auto
termination
  by (relation "measure (\<lambda>(f, w, a, b, accs). length a)") auto

declare avx_loop.simps [simp del]

text \<open>\<open>LoadFloat32x16Part\<close>: what there is, then zeroes.\<close>

definition load_part :: "float32 list \<Rightarrow> lanes" where
  "load_part a = take 16 (a @ vzero 16)"

definition sumLanes :: "lanes \<Rightarrow> lanes" where
  "sumLanes v = (let h = vadd (take 8 v) (drop 8 v) in vadd (take 4 h) (drop 4 h))"

definition ConcatAddPairs :: "lanes \<Rightarrow> lanes \<Rightarrow> lanes" where
  "ConcatAddPairs x y = [fadd (x ! 0) (x ! 1), fadd (x ! 2) (x ! 3), fadd (y ! 0) (y ! 1), fadd (y ! 2) (y ! 3)]"

definition tree8 :: "lanes list \<Rightarrow> lanes" where
  "tree8 accs = vadd (vadd (vadd (accs ! 0) (accs ! 1)) (vadd (accs ! 2) (accs ! 3)))
     (vadd (vadd (accs ! 4) (accs ! 5)) (vadd (accs ! 6) (accs ! 7)))"

text \<open>Eight accumulators, a tail into the second, and the sum of all of them as a tree.\<close>

definition avx512 :: "(lanes \<Rightarrow> lanes \<Rightarrow> lanes \<Rightarrow> lanes) \<Rightarrow> kernel" where
  "avx512 f a b0 =
     (if length b0 < length a then None
      else
        let b = take (length a) b0;
            (a, b, accs) = avx_loop f 8 a b (replicate 8 (vzero 16));
            (a, b, accs) = avx_loop f 4 a b accs;
            (a, b, accs) = avx_loop f 1 a b accs;
            accs = (if a = [] then accs else accs[1 := f (load_part a) (load_part b) (accs ! 1)]);
            s = sumLanes (tree8 accs)
        in Some (ConcatAddPairs (ConcatAddPairs s s) s ! 0))"

definition l2SquaredAVX512 :: kernel where "l2SquaredAVX512 = avx512 l2_lanes"
definition dotProductAVX512 :: kernel where "dotProductAVX512 = avx512 dot_lanes"

text \<open>The cosine keeps two triples of accumulators; a turn of its first loop takes four blocks, alternating between them.\<close>

function cosine_loop64 ::
    "float32 list \<Rightarrow> float32 list \<Rightarrow> lanes \<times> lanes \<times> lanes \<Rightarrow> lanes \<times> lanes \<times> lanes
      \<Rightarrow> float32 list \<times> float32 list \<times> (lanes \<times> lanes \<times> lanes) \<times> (lanes \<times> lanes \<times> lanes)" where
  "cosine_loop64 a b s0 s1 =
     (if length a \<ge> 64 \<and> length b \<ge> 64
      then
        let va = blocks16 4 a; vb = blocks16 4 b;
            s0 = cosine_lanes (va ! 0) (vb ! 0) s0;
            s1 = cosine_lanes (va ! 1) (vb ! 1) s1;
            s0 = cosine_lanes (va ! 2) (vb ! 2) s0;
            s1 = cosine_lanes (va ! 3) (vb ! 3) s1
        in cosine_loop64 (drop 64 a) (drop 64 b) s0 s1
      else (a, b, s0, s1))"
  by pat_completeness auto
termination
  by (relation "measure (\<lambda>(a, b, s0, s1). length a)") auto

declare cosine_loop64.simps [simp del]

definition cosineAVX512 :: "float32 list \<Rightarrow> float32 list \<Rightarrow> float32 result" where
  "cosineAVX512 a b0 =
     (if length b0 < length a then Inl index_panic
      else
        let b = take (length a) b0; z = vzero 16;
            (a, b, s0, s1) = cosine_loop64 a b (z, z, z) (z, z, z);
            (a, b, ss) = avx_loop cosine_lanes 1 a b [s0];
            (dot0, sa0, sb0) = ss ! 0;
            (dot1, sa1, sb1) = (if a = [] then s1 else cosine_lanes (load_part a) (load_part b) s1);
            d = sumLanes (vadd dot0 dot1); sa = sumLanes (vadd sa0 sa1); sb = sumLanes (vadd sb0 sb1);
            out = ConcatAddPairs (ConcatAddPairs d sa) (ConcatAddPairs sb sb)
        in cosine_finish (out ! 0, out ! 1, out ! 2))"

definition normalizeInPlaceAVX512 :: "float32 list \<Rightarrow> gerr option \<times> float32 list" where
  "normalizeInPlaceAVX512 v =
     (case dotProductAVX512 v v of
        None \<Rightarrow> (Some index_panic, v)
      | Some s \<Rightarrow>
          if feq s f32_0 then (Some ErrZeroVector, v)
          else
            let norm = f32_of_f64 (math_Sqrt (f64_of_f32 s)); inv = replicate 16 (fdiv f32_1 norm); n = length v div 16;
                tail = drop (16 * n) v
            in (None, concat (map (\<lambda>i. vmul (take 16 (drop (16 * i) v)) inv) [0..<n])
                   @ take (length tail) (vmul (load_part tail) inv)))"

subsection \<open>Half precision\<close>

text \<open>The assembly: \<open>VCVTPH2PS\<close> converts 16 numbers, as \<open>fp16ToFloat32\<close> does but for a signalling NaN, which it makes quiet; a loop over eight blocks with eight accumulators, a loop over single blocks
  into the first, and the same tree of sums.\<close>

definition VCVTPH2PS :: "u16 \<Rightarrow> float32" where
  "VCVTPH2PS h = (let x = fp16ToFloat32 h in if val32 x = NaN then x OR 0x400000 else x)"

definition cvt16 :: "u16 list \<Rightarrow> lanes" where "cvt16 h = map VCVTPH2PS h"

definition dot16_lanes :: "lanes \<Rightarrow> lanes \<Rightarrow> lanes \<Rightarrow> lanes" where
  "dot16_lanes x h acc = vfma x h acc"

definition l216_lanes :: "lanes \<Rightarrow> lanes \<Rightarrow> lanes \<Rightarrow> lanes" where
  "l216_lanes x h acc = (let d = vsub h x in vfma d d acc)"

definition fp16_blocks :: "(lanes \<Rightarrow> lanes \<Rightarrow> lanes \<Rightarrow> lanes) \<Rightarrow> float32 list \<Rightarrow> u16 list \<Rightarrow> float32" where
  "fp16_blocks f q row =
     (let b = cvt16 row;
          (q, b, accs) = avx_loop f 8 q b (replicate 8 (vzero 16));
          (q, b, accs) = avx_loop f 1 q b accs;
          x0 = sumLanes (tree8 accs); x0 = ConcatAddPairs x0 x0; x0 = ConcatAddPairs x0 x0
      in x0 ! 0)"

definition dotFP16Blocks :: "float32 list \<Rightarrow> u16 list \<Rightarrow> float32" where "dotFP16Blocks = fp16_blocks dot16_lanes"
definition l2FP16Blocks :: "float32 list \<Rightarrow> u16 list \<Rightarrow> float32" where "l2FP16Blocks = fp16_blocks l216_lanes"

definition fp16_kernel ::
    "(float32 list \<Rightarrow> u16 list \<Rightarrow> float32) \<Rightarrow> (float32 \<Rightarrow> float32 \<Rightarrow> float32 \<Rightarrow> float32) \<Rightarrow> kernel16" where
  "fp16_kernel blocks step q row0 =
     (if length row0 < length q then None
      else
        let row = take (length q) row0; n = length q div 16 * 16;
            s = (if n > 0 then blocks (take n q) (take n row) else f32_0)
        in fold_pairs (\<lambda>s x h. step s x (fp16ToFloat32 h)) s (drop n q) (drop n row))"

definition dotFP16AVX512 :: "machine \<Rightarrow> kernel16" where "dotFP16AVX512 M = fp16_kernel dotFP16Blocks (dot_step M)"
definition l2FP16AVX512 :: "machine \<Rightarrow> kernel16" where "l2FP16AVX512 M = fp16_kernel l2FP16Blocks (l2_step M)"

text \<open>\<open>decodeFP16AVX512\<close> writes the front of \<open>dst\<close>: blocks by the assembly, then the rest.\<close>

definition cvtFP16Blocks :: "u16 list \<Rightarrow> nat \<Rightarrow> float32 list" where
  "cvtFP16Blocks src blocks = concat (map (\<lambda>i. cvt16 (take 16 (drop (16 * i) src))) [0..<blocks])"

definition decodeFP16AVX512 :: "float32 list \<Rightarrow> u16 list \<Rightarrow> float32 list option" where
  "decodeFP16AVX512 dst src =
     (if src = [] then Some dst
      else if length dst < length src then None
      else
        let blocks = length src div 16
        in Some (cvtFP16Blocks src blocks @ map fp16ToFloat32 (drop (blocks * 16) src) @ drop (length src) dst))"

subsection \<open>Variants\<close>

record Kernels =
  k_Name :: string
  k_Dot :: "kernel option"
  k_L2 :: "kernel option"
  k_Dot16 :: "kernel16 option"
  k_L216 :: "kernel16 option"
  k_Decode16 :: "(float32 list \<Rightarrow> u16 list \<Rightarrow> float32 list option) option"

definition no_kernels :: Kernels where
  "no_kernels = \<lparr>k_Name = [], k_Dot = None, k_L2 = None, k_Dot16 = None, k_L216 = None, k_Decode16 = None\<rparr>"

definition simdKernels :: "machine \<Rightarrow> Kernels" where
  "simdKernels M =
     (if m_avx512 M
      then no_kernels\<lparr>k_Name := ''avx512'', k_Dot := Some dotProductAVX512, k_L2 := Some l2SquaredAVX512\<rparr>
      else no_kernels\<lparr>k_Name := ''portable'', k_Dot := Some (dotProductPortable M), k_L2 := Some (l2SquaredPortable M)\<rparr>)"

definition fp16Kernels :: "machine \<Rightarrow> Kernels" where
  "fp16Kernels M = no_kernels\<lparr>k_Name := ''avx512'', k_Dot16 := Some (dotFP16AVX512 M), k_L216 := Some (l2FP16AVX512 M),
     k_Decode16 := Some decodeFP16AVX512\<rparr>"

text \<open>A \<open>Variant\<close> is an \<open>int\<close>.\<close>

type_synonym Variant = int

definition Pure :: Variant where "Pure = 0"
definition SIMD :: Variant where "SIMD = 1"
definition FP16 :: Variant where "FP16 = 2"

definition variantNames :: "string list" where "variantNames = [''pure'', ''simd'', ''fp16'']"

definition Variants :: "Variant list" where "Variants = map int [0..<length variantNames]"

definition Variant_String :: "Variant \<Rightarrow> string" where
  "Variant_String v =
     (if v < 0 \<or> v \<ge> int (length variantNames)
      then ''variant('' @ (if v < 0 then CHR ''-'' # dec_of_nat (nat (- v)) else dec_of_nat (nat v)) @ '')''
      else variantNames ! nat v)"

fun parse_loop :: "string \<Rightarrow> nat \<Rightarrow> string list \<Rightarrow> Variant option" where
  "parse_loop s i [] = None"
| "parse_loop s i (name # names) = (if name = s then Some (int i) else parse_loop s (i + 1) names)"

definition ParseVariant :: "string \<Rightarrow> Variant result" where
  "ParseVariant s =
     (case parse_loop s 0 variantNames of Some v \<Rightarrow> Inr v | None \<Rightarrow> Inl (ErrMsg (''vector: unknown variant '' @ s)))"

definition Variant_Kernels :: "machine \<Rightarrow> Variant \<Rightarrow> Kernels result" where
  "Variant_Kernels M v =
     (if v = Pure
      then Inr (no_kernels\<lparr>k_Name := ''pure'', k_Dot := Some (dotProductPure M), k_L2 := Some (l2SquaredPure M)\<rparr>)
      else if v = SIMD then Inr (simdKernels M)
      else if v = FP16
      then
        if \<not> m_avx512 M then Inl (ErrMsg (''vector: variant '' @ Variant_String v @ '' requires AVX-512''))
        else Inr (fp16Kernels M)
      else Inl (ErrMsg (''vector: unknown variant '' @ Variant_String v)))"

subsection \<open>The functions of the package\<close>

definition l2Squared :: "machine \<Rightarrow> kernel" where
  "l2Squared M a b = (if m_avx512 M then l2SquaredAVX512 a b else l2SquaredPortable M a b)"

definition dotProduct :: "machine \<Rightarrow> kernel" where
  "dotProduct M a b = (if m_avx512 M then dotProductAVX512 a b else dotProductPortable M a b)"

definition cosine :: "machine \<Rightarrow> float32 list \<Rightarrow> float32 list \<Rightarrow> float32 result" where
  "cosine M a b = (if m_avx512 M then cosineAVX512 a b else cosinePortable M a b)"

definition normalizeInPlace :: "machine \<Rightarrow> float32 list \<Rightarrow> gerr option \<times> float32 list" where
  "normalizeInPlace M v = (if m_avx512 M then normalizeInPlaceAVX512 v else normalizeInPlacePortable M v)"

definition Cosine :: "machine \<Rightarrow> float32 list \<Rightarrow> float32 list \<Rightarrow> float32 result" where
  "Cosine M a b = (if length a \<noteq> length b then Inl ErrDimensionMismatch else cosine M a b)"

definition L2Squared :: "machine \<Rightarrow> float32 list \<Rightarrow> float32 list \<Rightarrow> float32 result" where
  "L2Squared M a b = (if length a \<noteq> length b then Inl ErrDimensionMismatch else of_kernel (l2Squared M a b))"

definition DotProduct :: "machine \<Rightarrow> float32 list \<Rightarrow> float32 list \<Rightarrow> float32 result" where
  "DotProduct M a b = (if length a \<noteq> length b then Inl ErrDimensionMismatch else of_kernel (dotProduct M a b))"

definition NormalizeInPlace :: "machine \<Rightarrow> float32 list \<Rightarrow> gerr option \<times> float32 list" where
  "NormalizeInPlace M v = normalizeInPlace M v"

definition Normalize :: "machine \<Rightarrow> float32 list \<Rightarrow> float32 list result" where
  "Normalize M v = (case NormalizeInPlace M v of (Some err, _) \<Rightarrow> Inl err | (None, v') \<Rightarrow> Inr v')"

end
