(* ===== verification/Topk.thy ===== *)
theory Topk
  imports Main "HOL-Library.Multiset"
begin

text \<open>
  The bounded heap of a search (\<open>hitHeap\<close> of \<open>src/query/table.go\<close>) over \<open>container/heap\<close> and \<open>slices.SortFunc\<close> of the standard
  library. The heap keeps the worst hit at the root, so that a better one replaces it. The locale \<open>comparator\<close> is what the
  comparison functions promise: a total preorder. Inside it: the heap operations keep the heap in order and only permute
  its elements, and the scan keeps the best \<open>k\<close> candidates it has seen.
\<close>

subsection \<open>container/heap\<close>

definition swap :: "'a list \<Rightarrow> nat \<Rightarrow> nat \<Rightarrow> 'a list" where
  "swap h i j = h[i := h ! j, j := h ! i]"

text \<open>\<open>hitHeap.Less\<close> is \<open>cmp > 0\<close>.\<close>

definition heap_Less :: "('a \<Rightarrow> 'a \<Rightarrow> int) \<Rightarrow> 'a list \<Rightarrow> nat \<Rightarrow> nat \<Rightarrow> bool" where
  "heap_Less cmp h i j \<longleftrightarrow> cmp (h ! i) (h ! j) > 0"

function heap_up :: "('a \<Rightarrow> 'a \<Rightarrow> int) \<Rightarrow> 'a list \<Rightarrow> nat \<Rightarrow> 'a list" where
  "heap_up cmp h j =
     (let i = (j - 1) div 2
      in if i = j \<or> \<not> heap_Less cmp h j i then h else heap_up cmp (swap h i j) i)"
  by pat_completeness auto
termination
  by (relation "measure (\<lambda>(cmp, h, j). j)") auto

declare heap_up.simps [simp del]

text \<open>The heap after sinking, and where the element ended.\<close>

function heap_sink :: "('a \<Rightarrow> 'a \<Rightarrow> int) \<Rightarrow> 'a list \<Rightarrow> nat \<Rightarrow> 'a list \<times> nat" where
  "heap_sink cmp h i =
     (let n = length h; j1 = 2 * i + 1
      in if j1 \<ge> n then (h, i)
         else
           let j2 = j1 + 1; j = (if j2 < n \<and> heap_Less cmp h j2 j1 then j2 else j1)
           in if \<not> heap_Less cmp h j i then (h, i) else heap_sink cmp (swap h i j) j)"
  by pat_completeness auto
termination
  by (relation "measure (\<lambda>(cmp, h, i). length h - i)") (auto simp: swap_def split: if_splits)

declare heap_sink.simps [simp del]

definition heap_down :: "('a \<Rightarrow> 'a \<Rightarrow> int) \<Rightarrow> 'a list \<Rightarrow> nat \<Rightarrow> 'a list \<times> bool" where
  "heap_down cmp h i0 = (case heap_sink cmp h i0 of (h', i) \<Rightarrow> (h', i > i0))"

definition heap_Push :: "('a \<Rightarrow> 'a \<Rightarrow> int) \<Rightarrow> 'a list \<Rightarrow> 'a \<Rightarrow> 'a list" where
  "heap_Push cmp h x = (let h' = h @ [x] in heap_up cmp h' (length h' - 1))"

definition heap_Fix :: "('a \<Rightarrow> 'a \<Rightarrow> int) \<Rightarrow> 'a list \<Rightarrow> nat \<Rightarrow> 'a list" where
  "heap_Fix cmp h i = (case heap_down cmp h i of (h', moved) \<Rightarrow> if \<not> moved then heap_up cmp h' i else h')"

subsection \<open>slices.SortFunc\<close>

text \<open>Sorting by a comparison function. The library's order among elements that compare as equal is unspecified; here it is
  their order in the list.\<close>

fun insert_by :: "('a \<Rightarrow> 'a \<Rightarrow> int) \<Rightarrow> 'a \<Rightarrow> 'a list \<Rightarrow> 'a list" where
  "insert_by cmp x [] = [x]"
| "insert_by cmp x (y # ys) = (if cmp x y \<le> 0 then x # y # ys else y # insert_by cmp x ys)"

definition SortFunc :: "('a \<Rightarrow> 'a \<Rightarrow> int) \<Rightarrow> 'a list \<Rightarrow> 'a list" where
  "SortFunc cmp xs = foldr (insert_by cmp) xs []"

lemma mset_insert_by [simp]: "mset (insert_by cmp x ys) = add_mset x (mset ys)"
  by (induction ys) auto

lemma mset_SortFunc [simp]: "mset (SortFunc cmp xs) = mset xs"
  unfolding SortFunc_def by (induction xs) auto

subsection \<open>The scan\<close>

text \<open>
  What the loop of \<open>Search\<close> does with a candidate: a full heap passes over one whose score alone is worse than that of the root
  (\<open>worse\<close>); otherwise the candidate is pushed, or takes the place of the root if it is better.
\<close>

definition offer :: "('a \<Rightarrow> 'a \<Rightarrow> int) \<Rightarrow> ('a \<Rightarrow> 'a \<Rightarrow> bool) \<Rightarrow> nat \<Rightarrow> 'a list \<Rightarrow> 'a \<Rightarrow> 'a list" where
  "offer cmp worse topK h cand =
     (if length h = topK \<and> worse cand (h ! 0) then h
      else if length h < topK then heap_Push cmp h cand
      else if cmp cand (h ! 0) < 0 then heap_Fix cmp (h[0 := cand]) 0
      else h)"

subsection \<open>Swapping\<close>

lemma length_swap [simp]: "length (swap h i j) = length h"
  by (simp add: swap_def)

lemma mset_swap: "i < length h \<Longrightarrow> j < length h \<Longrightarrow> mset (swap h i j) = mset h"
  by (simp add: swap_def Multiset.mset_swap)

lemma nth_swap: "i < length h \<Longrightarrow> j < length h \<Longrightarrow> k < length h \<Longrightarrow> swap h i j ! k = (if k = j then h ! i else if k = i then h ! j else h ! k)"
  by (simp add: swap_def nth_list_update)

lemma heap_up_mset: "j < length h \<Longrightarrow> mset (heap_up cmp h j) = mset h"
proof (induction cmp h j rule: heap_up.induct)
  case (1 cmp h j)
  then show ?case by (subst heap_up.simps) (auto simp: Let_def mset_swap)
qed

lemma heap_sink_mset: "i < length h \<Longrightarrow> mset (fst (heap_sink cmp h i)) = mset h"
proof (induction cmp h i rule: heap_sink.induct)
  case (1 cmp h i)
  let ?j = "if 2 * i + 2 < length h \<and> heap_Less cmp h (2 * i + 2) (2 * i + 1) then 2 * i + 2 else 2 * i + 1"
  show ?case
  proof (cases "2 * i + 1 \<ge> length h \<or> \<not> heap_Less cmp h ?j i")
    case True
    then show ?thesis by (subst heap_sink.simps) (auto simp: Let_def)
  next
    case False
    then have "heap_sink cmp h i = heap_sink cmp (swap h i ?j) ?j" by (subst heap_sink.simps) (auto simp: Let_def)
    moreover have "mset (fst (heap_sink cmp (swap h i ?j) ?j)) = mset (swap h i ?j)"
      by (rule "1.IH" [OF refl refl _ refl]) (use False in auto)
    ultimately show ?thesis using False "1.prems" by (simp add: mset_swap)
  qed
qed

abbreviation parent :: "nat \<Rightarrow> nat" where "parent j \<equiv> (j - 1) div 2"

locale comparator =
  fixes cmp :: "'a \<Rightarrow> 'a \<Rightarrow> int"
  assumes cmp_sym: "cmp x y < 0 \<longleftrightarrow> 0 < cmp y x"
    and cmp_trans: "cmp x y \<le> 0 \<Longrightarrow> cmp y z \<le> 0 \<Longrightarrow> cmp x z \<le> 0"
begin

lemma cmp_total: "\<not> cmp x y \<le> 0 \<Longrightarrow> cmp y x \<le> 0"
  using cmp_sym [of y x] by linarith

lemma cmp_refl: "cmp x x \<le> 0"
  using cmp_total by blast

definition heap_ok :: "'a list \<Rightarrow> bool" where
  "heap_ok h \<longleftrightarrow> (\<forall>k < length h. 0 < k \<longrightarrow> cmp (h ! k) (h ! parent k) \<le> 0)"

text \<open>The root is a worst element.\<close>

lemma heap_root:
  assumes "heap_ok h"
  shows "k < length h \<Longrightarrow> cmp (h ! k) (h ! 0) \<le> 0"
proof (induction k rule: less_induct)
  case (less k)
  show ?case
  proof (cases "k = 0")
    case True
    then show ?thesis by (simp add: cmp_refl)
  next
    case False
    then have p: "parent k < k" by auto
    with less have "cmp (h ! parent k) (h ! 0) \<le> 0" by simp
    moreover have "cmp (h ! k) (h ! parent k) \<le> 0" using assms less.prems False by (simp add: heap_ok_def)
    ultimately show ?thesis using cmp_trans by blast
  qed
qed

text \<open>A heap in order except that the element at \<open>j\<close> may be worse than its parent.\<close>

definition up_ok :: "'a list \<Rightarrow> nat \<Rightarrow> bool" where
  "up_ok h j \<longleftrightarrow> j < length h \<and> (\<forall>k < length h. 0 < k \<longrightarrow> k \<noteq> j \<longrightarrow> cmp (h ! k) (h ! parent k) \<le> 0)
     \<and> (\<forall>k < length h. 0 < k \<longrightarrow> 0 < j \<longrightarrow> parent k = j \<longrightarrow> cmp (h ! k) (h ! parent j) \<le> 0)"

lemma up_ok_step:
  assumes "up_ok h j" and "0 < j" and "cmp (h ! j) (h ! i) > 0" and p: "parent j = i"
  shows "up_ok (swap h i j) i"
proof -
  let ?h = "swap h i j"
  have j: "j < length h" "i < j" "i < length h" using assms(1,2,4) by (auto simp: up_ok_def)
  have ok: "cmp (h ! k) (h ! parent k) \<le> 0" if "k < length h" "0 < k" "k \<noteq> j" for k using assms(1) that by (simp add: up_ok_def)
  have gp: "cmp (h ! k) (h ! i) \<le> 0" if "k < length h" "0 < k" "parent k = j" for k using assms(1,2) that p by (simp add: up_ok_def)
  have ij: "cmp (h ! i) (h ! j) \<le> 0" using assms(3) cmp_total [of "h ! j" "h ! i"] by simp
  note n = nth_swap [OF j(3,1)]
  have "cmp (?h ! k) (?h ! parent k) \<le> 0" if k: "k < length h" "0 < k" "k \<noteq> i" for k
  proof -
    have pk: "parent k < length h" "parent k < k" using k by auto
    consider "k = j" | "k \<noteq> j" "parent k = i" | "k \<noteq> j" "parent k = j" | "k \<noteq> j" "parent k \<noteq> i" "parent k \<noteq> j" by blast
    then show ?thesis
    proof cases
      case 1
      show ?thesis unfolding 1 p n [OF j(1)] n [OF j(3)] using ij j(2) by simp
    next
      case 2
      have "cmp (h ! k) (h ! j) \<le> 0" using ok [OF k(1,2) 2(1)] ij cmp_trans 2(2) by metis
      then show ?thesis using 2 k pk j by (simp add: n)
    next
      case 3
      then show ?thesis using gp [OF k(1,2)] k pk j by (simp add: n)
    next
      case 4
      then show ?thesis using ok [OF k(1,2)] k pk by (simp add: n)
    qed
  qed
  moreover have "cmp (?h ! k) (?h ! parent i) \<le> 0" if k: "k < length h" "0 < k" "0 < i" "parent k = i" for k
  proof -
    have pi: "parent i < length h" "parent i < i" using k j by auto
    have i: "cmp (h ! i) (h ! parent i) \<le> 0" using ok [of i] j k(3) by auto
    show ?thesis
    proof (cases "k = j")
      case True
      then show ?thesis using i pi j by (simp add: n)
    next
      case False
      have ki: "k \<noteq> i" using k(2,4) by auto
      have "cmp (h ! k) (h ! i) \<le> 0" using ok [OF k(1,2) False] k(4) by simp
      with i have "cmp (h ! k) (h ! parent i) \<le> 0" using cmp_trans by blast
      then show ?thesis using False ki pi j k by (simp add: n)
    qed
  qed
  ultimately show ?thesis using j by (auto simp: up_ok_def)
qed

lemma heap_up_ok: "up_ok h j \<Longrightarrow> heap_ok (heap_up cmp h j)"
proof (induction j arbitrary: h rule: less_induct)
  case (less j)
  show ?case
  proof (cases "j = 0 \<or> \<not> heap_Less cmp h j (parent j)")
    case True
    then have "heap_up cmp h j = h" by (subst heap_up.simps) (auto simp: Let_def)
    moreover have "heap_ok h" using True less.prems by (auto simp: heap_ok_def up_ok_def heap_Less_def)
    ultimately show ?thesis by simp
  next
    case False
    then have "heap_up cmp h j = heap_up cmp (swap h (parent j) j) (parent j)" by (subst heap_up.simps) (auto simp: Let_def)
    moreover have "heap_ok (heap_up cmp (swap h (parent j) j) (parent j))"
      by (rule less.IH) (use False up_ok_step [OF less.prems _ _ refl] in \<open>auto simp: heap_Less_def\<close>)
    ultimately show ?thesis by simp
  qed
qed

text \<open>A heap in order except that the element at \<open>i\<close> may be better than its children.\<close>

definition down_ok :: "'a list \<Rightarrow> nat \<Rightarrow> bool" where
  "down_ok h i \<longleftrightarrow> i < length h \<and> (\<forall>k < length h. 0 < k \<longrightarrow> parent k \<noteq> i \<longrightarrow> cmp (h ! k) (h ! parent k) \<le> 0)
     \<and> (\<forall>k < length h. 0 < k \<longrightarrow> 0 < i \<longrightarrow> parent k = i \<longrightarrow> cmp (h ! k) (h ! parent i) \<le> 0)"

lemma parent_iff: "0 < k \<Longrightarrow> parent k = i \<longleftrightarrow> k = 2 * i + 1 \<or> k = 2 * i + 2"
  by auto

lemma down_ok_step:
  assumes "down_ok h i" and "j < length h" and "0 < j" and "parent j = i" and "cmp (h ! j) (h ! i) > 0"
    and best: "\<And>k. k < length h \<Longrightarrow> 0 < k \<Longrightarrow> parent k = i \<Longrightarrow> cmp (h ! k) (h ! j) \<le> 0"
  shows "down_ok (swap h i j) j"
proof -
  let ?h = "swap h i j"
  have i: "i < length h" "i < j" using assms(1,3,4) by (auto simp: down_ok_def)
  have ok: "cmp (h ! k) (h ! parent k) \<le> 0" if "k < length h" "0 < k" "parent k \<noteq> i" for k using assms(1) that by (simp add: down_ok_def)
  have gp: "cmp (h ! k) (h ! parent i) \<le> 0" if "k < length h" "0 < k" "0 < i" "parent k = i" for k using assms(1) that by (simp add: down_ok_def)
  have ij: "cmp (h ! i) (h ! j) \<le> 0" using assms(5) cmp_total [of "h ! j" "h ! i"] by simp
  note n = nth_swap [OF i(1) assms(2)]
  have "cmp (?h ! k) (?h ! parent k) \<le> 0" if k: "k < length h" "0 < k" "parent k \<noteq> j" for k
  proof -
    have pk: "parent k < length h" "parent k < k" using k by auto
    consider "k = j" | "k \<noteq> j" "parent k = i" | "k = i" | "k \<noteq> j" "k \<noteq> i" "parent k \<noteq> i" by blast
    then show ?thesis
    proof cases
      case 1
      show ?thesis unfolding 1 assms(4) n [OF assms(2)] n [OF i(1)] using ij i(2) by simp
    next
      case 2
      then show ?thesis using best [OF k(1,2)] pk k i by (auto simp: n)
    next
      case 3
      then show ?thesis using gp [OF assms(2,3) _ assms(4)] pk k i by (auto simp: n)
    next
      case 4
      then show ?thesis using ok [OF k(1,2)] pk k by (simp add: n)
    qed
  qed
  moreover have "cmp (?h ! k) (?h ! parent j) \<le> 0" if k: "k < length h" "0 < k" "parent k = j" for k
  proof -
    have "k > j" using k(2,3) by auto
    then show ?thesis using ok [OF k(1,2)] k i assms(4) by (simp add: n)
  qed
  ultimately show ?thesis using assms(2) by (auto simp: down_ok_def)
qed

lemma heap_sink_ok: "down_ok h i \<Longrightarrow> heap_ok (fst (heap_sink cmp h i)) \<and> i \<le> snd (heap_sink cmp h i) \<and> (snd (heap_sink cmp h i) = i \<longrightarrow> fst (heap_sink cmp h i) = h)"
proof (induction "length h - i" arbitrary: h i rule: less_induct)
  case less
  define j where "j = (if 2 * i + 2 < length h \<and> heap_Less cmp h (2 * i + 2) (2 * i + 1) then 2 * i + 2 else 2 * i + 1)"
  have i: "i < length h" using less.prems by (simp add: down_ok_def)
  have eq: "heap_sink cmp h i = (if 2 * i + 1 \<ge> length h \<or> \<not> heap_Less cmp h j i then (h, i) else heap_sink cmp (swap h i j) j)"
    by (subst heap_sink.simps) (simp add: Let_def j_def)
  have best: "cmp (h ! k) (h ! j) \<le> 0" if "k < length h" "0 < k" "parent k = i" for k
    using that cmp_refl cmp_total [of "h ! (2 * i + 2)" "h ! (2 * i + 1)"] parent_iff [of k i]
    by (auto simp: j_def heap_Less_def)
  show ?case
  proof (cases "2 * i + 1 \<ge> length h \<or> \<not> heap_Less cmp h j i")
    case True
    have "cmp (h ! k) (h ! parent k) \<le> 0" if k: "k < length h" "0 < k" for k
    proof (cases "parent k = i")
      case True
      with k have "2 * i + 1 < length h" by auto
      with \<open>2 * i + 1 \<ge> length h \<or> _\<close> have "cmp (h ! j) (h ! i) \<le> 0" by (simp add: heap_Less_def)
      with best [OF k True] show ?thesis using cmp_trans True by metis
    next
      case False
      with less.prems k show ?thesis by (simp add: down_ok_def)
    qed
    with True eq show ?thesis by (simp add: heap_ok_def)
  next
    case False
    then have j: "j < length h" "0 < j" "parent j = i" "i < j" by (auto simp: j_def)
    have d: "down_ok (swap h i j) j" by (rule down_ok_step [OF less.prems j(1-3) _ best]) (use False in \<open>simp_all add: heap_Less_def\<close>)
    have "length (swap h i j) - j < length h - i" using j i by simp
    from less.hyps [OF this d] False eq j(4) show ?thesis by auto
  qed
qed

lemma heap_Push_ok:
  assumes "heap_ok h"
  shows "heap_ok (heap_Push cmp h x)" and "mset (heap_Push cmp h x) = add_mset x (mset h)"
proof -
  have "up_ok (h @ [x]) (length h)"
    using assms by (auto simp: up_ok_def heap_ok_def nth_append)
  from heap_up_ok [OF this] show "heap_ok (heap_Push cmp h x)" by (simp add: heap_Push_def)
  show "mset (heap_Push cmp h x) = add_mset x (mset h)" by (simp add: heap_Push_def heap_up_mset)
qed

lemma heap_Fix_ok:
  assumes "heap_ok h" and "h \<noteq> []"
  shows "heap_ok (heap_Fix cmp (h[0 := x]) 0)" and "mset (heap_Fix cmp (h[0 := x]) 0) = add_mset x (mset (tl h))"
proof -
  have d: "down_ok (h[0 := x]) 0" using assms by (auto simp: down_ok_def heap_ok_def nth_list_update)
  obtain h' i where s: "heap_sink cmp (h[0 := x]) 0 = (h', i)" by fastforce
  have up: "heap_up cmp g 0 = g" for g by (subst heap_up.simps) simp
  have "heap_Fix cmp (h[0 := x]) 0 = h'" by (simp add: heap_Fix_def heap_down_def s up)
  then show "heap_ok (heap_Fix cmp (h[0 := x]) 0)" "mset (heap_Fix cmp (h[0 := x]) 0) = add_mset x (mset (tl h))"
    using heap_sink_ok [OF d] heap_sink_mset [of 0 "h[0 := x]" cmp] s assms(2) by (auto simp: neq_Nil_conv)
qed

text \<open>\<open>best_of k cs h\<close>: a heap of the best \<open>k\<close> of the candidates \<open>cs\<close>, that is, no candidate outside is better than one inside.\<close>

definition best_of :: "nat \<Rightarrow> 'a multiset \<Rightarrow> 'a multiset \<Rightarrow> bool" where
  "best_of k cs h \<longleftrightarrow> h \<subseteq># cs \<and> size h = min k (size cs) \<and> (\<forall>x \<in># h. \<forall>y \<in># cs - h. cmp x y \<le> 0)"

lemma offer_best:
  assumes "heap_ok h" and "best_of k cs (mset h)" and "0 < k" and "\<And>x y. worse x y \<Longrightarrow> 0 < cmp x y"
  shows "heap_ok (offer cmp worse k h x) \<and> best_of k (add_mset x cs) (mset (offer cmp worse k h x))"
proof (cases "length h < k")
  case True
  have "size (mset h) < k" "mset h \<subseteq># cs" "size (mset h) = min k (size cs)" using True assms(2) by (simp_all add: best_of_def)
  then have "cs = mset h" by (metis min_less_iff_conj min.absorb4 not_less_iff_gr_or_eq mset_subset_size subset_mset.le_imp_less_or_eq)
  with True heap_Push_ok [OF assms(1), of x] show ?thesis by (simp add: offer_def best_of_def)
next
  case False
  from assms(2) False have len: "length h = k" "k \<le> size cs" "mset h \<subseteq># cs" by (auto simp: best_of_def)
  then have h: "h \<noteq> []" "0 < length h" using assms(3) by auto
  obtain r where r: "cs = mset h + r" using len(3) by (metis subset_mset.le_iff_add)
  have below: "cmp a b \<le> 0" if "a \<in> set h" "b \<in># r" for a b using assms(2) that by (simp add: best_of_def r)
  have root: "cmp a (h ! 0) \<le> 0" if "a \<in> set h" for a using heap_root [OF assms(1)] that by (metis in_set_conv_nth)
  show ?thesis
  proof (cases "cmp x (h ! 0) < 0")
    case True
    then have "\<not> worse x (h ! 0)" using assms(4) by fastforce
    with True False have o: "offer cmp worse k h x = heap_Fix cmp (h[0 := x]) 0" by (simp add: offer_def)
    note f = heap_Fix_ok [OF assms(1) h(1), of x]
    have hd: "mset h = add_mset (h ! 0) (mset (tl h))" using h by (cases h) auto
    have diff: "add_mset x cs - add_mset x (mset (tl h)) = add_mset (h ! 0) r" by (simp add: r hd)
    have "cmp a b \<le> 0" if "a \<in># add_mset x (mset (tl h))" "b \<in># add_mset (h ! 0) r" for a b
    proof -
      have a: "cmp a (h ! 0) \<le> 0" using that(1) root [of a] True h by (auto dest: list.set_sel(2))
      moreover have "cmp (h ! 0) b \<le> 0 \<or> b = h ! 0" using that(2) below [of "h ! 0" b] h by auto
      ultimately show ?thesis using cmp_trans by blast
    qed
    moreover have "add_mset x (mset (tl h)) \<subseteq># add_mset x cs" "size (add_mset x (mset (tl h))) = k"
      using r hd len h by (auto simp: subset_mset.le_iff_add)
    ultimately show ?thesis using f o len by (simp add: best_of_def diff)
  next
    case out: False
    then have o: "offer cmp worse k h x = h" using False by (simp add: offer_def)
    have "cmp a b \<le> 0" if "a \<in> set h" "b \<in># add_mset x r" for a b
    proof -
      have "cmp (h ! 0) x \<le> 0" using out cmp_sym [of x "h ! 0"] by linarith
      with that below [of a b] root [of a] show ?thesis using cmp_trans by auto
    qed
    moreover have "add_mset x cs - mset h = add_mset x r" by (simp add: r)
    ultimately show ?thesis using assms(1) o len by (simp add: best_of_def subset_mset.le_imp_less_or_eq r)
  qed
qed

lemma scan_best:
  assumes "0 < k" and "\<And>x y. worse x y \<Longrightarrow> 0 < cmp x y"
  shows "heap_ok (foldl (offer cmp worse k) [] xs) \<and> best_of k (mset xs) (mset (foldl (offer cmp worse k) [] xs))"
proof (induction xs rule: rev_induct)
  case Nil
  show ?case by (simp add: heap_ok_def best_of_def)
next
  case (snoc x xs)
  have "heap_ok (foldl (offer cmp worse k) [] xs)" "best_of k (mset xs) (mset (foldl (offer cmp worse k) [] xs))" using snoc by simp_all
  from offer_best [OF this assms(1), of worse x] assms(2) show ?case by simp
qed

lemma insert_by_sorted: "sorted_wrt (\<lambda>x y. cmp x y \<le> 0) ys \<Longrightarrow> sorted_wrt (\<lambda>x y. cmp x y \<le> 0) (insert_by cmp x ys)"
proof (induction ys)
  case (Cons y ys)
  have m: "set (insert_by cmp x zs) = insert x (set zs)" for zs by (metis mset_insert_by set_mset_add_mset_insert set_mset_mset)
  show ?case
  proof (cases "cmp x y \<le> 0")
    case True
    with Cons.prems show ?thesis by (auto intro: cmp_trans)
  next
    case False
    with Cons cmp_total [OF False] show ?thesis by (auto simp: m)
  qed
qed simp

lemma SortFunc_sorted: "sorted_wrt (\<lambda>x y. cmp x y \<le> 0) (SortFunc cmp xs)"
  unfolding SortFunc_def by (induction xs) (auto intro: insert_by_sorted)

end

end
