(* ===== verification/Table.thy ===== *)
theory Table
  imports Messages Vector_Kernels Topk
begin

text \<open>
  \<open>src/query/table.go\<close>: the table a branch is loaded into, one column per vector name and per attribute, one row per document.
  A deleted document keeps its row, marked by a tombstone, and takes it again when it comes back.

  The maps of the table are finite maps; a loop over all columns is \<open>fmtraverse\<close>, which fails when one column does. A run-time panic
  is \<open>None\<close> inside an operation and the error \<open>Panic\<close> outside. A \<open>range\<close> over the vectors of a document visits them in an
  unspecified order: \<open>Table_Upsert\<close> takes them as the list of pairs in the order of the visit. \<open>nil\<close> and an empty map behave
  alike, so the table's maps start empty. \<open>proto.Equal\<close> is the argument \<open>peq\<close>. Durations are left out of the results.
\<close>

abbreviation query_ErrDimensionMismatch :: gerr where "query_ErrDimensionMismatch \<equiv> Sentinel ''query.ErrDimensionMismatch''"

subsection \<open>Ranging over a map\<close>

definition fmtraverse :: "('k \<Rightarrow> 'a \<Rightarrow> 'b option) \<Rightarrow> ('k, 'a) fmap \<Rightarrow> ('k, 'b) fmap option" where
  "fmtraverse f m = (if fmpred (\<lambda>k v. f k v \<noteq> None) m then Some (fmmap_keys (\<lambda>k v. the (f k v)) m) else None)"

text \<open>\<open>xs[i] = v\<close>.\<close>

definition put_at :: "nat \<Rightarrow> 'a \<Rightarrow> 'a list \<Rightarrow> 'a list option" where
  "put_at i v xs = (if i < length xs then Some (xs[i := v]) else None)"

text \<open>\<open>copy(xs[off:off+n], src)\<close> and \<open>xs[off:off+n]\<close>.\<close>

definition copy_at :: "nat \<Rightarrow> nat \<Rightarrow> 'a list \<Rightarrow> 'a list \<Rightarrow> 'a list option" where
  "copy_at off n src xs =
     (if off + n \<le> length xs then let m = min n (length src) in Some (take off xs @ take m src @ drop (off + m) xs) else None)"

definition slice :: "nat \<Rightarrow> nat \<Rightarrow> 'a list \<Rightarrow> 'a list option" where
  "slice off n xs = (if off + n \<le> length xs then Some (take n (drop off xs)) else None)"

subsection \<open>The table\<close>

record flatVectorCol =
  vc_dim :: nat
  vc_data :: "float32 list"
  vc_data16 :: "u16 list option"
  vc_hasVec :: "bool list"
  vc_invNorms :: "float32 list"

definition vectorInvNorm :: "machine \<Rightarrow> float32 list \<Rightarrow> float32" where
  "vectorInvNorm M v =
     (let normSq = foldl (\<lambda>s x. fmac (m_fuse M) s x x) f32_0 v
      in if feq normSq f32_0 then f32_0 else f32_of_f64 (fdiv64 (f64_of_f32 f32_1) (math_Sqrt (f64_of_f32 normSq))))"

record Table =
  tb_numRows :: nat
  tb_docIDs :: "string list"
  tb_index :: "(string, nat) fmap"
  tb_tombstones :: "bool list"
  tb_vectors :: "(string, flatVectorCol) fmap"
  tb_attrs :: "(string, AttributeValue option list) fmap"
  tb_kernels :: Kernels

definition NewTable :: "Kernels \<Rightarrow> Table" where
  "NewTable kernels = \<lparr>tb_numRows = 0, tb_docIDs = [], tb_index = fmempty, tb_tombstones = [], tb_vectors = fmempty,
     tb_attrs = fmempty, tb_kernels = kernels\<rparr>"

definition Table_Clone :: "Table \<Rightarrow> Table" where
  "Table_Clone t = \<lparr>tb_numRows = tb_numRows t, tb_docIDs = tb_docIDs t, tb_index = fmmap (\<lambda>v. v) (tb_index t),
     tb_tombstones = tb_tombstones t,
     tb_vectors = fmmap (\<lambda>v. \<lparr>vc_dim = vc_dim v, vc_data = vc_data v, vc_data16 = vc_data16 v, vc_hasVec = vc_hasVec v,
       vc_invNorms = vc_invNorms v\<rparr>) (tb_vectors t),
     tb_attrs = fmmap (map (\<lambda>a. case a of None \<Rightarrow> None | Some v \<Rightarrow> Some v)) (tb_attrs t),
     tb_kernels = tb_kernels t\<rparr>"

definition is16 :: "Table \<Rightarrow> bool" where "is16 t \<longleftrightarrow> k_Dot16 (tb_kernels t) \<noteq> None"

subsection \<open>Upsert\<close>

record stagedVector =
  sv_values :: "float32 list"
  sv_data16 :: "u16 list option"
  sv_invNorm :: float32

type_synonym staging = "(string, stagedVector) fmap"
type_synonym attributes = "(string, AttributeValue option) fmap"

text \<open>The vectors are checked and converted before anything is changed.\<close>

fun stage_loop :: "machine \<Rightarrow> Table \<Rightarrow> (string \<times> float32 list) list \<Rightarrow> staging \<Rightarrow> staging result" where
  "stage_loop M t [] staged = Inr staged"
| "stage_loop M t ((col, vec) # vectors) staged =
     (if vec = [] then stage_loop M t vectors staged
      else if (case fmlookup (tb_vectors t) col of None \<Rightarrow> False | Some vCol \<Rightarrow> length vec \<noteq> vc_dim vCol)
      then Inl (Wrap ''column dimension'' query_ErrDimensionMismatch)
      else
        let sv = \<lparr>sv_values = vec, sv_data16 = None, sv_invNorm = vectorInvNorm M vec\<rparr>
        in if is16 t
           then
             (case EncodeFP16 (replicate (length vec) 0) vec of
                (Some err, _) \<Rightarrow> Inl (Wrap ''query: encode vector'' err)
              | (None, d) \<Rightarrow> stage_loop M t vectors (fmupd col (sv\<lparr>sv_data16 := Some d\<rparr>) staged))
           else stage_loop M t vectors (fmupd col sv staged))"

text \<open>Columns that are new are made, empty for the rows there are.\<close>

definition new_vector_col :: "Table \<Rightarrow> stagedVector \<Rightarrow> flatVectorCol" where
  "new_vector_col t sv =
     (let dim = length (sv_values sv); n = tb_numRows t
      in \<lparr>vc_dim = dim, vc_data = (if is16 t then [] else replicate (n * dim) f32_0),
          vc_data16 = (if is16 t then Some (replicate (n * dim) 0) else None),
          vc_hasVec = replicate n False, vc_invNorms = replicate n f32_0\<rparr>)"

definition add_columns :: "staging \<Rightarrow> attributes \<Rightarrow> Table \<Rightarrow> Table" where
  "add_columns staged attrs t =
     t\<lparr>tb_vectors := fmmap (new_vector_col t) staged ++\<^sub>f tb_vectors t,
       tb_attrs := fmmap (\<lambda>_. replicate (tb_numRows t) None) (fmfilter (\<lambda>k. fmlookup attrs k \<noteq> Some None) attrs) ++\<^sub>f tb_attrs t\<rparr>"

text \<open>A row that comes back from a deletion loses what the new version does not mention.\<close>

definition revive_row :: "staging \<Rightarrow> attributes \<Rightarrow> nat \<Rightarrow> Table \<Rightarrow> Table option" where
  "revive_row staged attrs row t =
     (case fmtraverse (\<lambda>k aCol. if k |\<in>| fmdom attrs then Some aCol else put_at row None aCol) (tb_attrs t) of
        None \<Rightarrow> None
      | Some as \<Rightarrow>
          (case fmtraverse (\<lambda>col vCol.
                  if col |\<in>| fmdom staged then Some vCol
                  else
                    (case put_at row False (vc_hasVec vCol) of
                       None \<Rightarrow> None
                     | Some has \<Rightarrow>
                         (case put_at row f32_0 (vc_invNorms vCol) of
                            None \<Rightarrow> None
                          | Some norms \<Rightarrow> Some (vCol\<lparr>vc_hasVec := has, vc_invNorms := norms\<rparr>)))) (tb_vectors t) of
             None \<Rightarrow> None
           | Some vs \<Rightarrow> Some (t\<lparr>tb_attrs := as, tb_vectors := vs\<rparr>)))"

definition write_vector :: "bool \<Rightarrow> nat \<Rightarrow> stagedVector \<Rightarrow> flatVectorCol \<Rightarrow> flatVectorCol option" where
  "write_vector half row sv vCol =
     (let offset = row * vc_dim vCol
      in case (if half
               then map_option (\<lambda>d. vCol\<lparr>vc_data16 := Some d\<rparr>)
                      (copy_at offset (vc_dim vCol) (case sv_data16 sv of None \<Rightarrow> [] | Some d \<Rightarrow> d) (case vc_data16 vCol of None \<Rightarrow> [] | Some d \<Rightarrow> d))
               else map_option (\<lambda>d. vCol\<lparr>vc_data := d\<rparr>) (copy_at offset (vc_dim vCol) (sv_values sv) (vc_data vCol))) of
           None \<Rightarrow> None
         | Some vCol \<Rightarrow>
             (case put_at row True (vc_hasVec vCol) of
                None \<Rightarrow> None
              | Some has \<Rightarrow>
                  (case put_at row (sv_invNorm sv) (vc_invNorms vCol) of
                     None \<Rightarrow> None
                   | Some norms \<Rightarrow> Some (vCol\<lparr>vc_hasVec := has, vc_invNorms := norms\<rparr>))))"

text \<open>Every staged vector has its column by now.\<close>

definition write_row :: "staging \<Rightarrow> attributes \<Rightarrow> nat \<Rightarrow> Table \<Rightarrow> Table option" where
  "write_row staged attrs row t =
     (case fmtraverse (\<lambda>col vCol. case fmlookup staged col of None \<Rightarrow> Some vCol | Some sv \<Rightarrow> write_vector (is16 t) row sv vCol) (tb_vectors t) of
        None \<Rightarrow> None
      | Some vs \<Rightarrow>
          (case fmtraverse (\<lambda>k aCol. case fmlookup attrs k of Some (Some v) \<Rightarrow> put_at row (Some v) aCol | _ \<Rightarrow> Some aCol) (tb_attrs t) of
             None \<Rightarrow> None
           | Some as \<Rightarrow> Some (t\<lparr>tb_vectors := vs, tb_attrs := as\<rparr>)))"

definition update_row :: "staging \<Rightarrow> attributes \<Rightarrow> nat \<Rightarrow> Table \<Rightarrow> Table option" where
  "update_row staged attrs row t =
     (if row \<ge> length (tb_tombstones t) then None
      else
        (case (if tb_tombstones t ! row then revive_row staged attrs row t else Some t) of
           None \<Rightarrow> None
         | Some t \<Rightarrow> write_row staged attrs row (t\<lparr>tb_tombstones := (tb_tombstones t)[row := False]\<rparr>)))"

definition append_vector :: "bool \<Rightarrow> stagedVector option \<Rightarrow> flatVectorCol \<Rightarrow> flatVectorCol" where
  "append_vector half sv vCol =
     (let d16 = (case vc_data16 vCol of None \<Rightarrow> [] | Some d \<Rightarrow> d);
          vCol = (case sv of
                    None \<Rightarrow>
                      (if half then vCol\<lparr>vc_data16 := Some (d16 @ replicate (vc_dim vCol) 0)\<rparr>
                       else vCol\<lparr>vc_data := vc_data vCol @ replicate (vc_dim vCol) f32_0\<rparr>)
                  | Some sv \<Rightarrow>
                      (if half then vCol\<lparr>vc_data16 := Some (d16 @ (case sv_data16 sv of None \<Rightarrow> [] | Some d \<Rightarrow> d))\<rparr>
                       else vCol\<lparr>vc_data := vc_data vCol @ sv_values sv\<rparr>))
      in vCol\<lparr>vc_hasVec := vc_hasVec vCol @ [sv \<noteq> None],
              vc_invNorms := vc_invNorms vCol @ [case sv of None \<Rightarrow> f32_0 | Some sv \<Rightarrow> sv_invNorm sv]\<rparr>)"

definition append_row :: "string \<Rightarrow> staging \<Rightarrow> attributes \<Rightarrow> Table \<Rightarrow> Table" where
  "append_row docID staged attrs t =
     t\<lparr>tb_docIDs := tb_docIDs t @ [docID],
       tb_tombstones := tb_tombstones t @ [False],
       tb_index := fmupd docID (tb_numRows t) (tb_index t),
       tb_vectors := fmmap_keys (\<lambda>col vCol. append_vector (is16 t) (fmlookup staged col) vCol) (tb_vectors t),
       tb_attrs := fmmap_keys (\<lambda>k aCol. aCol @ [case fmlookup attrs k of Some (Some v) \<Rightarrow> Some v | _ \<Rightarrow> None]) (tb_attrs t),
       tb_numRows := tb_numRows t + 1\<rparr>"

definition Table_Upsert ::
    "machine \<Rightarrow> string \<Rightarrow> (string \<times> float32 list) list \<Rightarrow> attributes \<Rightarrow> Table \<Rightarrow> gerr option \<times> Table" where
  "Table_Upsert M docID vectors attrs t =
     (if docID = '''' then (Some (ErrMsg ''query: empty doc id''), t)
      else
        (case stage_loop M t vectors fmempty of
           Inl err \<Rightarrow> (Some err, t)
         | Inr staged \<Rightarrow>
             let t' = add_columns staged attrs t
             in case fmlookup (tb_index t') docID of
                  Some row \<Rightarrow>
                    (case update_row staged attrs row t' of
                       None \<Rightarrow> (Some index_panic, t)
                     | Some t'' \<Rightarrow> (None, t''))
                | None \<Rightarrow> (None, append_row docID staged attrs t')))"

text \<open>\<open>UpsertRecord\<close> visits the vectors of a record by name.\<close>

fun record_vectors :: "(string \<times> float32 list option) list \<Rightarrow> (string \<times> float32 list) list result" where
  "record_vectors [] = Inr []"
| "record_vectors ((name, vec) # vs) =
     (case vec of
        None \<Rightarrow> Inl (ErrMsg ''query: nil vector'')
      | Some values \<Rightarrow> (case record_vectors vs of Inl err \<Rightarrow> Inl err | Inr r \<Rightarrow> Inr ((name, values) # r)))"

definition UpsertRecord :: "machine \<Rightarrow> Record option \<Rightarrow> Table \<Rightarrow> gerr option \<times> Table" where
  "UpsertRecord M rec t =
     (case rec of
        None \<Rightarrow> (Some (ErrMsg ''query: nil record''), t)
      | Some rec \<Rightarrow>
          (case record_vectors (sorted_list_of_fmap (r_Vectors rec)) of
             Inl err \<Rightarrow> (Some err, t)
           | Inr vectors \<Rightarrow> Table_Upsert M (r_Id rec) vectors (r_Attributes rec) t))"

subsection \<open>Delete and Get\<close>

text \<open>The answer is \<open>None\<close> for a panic.\<close>

definition Table_Delete :: "string \<Rightarrow> Table \<Rightarrow> bool option \<times> Table" where
  "Table_Delete docID t =
     (case fmlookup (tb_index t) docID of
        None \<Rightarrow> (Some False, t)
      | Some row \<Rightarrow>
          if row \<ge> length (tb_tombstones t) then (None, t)
          else if tb_tombstones t ! row then (Some False, t)
          else (Some True, t\<lparr>tb_tombstones := (tb_tombstones t)[row := True]\<rparr>))"

definition isTombstoned :: "Table \<Rightarrow> nat \<Rightarrow> bool" where
  "isTombstoned t row \<longleftrightarrow> row < length (tb_tombstones t) \<and> tb_tombstones t ! row"

definition vector_at :: "Table \<Rightarrow> nat \<Rightarrow> flatVectorCol \<Rightarrow> float32 list option" where
  "vector_at t row vCol =
     (let offset = row * vc_dim vCol
      in case vc_data16 vCol of
           Some d \<Rightarrow>
             (case (slice offset (vc_dim vCol) d, k_Decode16 (tb_kernels t)) of
                (Some h, Some Decode16) \<Rightarrow> Decode16 (replicate (vc_dim vCol) f32_0) h
              | _ \<Rightarrow> None)
         | None \<Rightarrow> slice offset (vc_dim vCol) (vc_data vCol))"

definition recordAt :: "Table \<Rightarrow> nat \<Rightarrow> string \<Rightarrow> Record option" where
  "recordAt t row docID =
     (let has = fmfilter (\<lambda>col. case fmlookup (tb_vectors t) col of
                            None \<Rightarrow> False
                          | Some vCol \<Rightarrow> row < length (vc_hasVec vCol) \<and> vc_hasVec vCol ! row) (tb_vectors t);
          present = fmfilter (\<lambda>k. case fmlookup (tb_attrs t) k of
                                None \<Rightarrow> False
                              | Some col \<Rightarrow> row < length col \<and> col ! row \<noteq> None) (tb_attrs t)
      in case fmtraverse (\<lambda>_ vCol. vector_at t row vCol) has of
           None \<Rightarrow> None
         | Some vs \<Rightarrow> Some \<lparr>r_Id = docID, r_Vectors = fmmap Some vs, r_Attributes = fmmap (\<lambda>col. col ! row) present\<rparr>)"

text \<open>\<open>Inr None\<close>: there is no such document.\<close>

definition Table_Get :: "Table \<Rightarrow> string \<Rightarrow> Record option result" where
  "Table_Get t docID =
     (case fmlookup (tb_index t) docID of
        None \<Rightarrow> Inr None
      | Some row \<Rightarrow>
          if isTombstoned t row then Inr None
          else (case recordAt t row docID of None \<Rightarrow> Inl index_panic | Some rec \<Rightarrow> Inr (Some rec)))"

subsection \<open>Search\<close>

record searchHit =
  sh_row :: nat
  sh_id :: string
  sh_score :: float32

text \<open>\<open>cmp.Compare\<close> puts a value that is not a number before all others; \<open>strings.Compare\<close> is lexicographic.\<close>

definition cmp_Compare :: "float32 \<Rightarrow> float32 \<Rightarrow> int" where
  "cmp_Compare x y =
     (if IsNaN x then (if IsNaN y then 0 else - 1)
      else if IsNaN y then 1
      else if flt x y then - 1
      else if flt y x then 1
      else 0)"

definition strings_Compare :: "string \<Rightarrow> string \<Rightarrow> int" where
  "strings_Compare a b = (if a = b then 0 else if a < b then - 1 else 1)"

definition cmpAsc :: "searchHit \<Rightarrow> searchHit \<Rightarrow> int" where
  "cmpAsc a b =
     (if \<not> feq (sh_score a) (sh_score b) then cmp_Compare (sh_score a) (sh_score b) else strings_Compare (sh_id a) (sh_id b))"

definition cmpDesc :: "searchHit \<Rightarrow> searchHit \<Rightarrow> int" where
  "cmpDesc a b =
     (if \<not> feq (sh_score a) (sh_score b) then cmp_Compare (sh_score b) (sh_score a) else strings_Compare (sh_id a) (sh_id b))"

text \<open>A kernel on the query and a row, in the precision of the column.\<close>

definition call_kernel ::
    "kernel option \<Rightarrow> kernel16 option \<Rightarrow> flatVectorCol \<Rightarrow> float32 list \<Rightarrow> nat \<Rightarrow> float32 option" where
  "call_kernel k k16 vCol query row =
     (let dim = vc_dim vCol; offset = row * dim
      in case vc_data16 vCol of
           Some data16 \<Rightarrow> (case (k16, slice offset dim data16) of (Some f, Some v) \<Rightarrow> f query v | _ \<Rightarrow> None)
         | None \<Rightarrow> (case (k, slice offset dim (vc_data vCol)) of (Some f, Some v) \<Rightarrow> f query v | _ \<Rightarrow> None))"

definition clamp :: "float32 \<Rightarrow> float32" where
  "clamp sim = (if flt f32_1 sim then f32_1 else if flt sim f32_m1 then f32_m1 else sim)"

text \<open>The score of a row: \<open>None\<close> is a panic, \<open>Some None\<close> skips the row.\<close>

definition row_score ::
    "Kernels \<Rightarrow> int \<Rightarrow> flatVectorCol \<Rightarrow> float32 list \<Rightarrow> float32 \<Rightarrow> nat \<Rightarrow> float32 option option" where
  "row_score K metric vCol query invQ row =
     (if metric = DISTANCE_METRIC_COSINE
      then
        if row \<ge> length (vc_invNorms vCol) then None
        else if feq (vc_invNorms vCol ! row) f32_0 then Some None
        else
          (case call_kernel (k_Dot K) (k_Dot16 K) vCol query row of
             None \<Rightarrow> None
           | Some dot \<Rightarrow> Some (Some (fsub f32_1 (clamp (fmul (fmul dot invQ) (vc_invNorms vCol ! row))))))
      else if metric = DISTANCE_METRIC_EUCLIDEAN_SQUARED
      then map_option Some (call_kernel (k_L2 K) (k_L216 K) vCol query row)
      else if metric = DISTANCE_METRIC_DOT_PRODUCT
      then map_option Some (call_kernel (k_Dot K) (k_Dot16 K) vCol query row)
      else Some (Some f32_0))"

definition passes_filter ::
    "(AttributeValue \<Rightarrow> AttributeValue option \<Rightarrow> bool) \<Rightarrow> (AttributeValue option list \<times> AttributeValue option) option \<Rightarrow> nat \<Rightarrow> bool" where
  "passes_filter peq filt row =
     (case filt of
        None \<Rightarrow> True
      | Some (filterAttrs, val) \<Rightarrow>
          row < length filterAttrs \<and> (case filterAttrs ! row of None \<Rightarrow> False | Some a \<Rightarrow> peq a val))"

definition candidate ::
    "(AttributeValue \<Rightarrow> AttributeValue option \<Rightarrow> bool) \<Rightarrow> Table \<Rightarrow> flatVectorCol \<Rightarrow> float32 list \<Rightarrow> int \<Rightarrow> float32
      \<Rightarrow> (AttributeValue option list \<times> AttributeValue option) option \<Rightarrow> nat \<Rightarrow> searchHit option option" where
  "candidate peq t vCol query metric invQ filt row =
     (if row \<ge> length (tb_tombstones t) then None
      else if tb_tombstones t ! row then Some None
      else if row \<ge> length (vc_hasVec vCol) then None
      else if \<not> vc_hasVec vCol ! row then Some None
      else if \<not> passes_filter peq filt row then Some None
      else
        (case row_score (tb_kernels t) metric vCol query invQ row of
           None \<Rightarrow> None
         | Some None \<Rightarrow> Some None
         | Some (Some score) \<Rightarrow>
             if row \<ge> length (tb_docIDs t) then None
             else Some (Some \<lparr>sh_row = row, sh_id = tb_docIDs t ! row, sh_score = score\<rparr>)))"

fun scan_loop ::
    "(nat \<Rightarrow> searchHit option option) \<Rightarrow> (searchHit list \<Rightarrow> searchHit \<Rightarrow> searchHit list) \<Rightarrow> nat list \<Rightarrow> searchHit list
      \<Rightarrow> searchHit list option" where
  "scan_loop f off [] h = Some h"
| "scan_loop f off (row # rows) h =
     (case f row of
        None \<Rightarrow> None
      | Some None \<Rightarrow> scan_loop f off rows h
      | Some (Some cand) \<Rightarrow> scan_loop f off rows (off h cand))"

fun materialize :: "Table \<Rightarrow> searchHit list \<Rightarrow> ScoredRecord list option" where
  "materialize t [] = Some []"
| "materialize t (hit # hits) =
     (case (recordAt t (sh_row hit) (sh_id hit), materialize t hits) of
        (Some rec, Some rs) \<Rightarrow> Some (\<lparr>sr_Record = rec, sr_Score = sh_score hit\<rparr> # rs)
      | _ \<Rightarrow> None)"

text \<open>The comparison and the early exit of a metric.\<close>

definition hit_cmp :: "int \<Rightarrow> searchHit \<Rightarrow> searchHit \<Rightarrow> int" where
  "hit_cmp metric = (if metric = DISTANCE_METRIC_DOT_PRODUCT then cmpDesc else cmpAsc)"

definition hit_worse :: "int \<Rightarrow> searchHit \<Rightarrow> searchHit \<Rightarrow> bool" where
  "hit_worse metric a b =
     (if metric = DISTANCE_METRIC_DOT_PRODUCT then flt (sh_score a) (sh_score b) else flt (sh_score b) (sh_score a))"

definition query_norm :: "machine \<Rightarrow> int \<Rightarrow> float32 list \<Rightarrow> float32 result" where
  "query_norm M metric query =
     (if metric = DISTANCE_METRIC_COSINE
      then let invQ = vectorInvNorm M query in if feq invQ f32_0 then Inl ErrZeroVector else Inr invQ
      else if metric = DISTANCE_METRIC_EUCLIDEAN_SQUARED \<or> metric = DISTANCE_METRIC_DOT_PRODUCT then Inr f32_0
      else Inl (ErrMsg ''query: unknown metric''))"

definition search_rows ::
    "(AttributeValue \<Rightarrow> AttributeValue option \<Rightarrow> bool) \<Rightarrow> Table \<Rightarrow> flatVectorCol \<Rightarrow> float32 list \<Rightarrow> int \<Rightarrow> int \<Rightarrow> float32
      \<Rightarrow> (AttributeValue option list \<times> AttributeValue option) option \<Rightarrow> ScoredRecord list result" where
  "search_rows peq t vCol query topK metric invQ filt =
     (case scan_loop (candidate peq t vCol query metric invQ filt) (offer (hit_cmp metric) (hit_worse metric) (nat topK))
             [0..<tb_numRows t] [] of
        None \<Rightarrow> Inl index_panic
      | Some h \<Rightarrow> (case materialize t (SortFunc (hit_cmp metric) h) of None \<Rightarrow> Inl index_panic | Some hits \<Rightarrow> Inr hits))"

definition Table_Search ::
    "machine \<Rightarrow> (AttributeValue \<Rightarrow> AttributeValue option \<Rightarrow> bool) \<Rightarrow> Table \<Rightarrow> string \<Rightarrow> float32 list \<Rightarrow> int \<Rightarrow> int
      \<Rightarrow> EqualityFilter option \<Rightarrow> ScoredRecord list result" where
  "Table_Search M peq t col query topK metric filt =
     (if topK \<le> 0 then Inr []
      else
        (case fmlookup (tb_vectors t) col of
           None \<Rightarrow> Inr []
         | Some vCol \<Rightarrow>
             if tb_numRows t = 0 then Inr []
             else if length query \<noteq> vc_dim vCol then Inl query_ErrDimensionMismatch
             else
               (case query_norm M metric query of
                  Inl err \<Rightarrow> Inl err
                | Inr invQ \<Rightarrow>
                    (case filt of
                       None \<Rightarrow> search_rows peq t vCol query topK metric invQ None
                     | Some f \<Rightarrow>
                         (case fmlookup (tb_attrs t) (ef_Field f) of
                            None \<Rightarrow> Inr []
                          | Some colAttrs \<Rightarrow> search_rows peq t vCol query topK metric invQ (Some (colAttrs, ef_Value f)))))))"

end
