(* ===== verification/Loader.thy ===== *)
theory Loader
  imports Flusher Table
begin

text \<open>
  \<open>src/query/loader.go\<close> and \<open>src/query/engine.go\<close>: a loader follows the manifest of one branch and applies its new segments to a copy of
  the table, which it then publishes; the engine keeps one loader per branch and answers queries from the published tables.

  The pointer that a loader shares with the queries is the field \<open>ld_table\<close>: a query reads the last table stored there. The mutex of a
  loader makes a call of \<open>Sync\<close>, from its check of the generation on, one step; a loader is shared by reference in Go, and here
  \<open>SyncOnce\<close> puts it back. \<open>polls\<close> is what the context says each time it is asked, no error once the list is used up; a store call asks
  the store for its own. \<open>M\<close> is the arithmetic of the machine, \<open>rcd\<close> the encoding of records. A panic in the table would leave \<open>Sync\<close>
  without publishing anything. Log lines, counts and durations are left out.
\<close>

subsection \<open>loader.go\<close>

abbreviation ErrManifestTruncated :: gerr where "ErrManifestTruncated \<equiv> Sentinel ''query.ErrManifestTruncated''"

record Loader =
  ld_table :: Table
  ld_scope :: Scope
  ld_branch :: string
  ld_applied :: nat
  ld_lastGen :: string

definition NewLoader :: "'s Store option \<Rightarrow> Table option \<Rightarrow> Scope \<Rightarrow> string \<Rightarrow> Loader result" where
  "NewLoader store table scope branch =
     (if store = None then Inl (ErrMsg ''query: nil store'')
      else
        (case table of
           None \<Rightarrow> Inl (ErrMsg ''query: nil table'')
         | Some t \<Rightarrow> Inr \<lparr>ld_table = t, ld_scope = scope, ld_branch = branch, ld_applied = 0, ld_lastGen = []\<rparr>))"

type_synonym polls = "gerr option list"

definition poll_ctx :: "polls \<Rightarrow> gerr option \<times> polls" where
  "poll_ctx polls = (case polls of [] \<Rightarrow> (None, []) | p # ps \<Rightarrow> (p, ps))"

text \<open>The \<open>switch\<close>: one mutation applied to the table.\<close>

definition apply_mutation :: "machine \<Rightarrow> Record codec \<Rightarrow> DocumentMutation \<Rightarrow> Table \<Rightarrow> gerr option \<times> Table" where
  "apply_mutation M rcd mut t =
     (if dm_Op mut = MutationOp_PUT then
        (case unmarshal rcd (dm_Payload mut) of
           Inl err \<Rightarrow> (Some (Wrap ''unmarshal record'' err), t)
         | Inr rec \<Rightarrow>
             (case UpsertRecord M (Some rec) t of
                (Some (Panic m), t') \<Rightarrow> (Some (Panic m), t')
              | (Some err, t') \<Rightarrow> (Some (Wrap ''upsert record'' err), t')
              | (None, t') \<Rightarrow> (None, t')))
      else if dm_Op mut = MutationOp_DELETE then
        (case Table_Delete (dm_DocId mut) t of
           (None, t') \<Rightarrow> (Some index_panic, t')
         | (Some _, t') \<Rightarrow> (None, t'))
      else (Some (ErrMsg ''unknown mutation op''), t))"

text \<open>The loop over the mutations of a segment: \<open>readErr\<close>, and the table as far as it got.\<close>

function load_loop ::
    "machine \<Rightarrow> DocumentMutation codec \<Rightarrow> Record codec \<Rightarrow> polls \<Rightarrow> seg_Reader \<Rightarrow> Table \<Rightarrow> gerr option \<times> polls \<times> Table" where
  "load_loop M cd rcd polls reader t =
     (case poll_ctx polls of
        (Some err, polls') \<Rightarrow> (Some err, polls', t)
      | (None, polls') \<Rightarrow>
          (case seg_Next cd reader of
             (Inl err, _) \<Rightarrow> (if errors_is err io_EOF then None else Some (Wrap ''read mutation'' err), polls', t)
           | (Inr mut, reader') \<Rightarrow>
               (case apply_mutation M rcd mut t of
                  (Some err, t') \<Rightarrow> (Some err, polls', t')
                | (None, t') \<Rightarrow> load_loop M cd rcd polls' reader' t')))"
  by pat_completeness auto
termination
  by (relation "measure (\<lambda>(M, cd, rcd, polls, r, t). length (Scanner_avail (sr_s r)))") (auto dest: seg_Next_progress [OF sym])

declare load_loop.simps [simp del]

text \<open>The loop over the new segments: how many were loaded, and the error that ended it.\<close>

fun sync_loop ::
    "'s Store \<Rightarrow> machine \<Rightarrow> codecs \<Rightarrow> Record codec \<Rightarrow> ctx \<Rightarrow> Scope \<Rightarrow> SegmentRef list \<Rightarrow> polls \<Rightarrow> nat \<Rightarrow> Table \<Rightarrow> 's
      \<Rightarrow> nat \<times> gerr option \<times> polls \<times> Table \<times> 's" where
  "sync_loop S M cds rcd c scope [] polls loadedCount t s = (loadedCount, None, polls, t, s)"
| "sync_loop S M cds rcd c scope (seg # segs) polls loadedCount t s =
     (case Store_Get S c (SegmentKey scope (sg_SegmentId seg)) s of
        (Inl err, s') \<Rightarrow> (loadedCount, Some (Wrap ''get segment'' err), polls, t, s')
      | (Inr (rc, _), s') \<Rightarrow>
          (case load_loop M (cd_mutation cds) rcd polls (seg_NewReader rc) t of
             (Some readErr, polls', t') \<Rightarrow> (loadedCount, Some readErr, polls', t', s')
           | (None, polls', t') \<Rightarrow> sync_loop S M cds rcd c scope segs polls' (loadedCount + 1) t' s'))"

definition is_Panic :: "gerr \<Rightarrow> bool" where
  "is_Panic err = (case err of Panic _ \<Rightarrow> True | _ \<Rightarrow> False)"

definition Loader_Sync ::
    "'s Store \<Rightarrow> machine \<Rightarrow> codecs \<Rightarrow> Record codec \<Rightarrow> ctx \<Rightarrow> polls \<Rightarrow> Loader \<Rightarrow> 's
      \<Rightarrow> nat \<times> gerr option \<times> polls \<times> Loader \<times> 's" where
  "Loader_Sync S M cds rcd c polls l s =
     (case manifest_Read S (cd_manifest cds) c (ManifestKey (ld_scope l) (ld_branch l)) s of
        (Inl err, s') \<Rightarrow> (0, if errors_is err ErrNotFound then None else Some (Wrap ''sync manifest'' err), polls, l, s')
      | (Inr (m, gen), s') \<Rightarrow>
          if gen \<noteq> [] \<and> gen = ld_lastGen l then (0, None, polls, l, s')
          else if ld_applied l > length (bm_Segments m) then (0, Some (Wrap ''sync manifest'' ErrManifestTruncated), polls, l, s')
          else
            (let segs = drop (ld_applied l) (bm_Segments m)
             in case sync_loop S M cds rcd c (ld_scope l) segs polls 0 (Table_Clone (ld_table l)) s' of
                  (n, Some err, polls', t, s'') \<Rightarrow>
                    (n, Some err, polls',
                     l\<lparr>ld_applied := ld_applied l + n, ld_table := if n > 0 \<and> \<not> is_Panic err then t else ld_table l\<rparr>, s'')
                | (n, None, polls', t, s'') \<Rightarrow>
                    (n, None, polls',
                     l\<lparr>ld_applied := ld_applied l + n, ld_table := if segs = [] then ld_table l else t, ld_lastGen := gen\<rparr>, s'')))"

subsection \<open>engine.go\<close>

record Request =
  rq_Namespace :: string
  rq_Branch :: string
  rq_VectorColumn :: string
  rq_Vector :: "float32 list"
  rq_TopK :: int
  rq_Filter :: "EqualityFilter option"

record Engine =
  en_syncInterval :: int
  en_kernels :: Kernels
  en_loaders :: "string \<times> string \<rightharpoonup> Loader"

definition NewEngine :: "'s Store option \<Rightarrow> int \<Rightarrow> Kernels \<Rightarrow> Engine result" where
  "NewEngine store syncInterval kernels =
     (if store = None then Inl (ErrMsg ''query: nil store'')
      else if syncInterval \<le> 0 then Inl (ErrMsg ''query: non-positive sync interval'')
      else Inr \<lparr>en_syncInterval = syncInterval, en_kernels = kernels, en_loaders = Map.empty\<rparr>)"

fun sync_branches ::
    "'s Store \<Rightarrow> machine \<Rightarrow> codecs \<Rightarrow> Record codec \<Rightarrow> ctx \<Rightarrow> string \<Rightarrow> string list \<Rightarrow> polls \<Rightarrow> Engine \<Rightarrow> 's
      \<Rightarrow> gerr option \<times> polls \<times> Engine \<times> 's" where
  "sync_branches S M cds rcd c ns [] polls e s = (None, polls, e, s)"
| "sync_branches S M cds rcd c ns (branch # branches) polls e s =
     (case (case en_loaders e (ns, branch) of
              Some loader \<Rightarrow> Inr loader
            | None \<Rightarrow> NewLoader (Some S) (Some (NewTable (en_kernels e))) \<lparr>sc_Namespace = ns\<rparr> branch) of
        Inl _ \<Rightarrow> sync_branches S M cds rcd c ns branches polls e s
      | Inr loader \<Rightarrow>
          (case Loader_Sync S M cds rcd c polls loader s of
             (_, r, polls', loader', s') \<Rightarrow>
               (let e' = e\<lparr>en_loaders := (en_loaders e)((ns, branch) \<mapsto> loader')\<rparr>
                in if (case r of Some err \<Rightarrow> is_Panic err | None \<Rightarrow> False) then (r, polls', e', s')
                   else sync_branches S M cds rcd c ns branches polls' e' s')))"

fun sync_namespaces ::
    "'s Store \<Rightarrow> machine \<Rightarrow> codecs \<Rightarrow> Record codec \<Rightarrow> ctx \<Rightarrow> string list \<Rightarrow> polls \<Rightarrow> Engine \<Rightarrow> 's
      \<Rightarrow> gerr option \<times> polls \<times> Engine \<times> 's" where
  "sync_namespaces S M cds rcd c [] polls e s = (None, polls, e, s)"
| "sync_namespaces S M cds rcd c (ns # namespaces) polls e s =
     (case ListBranches S (cd_branches cds) c \<lparr>sc_Namespace = ns\<rparr> s of
        (Inl err, s') \<Rightarrow> (Some (Wrap ''list branches'' err), polls, e, s')
      | (Inr branches, s') \<Rightarrow>
          (case sync_branches S M cds rcd c ns branches polls e s' of
             (Some err, polls', e', s'') \<Rightarrow> (Some err, polls', e', s'')
           | (None, polls', e', s'') \<Rightarrow> sync_namespaces S M cds rcd c namespaces polls' e' s''))"

definition SyncOnce ::
    "'s Store \<Rightarrow> machine \<Rightarrow> codecs \<Rightarrow> Record codec \<Rightarrow> ctx \<Rightarrow> polls \<Rightarrow> Engine \<Rightarrow> 's \<Rightarrow> gerr option \<times> polls \<times> Engine \<times> 's" where
  "SyncOnce S M cds rcd c polls e s =
     (case poll_ctx polls of
        (Some err, polls') \<Rightarrow> (Some err, polls', e, s)
      | (None, polls') \<Rightarrow>
          (case ActiveNamespaces (Some S) (cd_catalog cds) c s of
             (Inl err, s') \<Rightarrow> (Some (Wrap ''list namespaces'' err), polls', e, s')
           | (Inr namespaces, s') \<Rightarrow> sync_namespaces S M cds rcd c namespaces polls' e s'))"

text \<open>
  \<open>Run\<close> with the events its \<open>select\<close> receives. It returns nil only; a pass that failed is logged unless the context is done, and a panic
  ends the process.
\<close>

datatype engine_event = EngineDone | EngineTick
datatype engine_state = EngineReturned | EngineCrashed | EngineRunning

definition engine_pass ::
    "'s Store \<Rightarrow> machine \<Rightarrow> codecs \<Rightarrow> Record codec \<Rightarrow> ctx \<Rightarrow> polls \<Rightarrow> Engine \<Rightarrow> 's \<Rightarrow> engine_state \<times> polls \<times> Engine \<times> 's" where
  "engine_pass S M cds rcd c polls e s =
     (case SyncOnce S M cds rcd c polls e s of
        (None, polls', e', s') \<Rightarrow> (EngineRunning, polls', e', s')
      | (Some err, polls', e', s') \<Rightarrow>
          if is_Panic err then (EngineCrashed, polls', e', s')
          else (case poll_ctx polls' of
                  (Some _, polls'') \<Rightarrow> (EngineReturned, polls'', e', s')
                | (None, polls'') \<Rightarrow> (EngineRunning, polls'', e', s')))"

fun engine_loop ::
    "'s Store \<Rightarrow> machine \<Rightarrow> codecs \<Rightarrow> Record codec \<Rightarrow> ctx \<Rightarrow> engine_event list \<Rightarrow> polls \<Rightarrow> Engine \<Rightarrow> 's
      \<Rightarrow> engine_state \<times> Engine \<times> 's" where
  "engine_loop S M cds rcd c [] polls e s = (EngineRunning, e, s)"
| "engine_loop S M cds rcd c (EngineDone # evs) polls e s = (EngineReturned, e, s)"
| "engine_loop S M cds rcd c (EngineTick # evs) polls e s =
     (case engine_pass S M cds rcd c polls e s of
        (st, polls', e', s') \<Rightarrow>
          if st = EngineRunning then engine_loop S M cds rcd c evs polls' e' s' else (st, e', s'))"

definition Engine_Run ::
    "'s Store \<Rightarrow> machine \<Rightarrow> codecs \<Rightarrow> Record codec \<Rightarrow> ctx \<Rightarrow> engine_event list \<Rightarrow> polls \<Rightarrow> Engine \<Rightarrow> 's
      \<Rightarrow> engine_state \<times> Engine \<times> 's" where
  "Engine_Run S M cds rcd c evs polls e s =
     (case engine_pass S M cds rcd c polls e s of
        (st, polls', e', s') \<Rightarrow>
          if st = EngineRunning then engine_loop S M cds rcd c evs polls' e' s' else (st, e', s'))"

definition Engine_Query ::
    "machine \<Rightarrow> (AttributeValue \<Rightarrow> AttributeValue option \<Rightarrow> bool) \<Rightarrow> gerr option \<Rightarrow> Engine \<Rightarrow> Request \<Rightarrow> ScoredRecord list result" where
  "Engine_Query M peq cerr e req =
     (case cerr of
        Some err \<Rightarrow> Inl err
      | None \<Rightarrow>
          (let col = if rq_VectorColumn req = [] then ''default'' else rq_VectorColumn req
           in case en_loaders e (rq_Namespace req, rq_Branch req) of
                None \<Rightarrow> Inr []
              | Some loader \<Rightarrow>
                  Table_Search M peq (ld_table loader) col (rq_Vector req) (rq_TopK req) DISTANCE_METRIC_COSINE (rq_Filter req)))"

end
