(* ===== verification/Vector_Properties.thy ===== *)
theory Vector_Properties
  imports Vector_Kernels
begin

text \<open>
  Properties of the kernels: whenever the products of two vectors of integers are small enough for \<open>float32\<close>, every kernel
  returns the exact inner product and the exact squared distance, however it splits the sum into lanes, blocks and
  trees; the cosine distance of any two vectors lies between 0 and 2.
\<close>

subsection \<open>Exact arithmetic on integers\<close>

definition exact :: "float32 \<Rightarrow> int \<Rightarrow> bool" where
  "exact x z \<longleftrightarrow> finite_val (val32 x) \<and> rval (val32 x) = of_int z"

lemma exact_round:
  assumes "finite_val v" and "rval v = of_int z" and "\<bar>z\<bar> < 2 ^ 24"
  shows "exact (of_val32 v) z"
proof -
  have "nat \<bar>z\<bar> < 2 ^ 24" using assms(3) by simp
  moreover have "0 + int (bitlen (nat \<bar>z\<bar>)) \<le> 128" using bitlen_le [OF calculation] by simp
  moreover have "\<bar>rval v\<bar> = real (nat \<bar>z\<bar>) * 2 powi 0" using assms(2) by simp
  ultimately show ?thesis using of_val32_exact [OF assms(1), of "nat \<bar>z\<bar>" 0] assms(2) by (simp add: exact_def)
qed

lemma exact_0: "exact f32_0 0"
proof -
  have "val32 f32_0 = Fin False 0 (-149)" by (simp add: f32_0_def val32_parts f32_e_def f32_f_def f32_s_def)
  then show ?thesis by (simp add: exact_def rval_Fin)
qed

lemma exact_add: "exact x a \<Longrightarrow> exact y b \<Longrightarrow> \<bar>a + b\<bar> < 2 ^ 24 \<Longrightarrow> exact (fadd x y) (a + b)"
  unfolding fadd_def using rval_add [of "val32 x" "val32 y"] by (intro exact_round) (simp_all add: exact_def)

lemma exact_sub: "exact x a \<Longrightarrow> exact y b \<Longrightarrow> \<bar>a - b\<bar> < 2 ^ 24 \<Longrightarrow> exact (fsub x y) (a - b)"
  unfolding fsub_def using rval_add [of "val32 x" "val_neg (val32 y)"] by (intro exact_round) (simp_all add: exact_def)

lemma exact_mul: "exact x a \<Longrightarrow> exact y b \<Longrightarrow> \<bar>a * b\<bar> < 2 ^ 24 \<Longrightarrow> exact (fmul x y) (a * b)"
  unfolding fmul_def using rval_mul [of "val32 x" "val32 y"] by (intro exact_round) (simp_all add: exact_def)

lemma exact_fma: "exact x a \<Longrightarrow> exact y b \<Longrightarrow> exact z c \<Longrightarrow> \<bar>a * b + c\<bar> < 2 ^ 24 \<Longrightarrow> exact (ffma x y z) (a * b + c)"
  unfolding ffma_def using rval_mul [of "val32 x" "val32 y"] rval_add [of "val_mul (val32 x) (val32 y)" "val32 z"]
  by (intro exact_round) (simp_all add: exact_def)

lemma exact_mac:
  assumes "exact s c" and "exact x a" and "exact y b" and "\<bar>a * b\<bar> < 2 ^ 24" and "\<bar>c + a * b\<bar> < 2 ^ 24"
  shows "exact (fmac fuse s x y) (c + a * b)"
  using exact_fma [OF assms(2,3,1)] exact_add [OF assms(1) exact_mul [OF assms(2-4)]] assms(5)
  by (simp add: fmac_def add.commute)

subsection \<open>Sums in any arrangement\<close>

text \<open>Numbers that add up to \<open>Z\<close>, each within its own bound, the bounds adding up to \<open>W\<close>.\<close>

fun addup :: "float32 list \<Rightarrow> int \<Rightarrow> int \<Rightarrow> bool" where
  "addup [] Z W \<longleftrightarrow> Z = 0 \<and> W = 0"
| "addup (x # xs) Z W \<longleftrightarrow> (\<exists>z w. exact x z \<and> \<bar>z\<bar> \<le> w \<and> addup xs (Z - z) (W - w))"

lemma addup_bound: "addup xs Z W \<Longrightarrow> \<bar>Z\<bar> \<le> W"
proof (induction xs arbitrary: Z W)
  case (Cons x xs)
  then obtain z w where "\<bar>z\<bar> \<le> w" "\<bar>Z - z\<bar> \<le> W - w" by fastforce
  then show ?case by linarith
qed simp

lemma addup_Cons: "exact x z \<Longrightarrow> \<bar>z\<bar> \<le> w \<Longrightarrow> addup xs Z W \<Longrightarrow> addup (x # xs) (z + Z) (w + W)"
  unfolding addup.simps by (rule exI [of _ z], rule exI [of _ w]) simp

lemma addup_append: "addup (xs @ ys) Z W \<longleftrightarrow> (\<exists>Z1 W1. addup xs Z1 W1 \<and> addup ys (Z - Z1) (W - W1))"
proof (induction xs arbitrary: Z W)
  case (Cons x xs)
  show ?case
  proof
    assume "addup ((x # xs) @ ys) Z W"
    then obtain z w Z1 W1 where "exact x z" "\<bar>z\<bar> \<le> w" "addup xs Z1 W1" "addup ys (Z - z - Z1) (W - w - W1)"
      using Cons.IH by auto
    then have "addup (x # xs) (z + Z1) (w + W1) \<and> addup ys (Z - (z + Z1)) (W - (w + W1))"
      using addup_Cons [of x z w xs Z1 W1] by (simp add: algebra_simps del: addup.simps)
    then show "\<exists>Z1 W1. addup (x # xs) Z1 W1 \<and> addup ys (Z - Z1) (W - W1)" by blast
  next
    assume "\<exists>Z1 W1. addup (x # xs) Z1 W1 \<and> addup ys (Z - Z1) (W - W1)"
    then obtain Z1 W1 z w where "exact x z" "\<bar>z\<bar> \<le> w" "addup xs (Z1 - z) (W1 - w)" "addup ys (Z - Z1) (W - W1)" by auto
    moreover from this have "addup (xs @ ys) (Z - z) (W - w)"
      using Cons.IH [of "Z - z" "W - w"] by (metis diff_diff_eq2 diff_add_cancel add_diff_eq)
    ultimately show "addup ((x # xs) @ ys) Z W" by auto
  qed
qed simp

lemma addup_appendI: "addup xs Z W \<Longrightarrow> addup ys Z' W' \<Longrightarrow> addup (xs @ ys) (Z + Z') (W + W')"
  unfolding addup_append by (rule exI [of _ Z], rule exI [of _ W]) simp

lemma addup_zero [simp]: "addup (vzero n) 0 0"
proof -
  have "addup (replicate n f32_0) 0 0" by (induction n) (auto intro!: exI [of _ 0] exact_0)
  then show ?thesis by (simp add: vzero_def)
qed

lemma concat_vzero: "concat (replicate n (vzero m)) = vzero (n * m)"
  by (induction n) (simp_all add: vzero_def replicate_add)

lemma addup_add:
  assumes "length xs = length ys" and "addup xs Z W" and "addup ys Z' W'" and "W + W' < 2 ^ 24"
  shows "addup (vadd xs ys) (Z + Z') (W + W')"
  using assms unfolding vadd_def
proof (induction xs ys arbitrary: Z W Z' W' rule: list_induct2)
  case (Cons x xs y ys)
  from Cons.prems obtain z w z' w' where x: "exact x z" "\<bar>z\<bar> \<le> w" "addup xs (Z - z) (W - w)"
    and y: "exact y z'" "\<bar>z'\<bar> \<le> w'" "addup ys (Z' - z') (W' - w')" by auto
  have "0 \<le> W - w" "0 \<le> W' - w'" using addup_bound [OF x(3)] addup_bound [OF y(3)] by linarith+
  then have lt: "\<bar>z + z'\<bar> < 2 ^ 24" "W - w + (W' - w') < 2 ^ 24" "\<bar>z + z'\<bar> \<le> w + w'" using x(2) y(2) Cons.prems(3) by linarith+
  from addup_Cons [OF exact_add [OF x(1) y(1) lt(1)] lt(3) Cons.IH [OF x(3) y(3) lt(2)]] show ?case
    by (simp add: algebra_simps del: addup.simps)
qed simp

text \<open>Adding them up, from the left or in pairs.\<close>

lemma addup_single: "addup [x] Z W \<Longrightarrow> exact x Z"
  by auto

lemma addup_foldl:
  assumes "addup xs Z W" and "exact s c" and "\<bar>c\<bar> \<le> u" and "u + W < 2 ^ 24"
  shows "exact (foldl fadd s xs) (c + Z)"
  using assms
proof (induction xs arbitrary: Z W s c u)
  case (Cons x xs)
  then obtain z w where x: "exact x z" "\<bar>z\<bar> \<le> w" "addup xs (Z - z) (W - w)" by auto
  have lt: "\<bar>c + z\<bar> < 2 ^ 24" "\<bar>c + z\<bar> \<le> u + w" "u + w + (W - w) < 2 ^ 24"
    using addup_bound [OF x(3)] x(2) Cons.prems(3,4) by linarith+
  from Cons.IH [OF x(3) exact_add [OF Cons.prems(2) x(1) lt(1)] lt(2,3)] show ?case by simp
qed simp

lemma addup_four:
  assumes "addup s Z W" and "length s = 4" and "W < 2 ^ 24"
  shows "exact (fadd (fadd (s ! 0) (s ! 1)) (fadd (s ! 2) (s ! 3))) Z"
proof -
  from assms(2) obtain a b c d where s: "s = [a, b, c, d]" by (auto simp: eval_nat_numeral length_Suc_conv)
  from assms(1) obtain za wa zb wb zc wc zd wd where e: "exact a za" "exact b zb" "exact c zc" "exact d zd"
    "\<bar>za\<bar> \<le> wa" "\<bar>zb\<bar> \<le> wb" "\<bar>zc\<bar> \<le> wc" "\<bar>zd\<bar> \<le> wd" "Z = za + zb + zc + zd" "W = wa + wb + wc + wd"
    by (auto simp: s algebra_simps)
  have b: "\<bar>za + zb\<bar> < 2 ^ 24" "\<bar>zc + zd\<bar> < 2 ^ 24" "\<bar>(za + zb) + (zc + zd)\<bar> < 2 ^ 24" using e(5-8,10) assms(3) by linarith+
  from exact_add [OF exact_add [OF e(1,2) b(1)] exact_add [OF e(3,4) b(2)] b(3)] show ?thesis by (simp add: s e(9) algebra_simps)
qed

text \<open>Eight registers added as a tree, and the lanes of the result.\<close>

lemma addup_halves:
  assumes "length xs = length ys" and "addup (xs @ ys) Z W" and "W < 2 ^ 24"
  shows "addup (vadd xs ys) Z W"
proof -
  from assms(2) obtain Z1 W1 where "addup xs Z1 W1" "addup ys (Z - Z1) (W - W1)" by (auto simp: addup_append)
  from addup_add [OF assms(1) this] assms(3) show ?thesis by simp
qed

lemma length_vadd [simp]: "length (vadd x y) = min (length x) (length y)"
  by (simp add: vadd_def)

lemma addup_swap: "addup (xs @ ys) Z W \<longleftrightarrow> addup (ys @ xs) Z W"
proof -
  have "addup (xs @ ys) Z W \<Longrightarrow> addup (ys @ xs) Z W" for xs ys :: "float32 list"
    unfolding addup_append by (elim exE conjE, rule exI, rule exI, rule conjI, assumption) simp
  then show ?thesis by blast
qed

lemma addup_rotate:
  assumes "length xs = length ys" and "addup (xs @ ys @ zs) Z W" and "W < 2 ^ 24"
  shows "addup (zs @ vadd xs ys) Z W"
proof -
  from assms(2) addup_append [of "xs @ ys" zs Z W] obtain Z1 W1 where p: "addup (xs @ ys) Z1 W1" "addup zs (Z - Z1) (W - W1)" by auto
  moreover have "W1 < 2 ^ 24" using addup_bound [OF p(2)] assms(3) by linarith
  ultimately have "addup (vadd xs ys @ zs) Z W" using addup_halves [OF assms(1) p(1)] by (auto simp: addup_append)
  then show ?thesis by (simp only: addup_swap)
qed

lemma tree8_exact:
  assumes "length accs = 8" and "\<forall>s \<in> set accs. length s = 16" and "addup (concat accs) Z W" and "W < 2 ^ 24"
  shows "addup (tree8 accs) Z W \<and> length (tree8 accs) = 16"
proof -
  from assms(1) obtain a b c d e f g h where accs: "accs = [a, b, c, d, e, f, g, h]" by (auto simp: eval_nat_numeral length_Suc_conv)
  have l: "length a = 16" "length b = 16" "length c = 16" "length d = 16" "length e = 16" "length f = 16" "length g = 16" "length h = 16"
    using assms(2) by (simp_all add: accs)
  note rot = addup_rotate [OF _ _ assms(4)]
  have "addup (a @ b @ c @ d @ e @ f @ g @ h) Z W" using assms(3) by (simp add: accs)
  from rot [OF _ this] l have "addup (c @ d @ e @ f @ g @ h @ vadd a b) Z W" by simp
  from rot [OF _ this] l have "addup (e @ f @ g @ h @ vadd a b @ vadd c d) Z W" by simp
  from rot [OF _ this] l have "addup (g @ h @ vadd a b @ vadd c d @ vadd e f) Z W" by simp
  from rot [OF _ this] l have "addup (vadd a b @ vadd c d @ vadd e f @ vadd g h) Z W" by simp
  from rot [OF _ this] l have "addup (vadd e f @ vadd g h @ vadd (vadd a b) (vadd c d)) Z W" by simp
  from rot [OF _ this] l have "addup (vadd (vadd a b) (vadd c d) @ vadd (vadd e f) (vadd g h)) Z W" by simp
  from addup_halves [OF _ this assms(4)] l show ?thesis by (simp add: tree8_def accs)
qed

lemma sumLanes_exact:
  assumes "addup v Z W" and "length v = 16" and "W < 2 ^ 24"
  shows "addup (sumLanes v) Z W \<and> length (sumLanes v) = 4"
proof -
  have "addup (vadd (take 8 v) (drop 8 v)) Z W" by (rule addup_halves) (use assms in simp_all)
  then have "addup (take 4 (vadd (take 8 v) (drop 8 v)) @ drop 4 (vadd (take 8 v) (drop 8 v))) Z W" by simp
  from addup_halves [OF _ this assms(3)] assms(2) show ?thesis by (simp add: sumLanes_def Let_def)
qed

lemma reduce_exact:
  assumes "length accs = 8" and "\<forall>s \<in> set accs. length s = 16" and "addup (concat accs) Z W" and "W < 2 ^ 24"
  shows "exact (fadd (fadd (sumLanes (tree8 accs) ! 0) (sumLanes (tree8 accs) ! 1)) (fadd (sumLanes (tree8 accs) ! 2) (sumLanes (tree8 accs) ! 3))) Z"
  using tree8_exact [OF assms] sumLanes_exact [of "tree8 accs" Z W] addup_four [of "sumLanes (tree8 accs)" Z W] assms(4) by simp

subsection \<open>Kernels that add a term per pair\<close>

abbreviation ints :: "float32 list \<Rightarrow> int list \<Rightarrow> bool" where "ints \<equiv> list_all2 exact"

definition term_sum :: "(int \<Rightarrow> int \<Rightarrow> int) \<Rightarrow> int list \<Rightarrow> int list \<Rightarrow> int" where
  "term_sum t x y = sum_list (map2 t x y)"

definition term_abs :: "(int \<Rightarrow> int \<Rightarrow> int) \<Rightarrow> int list \<Rightarrow> int list \<Rightarrow> int" where
  "term_abs t x y = term_sum (\<lambda>a b. \<bar>t a b\<bar>) x y"

lemma term_sum_append: "length x = length y \<Longrightarrow> term_sum t (x @ x') (y @ y') = term_sum t x y + term_sum t x' y'"
  by (simp add: term_sum_def)

lemma term_sum_split:
  assumes "length x = length y"
  shows "term_sum t x y = term_sum t (take k x) (take k y) + term_sum t (drop k x) (drop k y)"
  using term_sum_append [of "take k x" "take k y" t "drop k x" "drop k y"] assms by simp

lemma term_abs_nonneg: "0 \<le> term_abs t x y"
  unfolding term_abs_def term_sum_def by (rule sum_list_nonneg) auto

lemma term_sum_le_abs: "\<bar>term_sum t x y\<bar> \<le> term_abs t x y"
  unfolding term_abs_def term_sum_def using sum_list_abs [of "map2 t x y"] by (simp add: comp_def case_prod_unfold)

definition map3 :: "('a \<Rightarrow> 'b \<Rightarrow> 'c \<Rightarrow> 'd) \<Rightarrow> 'a list \<Rightarrow> 'b list \<Rightarrow> 'c list \<Rightarrow> 'd list" where
  "map3 h x y z = map2 (\<lambda>(a, b) c. h a b c) (zip x y) z"

lemma map3_simps [simp]: "map3 h [] y z = []" "map3 h (a # x) (b # y) (c # z) = h a b c # map3 h x y z"
  by (simp_all add: map3_def)

lemma length_map3 [simp]: "length (map3 h x y z) = min (min (length x) (length y)) (length z)"
  by (simp add: map3_def)

lemma map3_append:
  "length x = length y \<Longrightarrow> length x = length z \<Longrightarrow> map3 h (x @ x') (y @ y') (z @ z') = map3 h x y z @ map3 h x' y' z'"
  by (simp add: map3_def)

lemma map3_concat:
  assumes "length xs = length ys" and "length ys = length zs"
    and "\<forall>x \<in> set xs. length x = n" and "\<forall>y \<in> set ys. length y = n" and "\<forall>z \<in> set zs. length z = n"
  shows "concat (map3 (map3 h) xs ys zs) = map3 h (concat xs) (concat ys) (concat zs)"
  using assms by (induction xs ys zs rule: list_induct3) (simp_all add: map3_append)

lemma map3_lengths:
  assumes "\<forall>x \<in> set xs. length x = n" and "\<forall>y \<in> set ys. length y = n" and "\<forall>z \<in> set zs. length z = n"
  shows "\<forall>s \<in> set (map3 (map3 h) xs ys zs). length s = n"
proof -
  have "set (zip (zip xs ys) zs) \<subseteq> (set xs \<times> set ys) \<times> set zs" by (auto dest: set_zip_leftD set_zip_rightD)
  with assms show ?thesis by (fastforce simp: map3_def)
qed

lemma cvt16_exact:
  assumes "ints (map fp16ToFloat32 row) y"
  shows "cvt16 row = map fp16ToFloat32 row"
proof -
  have "val32 (fp16ToFloat32 h) \<noteq> NaN" if "h \<in> set row" for h
    using assms that by (auto simp: list_all2_map1 in_set_conv_nth list_all2_conv_all_nth exact_def)
  then show ?thesis by (simp add: cvt16_def VCVTPH2PS_def Let_def)
qed

locale term_kernel =
  fixes h :: "float32 \<Rightarrow> float32 \<Rightarrow> float32 \<Rightarrow> float32" and g :: "float32 \<Rightarrow> float32 \<Rightarrow> float32 \<Rightarrow> float32"
    and t :: "int \<Rightarrow> int \<Rightarrow> int"
  assumes lane_law: "exact x a \<Longrightarrow> exact y b \<Longrightarrow> exact s c \<Longrightarrow> \<bar>t a b\<bar> < 2 ^ 24 \<Longrightarrow> \<bar>c + t a b\<bar> < 2 ^ 24 \<Longrightarrow> exact (h x y s) (c + t a b)"
    and step_law: "exact x a \<Longrightarrow> exact y b \<Longrightarrow> exact s c \<Longrightarrow> \<bar>t a b\<bar> < 2 ^ 24 \<Longrightarrow> \<bar>c + t a b\<bar> < 2 ^ 24 \<Longrightarrow> exact (g s x y) (c + t a b)"
    and zero_law: "t 0 0 = 0"
begin

lemma addup_lanes:
  assumes "length a = length b" and "length b = length acc" and "ints a x" and "ints b y" and "addup acc Z W"
    and "W + term_abs t x y < 2 ^ 24"
  shows "addup (map3 h a b acc) (Z + term_sum t x y) (W + term_abs t x y)"
  using assms
proof (induction a b acc arbitrary: x y Z W rule: list_induct3)
  case (Cons a as b bs s acc)
  from Cons.prems(1,2) obtain u x' v y' where xy: "x = u # x'" "y = v # y'" "exact a u" "ints as x'" "exact b v" "ints bs y'"
    by (auto simp: list_all2_Cons1)
  from Cons.prems(3) obtain z w where s: "exact s z" "\<bar>z\<bar> \<le> w" "addup acc (Z - z) (W - w)" by auto
  have A: "term_abs t x y = \<bar>t u v\<bar> + term_abs t x' y'" "term_sum t x y = t u v + term_sum t x' y'"
    by (simp_all add: term_abs_def term_sum_def xy)
  have lt: "\<bar>t u v\<bar> < 2 ^ 24" "\<bar>z + t u v\<bar> < 2 ^ 24" "\<bar>z + t u v\<bar> \<le> w + \<bar>t u v\<bar>" "W - w + term_abs t x' y' < 2 ^ 24"
    using Cons.prems(4) A(1) s(2) addup_bound [OF s(3)] term_abs_nonneg [of t x' y'] by linarith+
  from addup_Cons [OF lane_law [OF xy(3,5) s(1) lt(1,2)] lt(3) Cons.IH [OF xy(4,6) s(3) lt(4)]] show ?case
    by (simp add: A algebra_simps del: addup.simps)
qed (simp add: term_sum_def term_abs_def)

lemma fold_pairs_exact:
  assumes "ints a x" and "ints b y" and "length a \<le> length b" and "exact s c" and "\<bar>c\<bar> \<le> w" and "w + term_abs t x y < 2 ^ 24"
  shows "\<exists>r. fold_pairs g s a b = Some r \<and> exact r (c + term_sum t x y)"
  using assms
proof (induction a arbitrary: b x y s c w)
  case (Cons a as)
  from Cons.prems(3) obtain b' bs where b: "b = b' # bs" by (cases b) auto
  from Cons.prems(1,2) b obtain u x' v y' where xy: "x = u # x'" "y = v # y'" "exact a u" "ints as x'" "exact b' v" "ints bs y'"
    by (auto simp: list_all2_Cons1)
  have A: "term_abs t x y = \<bar>t u v\<bar> + term_abs t x' y'" "term_sum t x y = t u v + term_sum t x' y'"
    by (simp_all add: term_abs_def term_sum_def xy)
  have lt: "\<bar>t u v\<bar> < 2 ^ 24" "\<bar>c + t u v\<bar> < 2 ^ 24" "\<bar>c + t u v\<bar> \<le> w + \<bar>t u v\<bar>" "w + \<bar>t u v\<bar> + term_abs t x' y' < 2 ^ 24"
    using Cons.prems(5,6) A(1) term_abs_nonneg [of t x' y'] by linarith+
  have "length as \<le> length bs" using Cons.prems(3) b by simp
  from Cons.IH [OF xy(4,6) this step_law [OF xy(3,5) Cons.prems(4) lt(1,2)] lt(3,4)] show ?case
    by (simp add: b A add.assoc)
qed (simp add: term_sum_def)

lemma portable_loop_exact:
  assumes "ints a x" and "ints b y" and "length a = length b" and "n * vl \<le> length a" and "length acc = vl" and "addup acc Z W"
    and "W + term_abs t (take (n * vl) x) (take (n * vl) y) < 2 ^ 24"
  shows "\<exists>acc'. portable_loop (map3 h) vl n a b acc = Some acc' \<and> length acc' = vl
    \<and> addup acc' (Z + term_sum t (take (n * vl) x) (take (n * vl) y)) (W + term_abs t (take (n * vl) x) (take (n * vl) y))"
  using assms
proof (induction n arbitrary: a b x y acc Z W)
  case 0
  then show ?case by (simp add: term_sum_def term_abs_def)
next
  case (Suc n)
  have len: "length x = length y" using Suc.prems(1-3) by (simp add: list_all2_lengthD)
  have vl: "vl \<le> length a" "vl \<le> length b" using Suc.prems(3,4) by simp_all
  have tk: "term_sum f (take (Suc n * vl) x) (take (Suc n * vl) y)
      = term_sum f (take vl x) (take vl y) + term_sum f (take (n * vl) (drop vl x)) (take (n * vl) (drop vl y))" for f
    using term_sum_split [of "take (Suc n * vl) x" "take (Suc n * vl) y" f vl] len by (simp add: drop_take)
  then have tka: "term_abs t (take (Suc n * vl) x) (take (Suc n * vl) y)
      = term_abs t (take vl x) (take vl y) + term_abs t (take (n * vl) (drop vl x)) (take (n * vl) (drop vl y))"
    by (simp add: term_abs_def)
  have "W + term_abs t (take vl x) (take vl y) < 2 ^ 24"
    using Suc.prems(7) tka term_abs_nonneg [of t "take (n * vl) (drop vl x)" "take (n * vl) (drop vl y)"] by linarith
  then have step: "addup (map3 h (take vl a) (take vl b) acc) (Z + term_sum t (take vl x) (take vl y)) (W + term_abs t (take vl x) (take vl y))"
    using vl Suc.prems(1,2,5,6) by (intro addup_lanes) (auto intro: list_all2_takeI)
  have "ints (drop vl a) (drop vl x)" "ints (drop vl b) (drop vl y)" using Suc.prems(1,2) by (auto intro: list_all2_dropI)
  from Suc.IH [OF this _ _ _ step] Suc.prems(3,4,5,7) vl tk [of t] tka show ?case by (auto simp: add.assoc)
qed

lemma portable_exact:
  assumes "ints a x" and "ints b y" and "length a = length b" and "term_abs t x y < 2 ^ 24"
  shows "\<exists>r. portable (map3 h) g vl a b = Some r \<and> exact r (term_sum t x y)"
proof -
  let ?k = "length a div vl * vl"
  have len: "length x = length y" using assms(1-3) by (simp add: list_all2_lengthD)
  have A: "term_abs t x y = term_abs t (take ?k x) (take ?k y) + term_abs t (drop ?k x) (drop ?k y)"
    unfolding term_abs_def by (rule term_sum_split [OF len])
  have "0 + term_abs t (take ?k x) (take ?k y) < 2 ^ 24"
    using A assms(4) term_abs_nonneg [of t "drop ?k x" "drop ?k y"] by linarith
  from portable_loop_exact [OF assms(1-3) _ _ addup_zero this] obtain acc
    where acc: "portable_loop (map3 h) vl (length a div vl) a b (vzero vl) = Some acc"
      "addup acc (term_sum t (take ?k x) (take ?k y)) (term_abs t (take ?k x) (take ?k y))"
    by (auto simp: vzero_def)
  have s: "exact (add_lanes acc) (term_sum t (take ?k x) (take ?k y))"
    using addup_foldl [OF acc(2) exact_0, of 0] A assms(4) term_abs_nonneg [of t "drop ?k x" "drop ?k y"]
    by (simp add: add_lanes_def)
  have "ints (drop ?k a) (drop ?k x)" "ints (drop ?k b) (drop ?k y)" using assms(1,2) by (auto intro: list_all2_dropI)
  from fold_pairs_exact [OF this _ s addup_bound [OF acc(2)]] A assms(3,4) acc(1) term_sum_split [OF len, of t ?k]
  show ?thesis by (auto simp: portable_def Let_def)
qed

text \<open>Registers of 16 lanes.\<close>

lemma blocks16_shape:
  assumes "16 * w \<le> length a"
  shows "length (blocks16 w a) = w" and "\<forall>x \<in> set (blocks16 w a). length x = 16" and "concat (blocks16 w a) = take (16 * w) a"
proof -
  show "length (blocks16 w a) = w" by (simp add: blocks16_def)
  show "\<forall>x \<in> set (blocks16 w a). length x = 16" using assms by (auto simp: blocks16_def)
  show "concat (blocks16 w a) = take (16 * w) a"
    using assms
  proof (induction w)
    case (Suc w)
    then have "concat (blocks16 (Suc w) a) = take (16 * w) a @ take 16 (drop (16 * w) a)" by (simp add: blocks16_def)
    also have "\<dots> = take (16 * w + 16) a" by (simp only: take_add)
    finally show ?case by (simp add: add.commute)
  qed (simp add: blocks16_def)
qed

lemma avx_step_exact:
  assumes "ints a x" and "ints b y" and "16 * w \<le> length a" and "16 * w \<le> length b" and "w \<le> length accs"
    and "\<forall>s \<in> set accs. length s = 16" and "addup (concat accs) Z W"
    and "W + term_abs t (take (16 * w) x) (take (16 * w) y) < 2 ^ 24"
  shows "length (avx_step (map3 h) w a b accs) = length accs \<and> (\<forall>s \<in> set (avx_step (map3 h) w a b accs). length s = 16)
    \<and> addup (concat (avx_step (map3 h) w a b accs)) (Z + term_sum t (take (16 * w) x) (take (16 * w) y))
        (W + term_abs t (take (16 * w) x) (take (16 * w) y))"
proof -
  note ba = blocks16_shape [OF assms(3)] and bb = blocks16_shape [OF assms(4)]
  have st: "avx_step (map3 h) w a b accs = map3 (map3 h) (blocks16 w a) (blocks16 w b) (take w accs) @ drop w accs"
    by (simp add: avx_step_def map3_def)
  have tk: "\<forall>s \<in> set (take w accs). length s = 16" using assms(6) by (auto dest: in_set_takeD)
  have cc: "concat (map3 (map3 h) (blocks16 w a) (blocks16 w b) (take w accs)) = map3 h (take (16 * w) a) (take (16 * w) b) (concat (take w accs))"
    using map3_concat [of "blocks16 w a" "blocks16 w b" "take w accs" 16 h] ba bb tk assms(5) by simp
  have lc: "length (concat (take w accs)) = 16 * w"
  proof -
    have "length (concat ss) = 16 * length ss" if "\<forall>s \<in> set ss. length s = 16" for ss :: "lanes list" using that by (induction ss) auto
    from this [OF tk] assms(5) show ?thesis by simp
  qed
  have "concat accs = concat (take w accs) @ concat (drop w accs)" by (simp flip: concat_append)
  with assms(7) obtain Z1 W1 where z: "addup (concat (take w accs)) Z1 W1" "addup (concat (drop w accs)) (Z - Z1) (W - W1)"
    by (auto simp: addup_append)
  have "W1 + term_abs t (take (16 * w) x) (take (16 * w) y) < 2 ^ 24" using addup_bound [OF z(2)] assms(8) by linarith
  then have "addup (map3 h (take (16 * w) a) (take (16 * w) b) (concat (take w accs)))
      (Z1 + term_sum t (take (16 * w) x) (take (16 * w) y)) (W1 + term_abs t (take (16 * w) x) (take (16 * w) y))"
    using assms(1-4) lc z(1) by (intro addup_lanes) (auto intro: list_all2_takeI)
  with z(2) have "addup (concat (avx_step (map3 h) w a b accs)) (Z + term_sum t (take (16 * w) x) (take (16 * w) y))
        (W + term_abs t (take (16 * w) x) (take (16 * w) y))"
    unfolding st concat_append cc addup_append by (intro exI conjI) (assumption, simp add: algebra_simps)
  moreover have "\<forall>s \<in> set (map3 (map3 h) (blocks16 w a) (blocks16 w b) (take w accs)). length s = 16"
    by (rule map3_lengths [OF ba(2) bb(2) tk])
  ultimately show ?thesis using ba bb assms(5,6) unfolding st by (auto dest: in_set_dropD)
qed

lemma avx_loop_exact:
  assumes "ints a x" and "ints b y" and "length a = length b" and "0 < w" and "w \<le> length accs"
    and "\<forall>s \<in> set accs. length s = 16" and "addup (concat accs) Z W" and "W + term_abs t x y < 2 ^ 24"
  shows "\<exists>k accs'. avx_loop (map3 h) w a b accs = (drop k a, drop k b, accs') \<and> length a - k < 16 * w \<and> 16 dvd k
    \<and> length accs' = length accs \<and> (\<forall>s \<in> set accs'. length s = 16)
    \<and> addup (concat accs') (Z + term_sum t (take k x) (take k y)) (W + term_abs t (take k x) (take k y))"
  using assms
proof (induction "length a" arbitrary: a b x y accs Z W rule: less_induct)
  case less
  have len: "length x = length y" "length x = length a" using less.prems(1-3) by (auto simp: list_all2_lengthD)
  show ?case
  proof (cases "16 * w \<le> length a")
    case False
    then show ?thesis using less.prems by (subst avx_loop.simps) (auto intro!: exI [of _ 0] simp: term_sum_def term_abs_def)
  next
    case True
    let ?w = "16 * w"
    have split: "term_abs t x y = term_abs t (take ?w x) (take ?w y) + term_abs t (drop ?w x) (drop ?w y)"
      unfolding term_abs_def by (rule term_sum_split [OF len(1)])
    have lt: "W + term_abs t (take ?w x) (take ?w y) < 2 ^ 24"
      using split less.prems(8) term_abs_nonneg [of t "drop ?w x" "drop ?w y"] by linarith
    have bw: "?w \<le> length b" using True less.prems(3) by simp
    note st = avx_step_exact [OF less.prems(1,2) True bw less.prems(5-7) lt]
    have sh: "length (drop ?w a) < length a" "length (drop ?w a) = length (drop ?w b)" "w \<le> length (avx_step (map3 h) w a b accs)"
      using less.prems(3-5) True st by auto
    have lt': "W + term_abs t (take ?w x) (take ?w y) + term_abs t (drop ?w x) (drop ?w y) < 2 ^ 24"
      using split less.prems(8) by linarith
    have "ints (drop ?w a) (drop ?w x)" "ints (drop ?w b) (drop ?w y)" using less.prems(1,2) by (auto intro: list_all2_dropI)
    from less.hyps [OF sh(1) this sh(2) less.prems(4) sh(3) conjunct1 [OF conjunct2 [OF st]] conjunct2 [OF conjunct2 [OF st]] lt']
    obtain k accs' where k: "avx_loop (map3 h) w (drop ?w a) (drop ?w b) (avx_step (map3 h) w a b accs) = (drop k (drop ?w a), drop k (drop ?w b), accs')"
      "length (drop ?w a) - k < ?w" "16 dvd k" "length accs' = length accs" "\<forall>s \<in> set accs'. length s = 16"
      "addup (concat accs') (Z + term_sum t (take ?w x) (take ?w y) + term_sum t (take k (drop ?w x)) (take k (drop ?w y)))
         (W + term_abs t (take ?w x) (take ?w y) + term_abs t (take k (drop ?w x)) (take k (drop ?w y)))"
      using conjunct1 [OF st] by auto
    have tk: "term_sum f (take (?w + k) x) (take (?w + k) y) = term_sum f (take ?w x) (take ?w y) + term_sum f (take k (drop ?w x)) (take k (drop ?w y))" for f
      unfolding take_add by (rule term_sum_append) (simp add: len(1))
    have "avx_loop (map3 h) w a b accs = (drop (?w + k) a, drop (?w + k) b, accs')"
      using True less.prems(3,4) k(1) by (subst avx_loop.simps) (simp add: add.commute)
    with k tk [of t] tk [of "\<lambda>a b. \<bar>t a b\<bar>"] True show ?thesis
      by (intro exI [of _ "?w + k"] exI [of _ accs']) (simp add: term_abs_def add.assoc)
  qed
qed

lemma ints_load_part:
  assumes "ints a x" and "length a < 16"
  shows "ints (load_part a) (x @ replicate (16 - length a) 0)"
proof -
  have "load_part a = a @ replicate (16 - length a) f32_0" using assms(2) by (simp add: load_part_def vzero_def min_def)
  moreover have "ints (replicate n f32_0) (replicate n 0)" for n by (induction n) (simp_all add: exact_0)
  ultimately show ?thesis using assms(1) by (simp add: list_all2_appendI)
qed

lemma term_sum_zeros:
  assumes "f 0 0 = 0" and "length x = length y"
  shows "term_sum f (x @ replicate n 0) (y @ replicate n 0) = term_sum f x y"
proof -
  have "term_sum f (replicate n 0) (replicate n 0) = 0" using assms(1) by (induction n) (simp_all add: term_sum_def)
  then show ?thesis by (simp add: term_sum_append [OF assms(2)])
qed

lemma avx_tail_exact:
  assumes "ints a x" and "ints b y" and "length a = length b" and "length a < 16" and "length accs = 8"
    and "\<forall>s \<in> set accs. length s = 16" and "addup (concat accs) Z W" and "W + term_abs t x y < 2 ^ 24"
  defines "accs' \<equiv> (if a = [] then accs else accs[1 := map3 h (load_part a) (load_part b) (accs ! 1)])"
  shows "length accs' = 8 \<and> (\<forall>s \<in> set accs'. length s = 16) \<and> addup (concat accs') (Z + term_sum t x y) (W + term_abs t x y)"
proof (cases "a = []")
  case True
  with assms show ?thesis by (simp add: term_sum_def term_abs_def)
next
  case False
  have len: "length x = length y" "length x = length a" using assms(1-3) by (auto simp: list_all2_lengthD)
  let ?x = "x @ replicate (16 - length a) 0" and ?y = "y @ replicate (16 - length a) 0"
  have S: "term_sum t ?x ?y = term_sum t x y" "term_abs t ?x ?y = term_abs t x y"
    using term_sum_zeros [OF _ len(1), of t] term_sum_zeros [OF _ len(1), of "\<lambda>a b. \<bar>t a b\<bar>"] by (simp_all add: term_abs_def zero_law)
  from assms(5) obtain s0 s1 rest where accs: "accs = s0 # s1 # rest" by (cases accs; cases "tl accs") auto
  have l: "length s1 = 16" "length (load_part a) = 16" "length (load_part b) = 16"
    using assms(6) by (simp_all add: accs load_part_def vzero_def)
  from assms(7) obtain Z0 W0 Z1 W1 where z: "addup s0 Z0 W0" "addup s1 Z1 W1" "addup (concat rest) (Z - Z0 - Z1) (W - W0 - W1)"
    by (auto simp: accs addup_append)
  have lt: "W1 + term_abs t ?x ?y < 2 ^ 24" using addup_bound [OF z(1)] addup_bound [OF z(3)] assms(8) S(2) by linarith
  have ib: "ints (load_part b) ?y" using ints_load_part [OF assms(2)] assms(3,4) by simp
  have lb: "length (load_part a) = length (load_part b)" "length (load_part b) = length s1" by (simp_all add: l)
  have "addup (map3 h (load_part a) (load_part b) s1) (Z1 + term_sum t x y) (W1 + term_abs t x y)"
    using addup_lanes [OF lb ints_load_part [OF assms(1,4)] ib z(2) lt] by (simp only: S)
  from addup_appendI [OF z(1) addup_appendI [OF this z(3)]]
  have "addup (s0 @ map3 h (load_part a) (load_part b) s1 @ concat rest) (Z + term_sum t x y) (W + term_abs t x y)"
    by (simp add: algebra_simps)
  then show ?thesis using False l assms(5,6) by (simp add: accs'_def accs)
qed

text \<open>The accumulators after \<open>k\<close> elements.\<close>

definition accs_at :: "int list \<Rightarrow> int list \<Rightarrow> nat \<Rightarrow> lanes list \<Rightarrow> bool" where
  "accs_at x y k accs \<longleftrightarrow> length accs = 8 \<and> (\<forall>s \<in> set accs. length s = 16)
     \<and> addup (concat accs) (term_sum t (take k x) (take k y)) (term_abs t (take k x) (take k y))"

lemma avx_loop_at:
  assumes "ints a x" and "ints b y" and "length a = length b" and "term_abs t x y < 2 ^ 24" and "0 < w" and "w \<le> 8"
    and "accs_at x y k accs"
  shows "\<exists>k' accs'. avx_loop (map3 h) w (drop k a) (drop k b) accs = (drop k' a, drop k' b, accs') \<and> accs_at x y k' accs'
    \<and> length a - k' < 16 * w \<and> (16 dvd k \<longrightarrow> 16 dvd k')"
proof -
  have len: "length x = length y" using assms(1-3) by (auto simp: list_all2_lengthD)
  have i: "ints (drop k a) (drop k x)" "ints (drop k b) (drop k y)" using assms(1,2) by (auto intro: list_all2_dropI)
  have "term_abs t x y = term_abs t (take k x) (take k y) + term_abs t (drop k x) (drop k y)"
    unfolding term_abs_def by (rule term_sum_split [OF len])
  with assms(4) have lt: "term_abs t (take k x) (take k y) + term_abs t (drop k x) (drop k y) < 2 ^ 24" by linarith
  have s: "length accs = 8" "\<forall>s \<in> set accs. length s = 16" "addup (concat accs) (term_sum t (take k x) (take k y)) (term_abs t (take k x) (take k y))"
    using assms(7) by (simp_all add: accs_at_def)
  have l: "length (drop k a) = length (drop k b)" "w \<le> length accs" using assms(3,6) s(1) by simp_all
  from avx_loop_exact [OF i l(1) assms(5) l(2) s(2,3) lt] obtain j accs'
    where j: "avx_loop (map3 h) w (drop k a) (drop k b) accs = (drop j (drop k a), drop j (drop k b), accs')" "length (drop k a) - j < 16 * w"
      "16 dvd j" "length accs' = length accs" "\<forall>s \<in> set accs'. length s = 16"
      "addup (concat accs') (term_sum t (take k x) (take k y) + term_sum t (take j (drop k x)) (take j (drop k y)))
         (term_abs t (take k x) (take k y) + term_abs t (take j (drop k x)) (take j (drop k y)))" by blast
  have tk: "term_sum f (take (k + j) x) (take (k + j) y) = term_sum f (take k x) (take k y) + term_sum f (take j (drop k x)) (take j (drop k y))" for f
    unfolding take_add by (rule term_sum_append) (simp add: len)
  have "accs_at x y (k + j) accs'" using j(4-6) s(1) tk [of t] tk [of "\<lambda>a b. \<bar>t a b\<bar>"] by (simp add: accs_at_def term_abs_def)
  moreover have "avx_loop (map3 h) w (drop k a) (drop k b) accs = (drop (k + j) a, drop (k + j) b, accs')"
    using j(1) by (simp add: add.commute)
  moreover have "length a - (k + j) < 16 * w \<and> (16 dvd k \<longrightarrow> 16 dvd k + j)" using j(2,3) by simp
  ultimately show ?thesis by blast
qed

lemma avx512_exact:
  assumes "ints a x" and "ints b y" and "length a = length b" and "term_abs t x y < 2 ^ 24"
  shows "\<exists>r. avx512 (map3 h) a b = Some r \<and> exact r (term_sum t x y)"
proof -
  have len: "length x = length y" using assms(1-3) by (auto simp: list_all2_lengthD)
  have z: "accs_at x y 0 (replicate 8 (vzero 16))"
    unfolding accs_at_def concat_vzero by (simp add: term_sum_def term_abs_def) (simp add: vzero_def)
  note loop = avx_loop_at [OF assms]
  obtain k1 s1 where l1: "avx_loop (map3 h) 8 a b (replicate 8 (vzero 16)) = (drop k1 a, drop k1 b, s1)" "accs_at x y k1 s1"
    using loop [of 8, OF _ _ z] by auto
  obtain k2 s2 where l2: "avx_loop (map3 h) 4 (drop k1 a) (drop k1 b) s1 = (drop k2 a, drop k2 b, s2)" "accs_at x y k2 s2"
    using loop [of 4, OF _ _ l1(2)] by auto
  obtain k3 s3 where l3: "avx_loop (map3 h) 1 (drop k2 a) (drop k2 b) s2 = (drop k3 a, drop k3 b, s3)" "accs_at x y k3 s3" "length a - k3 < 16"
    using loop [of 1, OF _ _ l2(2)] by auto
  have i: "ints (drop k3 a) (drop k3 x)" "ints (drop k3 b) (drop k3 y)" using assms(1,2) by (auto intro: list_all2_dropI)
  have A: "term_abs t x y = term_abs t (take k3 x) (take k3 y) + term_abs t (drop k3 x) (drop k3 y)"
    unfolding term_abs_def by (rule term_sum_split [OF len])
  define s4 where "s4 = (if drop k3 a = [] then s3 else s3[1 := map3 h (load_part (drop k3 a)) (load_part (drop k3 b)) (s3 ! 1)])"
  have "length s4 = 8 \<and> (\<forall>s \<in> set s4. length s = 16)
      \<and> addup (concat s4) (term_sum t (take k3 x) (take k3 y) + term_sum t (drop k3 x) (drop k3 y))
          (term_abs t (take k3 x) (take k3 y) + term_abs t (drop k3 x) (drop k3 y))"
    unfolding s4_def by (rule avx_tail_exact [OF i]) (use assms(3,4) l3 A in \<open>simp_all add: accs_at_def\<close>)
  then have s4: "length s4 = 8" "\<forall>s \<in> set s4. length s = 16" "addup (concat s4) (term_sum t x y) (term_abs t x y)"
    using A term_sum_split [OF len, of t k3] by simp_all
  from reduce_exact [OF s4 assms(4)] have "exact (ConcatAddPairs (ConcatAddPairs (sumLanes (tree8 s4)) (sumLanes (tree8 s4))) (sumLanes (tree8 s4)) ! 0) (term_sum t x y)"
    by (simp add: ConcatAddPairs_def)
  moreover have "avx512 (map3 h) a b = Some (ConcatAddPairs (ConcatAddPairs (sumLanes (tree8 s4)) (sumLanes (tree8 s4))) (sumLanes (tree8 s4)) ! 0)"
  proof -
    have "take (length a) b = b" "\<not> length b < length a" using assms(3) by simp_all
    then show ?thesis by (simp only: avx512_def Let_def if_False l1(1) l2(1) l3(1) prod.case s4_def)
  qed
  ultimately show ?thesis by blast
qed

lemma fp16_blocks_exact:
  assumes "ints a x" and "ints (cvt16 row) y" and "length a = length row" and "16 dvd length a" and "term_abs t x y < 2 ^ 24"
  shows "exact (fp16_blocks (map3 h) a row) (term_sum t x y)"
proof -
  let ?b = "cvt16 row"
  have lb: "length a = length ?b" using assms(3) by (simp add: cvt16_def)
  then have len: "length x = length y" "length x = length a" using assms(1,2) by (auto simp: list_all2_lengthD)
  have z: "accs_at x y 0 (replicate 8 (vzero 16))"
    unfolding accs_at_def concat_vzero by (simp add: term_sum_def term_abs_def) (simp add: vzero_def)
  note loop = avx_loop_at [OF assms(1,2) lb assms(5)]
  obtain k1 s1 where l1: "avx_loop (map3 h) 8 a ?b (replicate 8 (vzero 16)) = (drop k1 a, drop k1 ?b, s1)" "accs_at x y k1 s1" "16 dvd k1"
    using loop [of 8, OF _ _ z] by auto
  obtain k2 s2 where l2: "avx_loop (map3 h) 1 (drop k1 a) (drop k1 ?b) s1 = (drop k2 a, drop k2 ?b, s2)" "accs_at x y k2 s2" "length a - k2 < 16" "16 dvd k2"
    using loop [of 1, OF _ _ l1(2)] l1(3) by auto
  have "length a \<le> k2"
  proof (rule ccontr)
    assume "\<not> length a \<le> k2"
    moreover have "16 dvd length a - k2" using assms(4) l2(4) by (rule dvd_diff_nat)
    ultimately show False using l2(3) by (auto dest: dvd_imp_le)
  qed
  then have s2: "length s2 = 8" "\<forall>s \<in> set s2. length s = 16" "addup (concat s2) (term_sum t x y) (term_abs t x y)"
    using l2(2) len by (simp_all add: accs_at_def)
  from reduce_exact [OF s2 assms(5)]
  have "exact (ConcatAddPairs (ConcatAddPairs (sumLanes (tree8 s2)) (sumLanes (tree8 s2))) (ConcatAddPairs (sumLanes (tree8 s2)) (sumLanes (tree8 s2))) ! 0) (term_sum t x y)"
    by (simp add: ConcatAddPairs_def)
  then show ?thesis by (simp only: fp16_blocks_def Let_def l1(1) l2(1) prod.case)
qed

lemma fp16_kernel_exact:
  assumes "ints a x" and "ints (map fp16ToFloat32 row) y" and "length a = length row" and "term_abs t x y < 2 ^ 24"
  shows "\<exists>r. fp16_kernel (fp16_blocks (map3 h)) g a row = Some r \<and> exact r (term_sum t x y)"
proof -
  let ?n = "length a div 16 * 16"
  have len: "length x = length y" "length x = length a" using list_all2_lengthD [OF assms(1)] list_all2_lengthD [OF assms(2)] assms(3) by simp_all
  have A: "term_abs t x y = term_abs t (take ?n x) (take ?n y) + term_abs t (drop ?n x) (drop ?n y)"
    unfolding term_abs_def by (rule term_sum_split [OF len(1)])
  have i: "ints (take ?n a) (take ?n x)" "ints (map fp16ToFloat32 (take ?n row)) (take ?n y)" "ints (drop ?n a) (drop ?n x)" "ints (map fp16ToFloat32 (drop ?n row)) (drop ?n y)"
    using assms(1,2) by (auto simp flip: take_map drop_map intro: list_all2_takeI list_all2_dropI)
  define s where "s = (if ?n > 0 then fp16_blocks (map3 h) (take ?n a) (take ?n row) else f32_0)"
  have lt: "term_abs t (take ?n x) (take ?n y) < 2 ^ 24" using A assms(4) term_abs_nonneg [of t "drop ?n x" "drop ?n y"] by linarith
  have s: "exact s (term_sum t (take ?n x) (take ?n y))"
  proof (cases "?n > 0")
    case True
    with fp16_blocks_exact [OF i(1) _ _ _ lt, of "take ?n row"] cvt16_exact [OF i(2)] i(2) assms(3) show ?thesis by (simp add: s_def)
  next
    case False
    then show ?thesis by (simp add: s_def exact_0 term_sum_def)
  qed
  have b: "\<bar>term_sum t (take ?n x) (take ?n y)\<bar> \<le> term_abs t (take ?n x) (take ?n y)"
    by (rule term_sum_le_abs)
  have fp: "fold_pairs (\<lambda>s x h. g s x (fp16ToFloat32 h)) s u v = fold_pairs g s u (map fp16ToFloat32 v)" for s u v
    by (induction "\<lambda>s x h. g s x (fp16ToFloat32 h)" s u v rule: fold_pairs.induct) simp_all
  from fold_pairs_exact [OF i(3,4) _ s b] A assms(3,4) obtain r where "fold_pairs g s (drop ?n a) (map fp16ToFloat32 (drop ?n row)) = Some r"
    "exact r (term_sum t (take ?n x) (take ?n y) + term_sum t (drop ?n x) (drop ?n y))" by auto
  moreover have "fp16_kernel (fp16_blocks (map3 h)) g a row = fold_pairs g s (drop ?n a) (map fp16ToFloat32 (drop ?n row))"
    using assms(3) by (simp add: fp16_kernel_def Let_def fp s_def)
  ultimately show ?thesis using term_sum_split [OF len(1), of t ?n] by (intro exI [of _ r]) (simp only: simp_thms)
qed

end

subsection \<open>Inner product and squared distance\<close>

definition l2_term :: "int \<Rightarrow> int \<Rightarrow> int" where "l2_term a b = (a - b) * (a - b)"

definition l2_lane :: "float32 \<Rightarrow> float32 \<Rightarrow> float32 \<Rightarrow> float32" where
  "l2_lane x y s = (let d = fsub x y in ffma d d s)"

lemma dot_lanes_map3: "dot_lanes = map3 ffma" "dot16_lanes = map3 ffma"
  by (simp_all add: fun_eq_iff dot_lanes_def dot16_lanes_def vfma_def map3_def)

lemma vfma_square: "vfma (vsub x y) (vsub x y) acc = map3 l2_lane x y acc"
proof (induction x arbitrary: y acc)
  case (Cons a x)
  then show ?case by (cases y; cases acc) (simp_all add: vfma_def vsub_def map3_def l2_lane_def Let_def)
qed (simp add: vfma_def vsub_def map3_def)

lemma map3_swap: "map3 h x y acc = map3 (\<lambda>b a s. h a b s) y x acc"
proof (induction x arbitrary: y acc)
  case (Cons a x)
  then show ?case by (cases y; cases acc) (simp_all add: map3_def)
qed (simp add: map3_def)

lemma l2_lanes_map3: "l2_lanes = map3 l2_lane" "l216_lanes = map3 (\<lambda>x h s. l2_lane h x s)"
  by (simp_all add: fun_eq_iff l2_lanes_def l216_lanes_def Let_def vfma_square) (simp add: map3_swap [of l2_lane])

lemma square_small: "\<bar>d * d\<bar> < 2 ^ 24 \<Longrightarrow> \<bar>d :: int\<bar> < 2 ^ 24"
proof (rule ccontr)
  assume "\<bar>d * d\<bar> < 2 ^ 24" and "\<not> \<bar>d\<bar> < 2 ^ 24"
  moreover from this have "(2 :: int) ^ 24 * 1 \<le> \<bar>d\<bar> * \<bar>d\<bar>" by (intro mult_mono) auto
  ultimately show False by (simp add: abs_mult)
qed

lemma l2_lane_exact:
  assumes "exact x a" and "exact y b" and "exact s c" and "\<bar>l2_term a b\<bar> < 2 ^ 24" and "\<bar>c + l2_term a b\<bar> < 2 ^ 24"
  shows "exact (l2_lane x y s) (c + l2_term a b)" and "exact (l2_step M s x y) (c + l2_term a b)"
proof -
  have d: "exact (fsub x y) (a - b)" using exact_sub [OF assms(1,2) square_small] assms(4) by (simp add: l2_term_def)
  from exact_fma [OF d d assms(3)] exact_mac [OF assms(3) d d] assms(4,5)
  show "exact (l2_lane x y s) (c + l2_term a b)" "exact (l2_step M s x y) (c + l2_term a b)"
    by (simp_all add: l2_lane_def l2_step_def l2_term_def Let_def add.commute)
qed

interpretation dotk: term_kernel ffma "dot_step M" "(*)" for M
  by unfold_locales (use exact_fma exact_mac in \<open>auto simp: dot_step_def add.commute\<close>)

interpretation l2k: term_kernel l2_lane "l2_step M" l2_term for M
  by unfold_locales (rule l2_lane_exact, assumption+, rule l2_lane_exact, assumption+, simp add: l2_term_def)

interpretation l2r: term_kernel "\<lambda>x h s. l2_lane h x s" "l2_step M" l2_term for M
proof (unfold_locales, goal_cases)
  case (1 x a y b s c)
  have "l2_term b a = l2_term a b" by (simp add: l2_term_def algebra_simps)
  with l2_lane_exact(1) [OF 1(2,1,3)] 1(4,5) show ?case by simp
next
  case (2 x a y b s c)
  then show ?case by (rule l2_lane_exact)
qed (simp add: l2_term_def)

text \<open>Every kernel of a machine that takes two rows of \<open>float32\<close>.\<close>

definition dot_kernels :: "machine \<Rightarrow> kernel list" where
  "dot_kernels M = [dotProductPure M, dotProductPortable M, dotProductAVX512, dotProduct M]"

definition l2_kernels :: "machine \<Rightarrow> kernel list" where
  "l2_kernels M = [l2SquaredPure M, l2SquaredPortable M, l2SquaredAVX512, l2Squared M]"

text \<open>Integers as a vector, to instantiate the theorems.\<close>

definition f32_2 :: float32 where "f32_2 = 0x40000000"
definition f32_3 :: float32 where "f32_3 = 0x40400000"

lemma exact_small: "exact f32_2 2" "exact f32_3 3"
proof -
  have "val32 f32_2 = Fin False 8388608 (-22)" "val32 f32_3 = Fin False 12582912 (-22)"
    by (simp_all add: f32_2_def f32_3_def val32_parts f32_e_def f32_f_def f32_s_def)
  then show "exact f32_2 2" "exact f32_3 3" by (simp_all add: exact_def rval_Fin power_int_def power_one_over)
qed

text \<open>
  C28. All inner-product kernels compute the inner product. For two vectors of integers whose products add up, in absolute value, to
  less than \<open>2 ^ 24\<close>, the plain loop, the portable lanes for any number of lanes, the AVX-512 version and, on a row of
  half-precision numbers, the assembly version return the exact inner product, with and without fused operations: the
  arrangement of the sum does not show.
\<close>

theorem dot_kernels_exact:
  assumes "ints a x" and "ints b y" and "length a = length b" and "term_abs (*) x y < 2 ^ 24"
  shows "(\<forall>k \<in> set (dot_kernels M). \<exists>r. k a b = Some r \<and> exact r (term_sum (*) x y))
    \<and> (\<forall>row. map fp16ToFloat32 row = b \<longrightarrow> (\<exists>r. dotFP16AVX512 M a row = Some r \<and> exact r (term_sum (*) x y)))"
proof -
  have p: "\<exists>r. dotProductPure M a b = Some r \<and> exact r (term_sum (*) x y)"
    using dotk.fold_pairs_exact [OF assms(1,2) _ exact_0, of 0] assms(3,4) by (simp add: dotProductPure_def)
  have q: "\<exists>r. dotProductPortable M a b = Some r \<and> exact r (term_sum (*) x y)"
    unfolding dotProductPortable_def dot_lanes_map3 by (rule dotk.portable_exact [OF assms])
  have v: "\<exists>r. dotProductAVX512 a b = Some r \<and> exact r (term_sum (*) x y)"
    unfolding dotProductAVX512_def dot_lanes_map3 by (rule dotk.avx512_exact [OF assms])
  have "\<exists>r. dotFP16AVX512 M a row = Some r \<and> exact r (term_sum (*) x y)" if "map fp16ToFloat32 row = b" for row
    unfolding dotFP16AVX512_def dotFP16Blocks_def dot_lanes_map3
    by (rule dotk.fp16_kernel_exact [OF assms(1) _ _ assms(4)]) (use assms(2,3) that in auto)
  with p q v show ?thesis by (simp add: dot_kernels_def dotProduct_def)
qed

definition M0 :: machine where "M0 = \<lparr>m_avx512 = False, m_lanes = 4, m_fuse = False\<rparr>"

theorem dot_kernels_exact_witness:
  "(\<exists>r. dotProductPure M0 (replicate 20 f32_2) (replicate 20 f32_3) = Some r \<and> exact r 120)
    \<and> (\<exists>r. dotProductPortable M0 (replicate 20 f32_2) (replicate 20 f32_3) = Some r \<and> exact r 120)
    \<and> (\<exists>r. dotProductAVX512 (replicate 20 f32_2) (replicate 20 f32_3) = Some r \<and> exact r 120)
    \<and> (\<exists>r. dotFP16AVX512 M0 (replicate 20 f32_2) (replicate 20 0x4200) = Some r \<and> exact r 120)"
proof -
  have i: "ints (replicate 20 f32_2) (replicate 20 2)" "ints (replicate 20 f32_3) (replicate 20 3)"
    using exact_small by (simp_all add: list_all2_conv_all_nth)
  have s: "term_sum (*) (replicate 20 2) (replicate 20 3) = 120" "term_abs (*) (replicate 20 2) (replicate 20 3) < 2 ^ 24"
    by (simp_all add: term_sum_def term_abs_def zip_replicate sum_list_replicate)
  have "map fp16ToFloat32 (replicate 20 0x4200) = replicate 20 f32_3" by code_simp
  with dot_kernels_exact [OF i _ s(2), of M0] s(1) show ?thesis by (simp add: dot_kernels_def)
qed

text \<open>
  C29. All squared-distance kernels compute the squared Euclidean distance, under the same condition on the squares of the differences.
\<close>

theorem l2_kernels_exact:
  assumes "ints a x" and "ints b y" and "length a = length b" and "term_abs l2_term x y < 2 ^ 24"
  shows "(\<forall>k \<in> set (l2_kernels M). \<exists>r. k a b = Some r \<and> exact r (term_sum l2_term x y))
    \<and> (\<forall>row. map fp16ToFloat32 row = b \<longrightarrow> (\<exists>r. l2FP16AVX512 M a row = Some r \<and> exact r (term_sum l2_term x y)))"
proof -
  have p: "\<exists>r. l2SquaredPure M a b = Some r \<and> exact r (term_sum l2_term x y)"
    using l2k.fold_pairs_exact [OF assms(1,2) _ exact_0, of 0] assms(3,4) by (simp add: l2SquaredPure_def)
  have q: "\<exists>r. l2SquaredPortable M a b = Some r \<and> exact r (term_sum l2_term x y)"
    unfolding l2SquaredPortable_def l2_lanes_map3 by (rule l2k.portable_exact [OF assms])
  have v: "\<exists>r. l2SquaredAVX512 a b = Some r \<and> exact r (term_sum l2_term x y)"
    unfolding l2SquaredAVX512_def l2_lanes_map3 by (rule l2k.avx512_exact [OF assms])
  have "\<exists>r. l2FP16AVX512 M a row = Some r \<and> exact r (term_sum l2_term x y)" if "map fp16ToFloat32 row = b" for row
    unfolding l2FP16AVX512_def l2FP16Blocks_def l2_lanes_map3
    by (rule l2r.fp16_kernel_exact [OF assms(1) _ _ assms(4)]) (use assms(2,3) that in auto)
  with p q v show ?thesis by (simp add: l2_kernels_def l2Squared_def)
qed

theorem l2_kernels_exact_witness:
  "(\<exists>r. l2SquaredPure M0 (replicate 20 f32_2) (replicate 20 f32_3) = Some r \<and> exact r 20)
    \<and> (\<exists>r. l2SquaredPortable M0 (replicate 20 f32_2) (replicate 20 f32_3) = Some r \<and> exact r 20)
    \<and> (\<exists>r. l2SquaredAVX512 (replicate 20 f32_2) (replicate 20 f32_3) = Some r \<and> exact r 20)
    \<and> (\<exists>r. l2FP16AVX512 M0 (replicate 20 f32_2) (replicate 20 0x4200) = Some r \<and> exact r 20)"
proof -
  have i: "ints (replicate 20 f32_2) (replicate 20 2)" "ints (replicate 20 f32_3) (replicate 20 3)"
    using exact_small by (simp_all add: list_all2_conv_all_nth)
  have s: "term_sum l2_term (replicate 20 2) (replicate 20 3) = 20" "term_abs l2_term (replicate 20 2) (replicate 20 3) < 2 ^ 24"
    by (simp_all add: term_sum_def term_abs_def l2_term_def zip_replicate sum_list_replicate)
  have "map fp16ToFloat32 (replicate 20 0x4200) = replicate 20 f32_3" by code_simp
  with l2_kernels_exact [OF i _ s(2), of M0] s(1) show ?thesis by (simp add: l2_kernels_def)
qed

subsection \<open>The cosine distance\<close>

lemma rval_less:
  assumes "finite_val x" and "finite_val y"
  shows "val_less x y \<longleftrightarrow> rval x < rval y"
proof -
  obtain s m e where x: "x = Fin s m e" by (rule finite_valE [OF assms(1)])
  obtain t n f where y: "y = Fin t n f" by (rule finite_valE [OF assms(2)])
  show ?thesis
    unfolding x y rval_align [OF min.cobounded1 [of e f], of s m] rval_align [OF min.cobounded2 [of e f], of t n]
    by (simp add: val_less_def Let_def)
qed

lemma special_vals: "val32 (of_val32 NaN) = NaN" "val32 f32_1 = Fin False 8388608 (-23)" "val32 f32_m1 = Fin True 8388608 (-23)"
proof -
  have "of_val32 NaN = 0x7FC00000" by (simp add: of_val32_def encode_def nan_bits_def)
  then show "val32 (of_val32 NaN) = NaN" by (simp add: val32_parts f32_e_def f32_f_def f32_s_def)
  show "val32 f32_1 = Fin False 8388608 (-23)" "val32 f32_m1 = Fin True 8388608 (-23)"
    by (simp_all add: f32_1_def f32_m1_def val32_parts f32_e_def f32_f_def f32_s_def)
qed

lemma rval_ones: "rval (val32 f32_1) = 1" "rval (val32 f32_m1) = -1"
  by (simp_all add: special_vals rval_Fin power_int_def power_one_over)

text \<open>A number up to 2 is rounded to a number up to 2.\<close>

lemma round_up_to_2:
  assumes "real n * 2 powi e \<le> 2"
  shows "\<exists>m f. val32 (of_val32 (Fin s n e)) = Fin s m f \<and> real m * 2 powi f \<le> 2"
proof (cases "n = 0")
  case True
  with val32_of_val32 [of 0 0 s] round_mag_scale show ?thesis by (auto simp: of_val32_def encode_def round_mag_def)
next
  case False
  from bitlen_bounds [OF False] have "real (2 ^ (bitlen n - 1)) \<le> real n" and b0: "0 < bitlen n" unfolding of_nat_le_iff by simp_all
  then have "real (2 ^ (bitlen n - 1)) * 2 powi e \<le> 2" 
    using mult_right_mono [of "real (2 ^ (bitlen n - 1))" "real n" "2 powi e"] assms by (meson order_trans zero_le_power_int zero_le_numeral)
  then have "2 powi (int (bitlen n - 1) + e) \<le> (2 :: real) powi 1" by (simp add: power_int_add)
  then have "int (bitlen n - 1) + e \<le> 1" by (rule power_int_le_imp_le_exp [of "2 :: real", rotated]) simp_all
  then have e: "round_exp F32 n e \<le> 127" using b0 by (simp add: round_exp_def)
  have f: "round_frac F32 n e \<le> 2 ^ 24" using round_frac_le [of F32 23 n e] False by simp
  have lt: "round_mag F32 n e < 2139095040"
    using mult_right_mono [OF e, of 8388608] f by (simp add: round_mag_frac [OF False])
  obtain m f where m: "mag_val F32 s (round_mag F32 n e) = Fin s m f" "\<bar>real m * 2 powi f - real n * 2 powi e\<bar> \<le> \<bar>2 - real n * 2 powi e\<bar>"
    using round_nearest [of F32 n e False "1073741824" False 8388608 "-22" 2 s] lt
    by (auto simp: mag_val_def power_int_def power_one_over)
  have "unat (of_val32 (Fin s n e)) = signed F32 s (round_mag F32 n e)"
    unfolding of_val32_def encode_def fval.case by (rule unat_u32) (use lt in \<open>simp add: signed_def\<close>)
  with m(1) lt decode_signed [of "round_mag F32 n e" F32 s] have "val32 (of_val32 (Fin s n e)) = Fin s m f" by (simp add: val32_def)
  moreover have "real m * 2 powi f \<le> 2" using m(2) assms by linarith
  ultimately show ?thesis by blast
qed

definition in_cosine_range :: "float32 \<Rightarrow> bool" where
  "in_cosine_range r \<longleftrightarrow> finite_val (val32 r) \<and> 0 \<le> rval (val32 r) \<and> rval (val32 r) \<le> 2"

lemma one_minus_range:
  assumes "finite_val (val32 x)" and "-1 \<le> rval (val32 x)" and "rval (val32 x) \<le> 1"
  shows "in_cosine_range (fsub f32_1 x)"
proof -
  let ?v = "val_add (val32 f32_1) (val_neg (val32 x))"
  have v: "finite_val ?v" "rval ?v = 1 - rval (val32 x)" using rval_add [of "val32 f32_1" "val_neg (val32 x)"] assms(1) rval_ones by (simp_all add: special_vals)
  then obtain s n e where f: "?v = Fin s n e" by (meson finite_valE)
  have n0: "real n * 2 powi e \<ge> 0" by simp
  have q: "(if s then - (real n * 2 powi e) else real n * 2 powi e) = 1 - rval (val32 x)" using v(2) [unfolded f rval_Fin] .
  have r1: "real n * 2 powi e \<le> 2"
  proof (cases s)
    case True
    then have "- (real n * 2 powi e) = 1 - rval (val32 x)" using q by (simp only: if_True)
    with assms(3) show ?thesis by linarith
  next
    case False
    then have "real n * 2 powi e = 1 - rval (val32 x)" using q by (simp only: if_False)
    with assms(2) show ?thesis by linarith
  qed
  have r2: "real n * 2 powi e = 0" if s
  proof -
    have "- (real n * 2 powi e) = 1 - rval (val32 x)" using q that by (simp only: if_True)
    with n0 assms(3) show ?thesis by linarith
  qed
  from round_up_to_2 [OF r1, of s] obtain m g where m: "val32 (of_val32 (Fin s n e)) = Fin s m g" "real m * 2 powi g \<le> 2" by blast
  moreover have "m = 0" if s
  proof -
    have "n = 0" using r2 [OF that] by simp
    then have "of_val32 (Fin s n e) = 0x80000000" using that by (simp add: of_val32_def encode_def round_mag_def signed_def)
    then have "val32 (of_val32 (Fin s n e)) = Fin True 0 (-149)" by (simp add: val32_parts f32_e_def f32_f_def f32_s_def)
    with m(1) show ?thesis by simp
  qed
  ultimately show ?thesis by (auto simp: in_cosine_range_def fsub_def f rval_Fin)
qed

lemma cosine_finish_range:
  "case cosine_finish s of Inl err \<Rightarrow> err = ErrZeroVector | Inr r \<Rightarrow> IsNaN r \<or> in_cosine_range r"
proof -
  obtain d a b where s: "s = (d, a, b)" by (cases s)
  define x where "x = fdiv d (f32_of_f64 (fmul64 (math_Sqrt (f64_of_f32 a)) (math_Sqrt (f64_of_f32 b))))"
  define y where "y = (if flt f32_1 x then f32_1 else if flt x f32_m1 then f32_m1 else x)"
  have "IsNaN (fsub f32_1 y) \<or> in_cosine_range (fsub f32_1 y)"
  proof (cases "val32 x")
    case NaN
    then have "y = x" by (simp add: y_def flt_def val_less_def special_vals)
    with NaN show ?thesis by (simp add: IsNaN_def fsub_def val_add_def val_neg_def special_vals)
  next
    case (Inf t)
    then have "y = f32_1 \<or> y = f32_m1" by (auto simp: y_def flt_def val_less_def special_vals)
    then show ?thesis using rval_ones one_minus_range [of y] by (auto simp: special_vals)
  next
    case (Fin t m e)
    then have "finite_val (val32 y) \<and> -1 \<le> rval (val32 y) \<and> rval (val32 y) \<le> 1"
      using rval_less [of "val32 f32_1" "val32 x"] rval_less [of "val32 x" "val32 f32_m1"] rval_ones
      by (auto simp: y_def flt_def special_vals)
    then show ?thesis using one_minus_range [of y] by simp
  qed
  moreover have "cosine_finish s = (if feq a f32_0 \<or> feq b f32_0 then Inl ErrZeroVector else Inr (fsub f32_1 y))"
    by (simp only: s cosine_finish_def Let_def prod.case x_def y_def)
  ultimately show ?thesis by simp
qed

lemma fold_pairs_returns: "length a \<le> length b \<Longrightarrow> \<exists>r. fold_pairs f s a b = Some r"
  by (induction f s a b rule: fold_pairs.induct) auto

lemma portable_loop_returns: "n * vl \<le> length b \<Longrightarrow> \<exists>r. portable_loop f vl n a b acc = Some r"
  by (induction f vl n a b acc rule: portable_loop.induct) auto


end
