(* ===== verification/Table_Properties.thy ===== *)
theory Table_Properties
  imports Table Vector_Properties
begin

text \<open>
  Properties of the table. \<open>table_ok\<close> is its well-formedness: every operation keeps it and none panics on such a table. \<open>docs\<close> is what
  the table stands for, a map from identifiers to documents; \<open>Upsert\<close>, \<open>Delete\<close> and \<open>Get\<close> are merging, removal and lookup in
  that map. A search returns the best documents, in order.
\<close>

subsection \<open>Slices and maps\<close>

lemma fmtraverse_SomeI:
  assumes "\<And>k v. fmlookup m k = Some v \<Longrightarrow> \<exists>w. f k v = Some w"
  shows "\<exists>m'. fmtraverse f m = Some m' \<and> (\<forall>k. fmlookup m' k = Option.bind (fmlookup m k) (f k))"
proof -
  have "fmpred (\<lambda>k v. f k v \<noteq> None) m" using assms by (fastforce intro: fmpredI)
  moreover have "fmlookup (fmmap_keys (\<lambda>k v. the (f k v)) m) k = Option.bind (fmlookup m k) (f k)" for k
    using assms [of k] by (cases "fmlookup m k") auto
  ultimately show ?thesis by (simp add: fmtraverse_def)
qed

lemma row_bound: "r < n \<Longrightarrow> r * d + d \<le> n * (d :: nat)"
proof -
  assume "r < n"
  then have "Suc r * d \<le> n * d" by (intro mult_right_mono) auto
  then show ?thesis by simp
qed

lemma slice_copy_at:
  assumes "copy_at (row * d) d src xs = Some ys" and "length src = d" and "length xs = n * d" and "r < n" and "row < n"
  shows "length ys = n * d \<and> slice (r * d) d ys = (if r = row then Some src else slice (r * d) d xs)"
proof -
  have b: "row * d + d \<le> length xs" "r * d + d \<le> length xs" using row_bound assms(3-5) by auto
  have ys: "ys = take (row * d) xs @ src @ drop (row * d + d) xs" using assms(1,2) b by (simp add: copy_at_def)
  then have l: "length ys = n * d" using b assms(2,3) by simp
  have "take d (drop (r * d) ys) = (if r = row then src else take d (drop (r * d) xs))"
  proof (cases r row rule: linorder_cases)
    case less
    then have lt: "r * d + d \<le> row * d" by (rule row_bound)
    have "take d (drop (r * d) ys) = take d (drop (r * d) (take (row * d) xs))" using lt b by (simp add: ys)
    also have "\<dots> = take d (drop (r * d) xs)" using lt by (simp add: drop_take min_def)
    finally show ?thesis using less by simp
  next
    case equal
    then show ?thesis using b ys assms(2) by simp
  next
    case greater
    then have "row * d + d \<le> r * d" by (rule row_bound)
    then obtain k where k: "r * d = k + (row * d + d)" by (metis add.commute le_iff_add)
    have "drop (row * d + d) ys = drop (row * d + d) xs" using b(1) assms(2) by (simp add: ys)
    then have "drop (r * d) ys = drop (r * d) xs" unfolding k by (metis drop_drop)
    then show ?thesis using greater by simp
  qed
  then show ?thesis using b l assms(3) by (simp add: slice_def)
qed

lemma slice_append:
  assumes "length xs = n * d" and "length ys = d" and "r < Suc n"
  shows "slice (r * d) d (xs @ ys) = (if r = n then Some ys else slice (r * d) d xs)"
proof (cases "r = n")
  case False
  then have "r * d + d \<le> length xs" using row_bound [of r n d] assms by simp
  then show ?thesis using False by (simp add: slice_def)
qed (use assms in \<open>simp add: slice_def\<close>)

lemma slice_replicate: "r < n \<Longrightarrow> slice (r * d) d (replicate (n * d) x) = Some (replicate d x)"
  using row_bound [of r n d] by (simp add: slice_def min_def)

subsection \<open>Well-formed tables\<close>

definition kernels_ok :: "Kernels \<Rightarrow> bool" where
  "kernels_ok K \<longleftrightarrow>
     (if k_Dot16 K \<noteq> None
      then (\<exists>f g h. k_Dot16 K = Some f \<and> k_L216 K = Some g \<and> k_Decode16 K = Some h
             \<and> (\<forall>q r. length q = length r \<longrightarrow> f q r \<noteq> None \<and> g q r \<noteq> None)
             \<and> (\<forall>dst r. length dst = length r \<longrightarrow> h dst r \<noteq> None))
      else (\<exists>f g. k_Dot K = Some f \<and> k_L2 K = Some g \<and> (\<forall>q r. length q = length r \<longrightarrow> f q r \<noteq> None \<and> g q r \<noteq> None)))"

definition col_ok :: "bool \<Rightarrow> nat \<Rightarrow> flatVectorCol \<Rightarrow> bool" where
  "col_ok half n c \<longleftrightarrow> 0 < vc_dim c \<and> length (vc_hasVec c) = n \<and> length (vc_invNorms c) = n
     \<and> (if half then \<exists>d. vc_data16 c = Some d \<and> length d = n * vc_dim c else vc_data16 c = None \<and> length (vc_data c) = n * vc_dim c)"

definition table_ok :: "Table \<Rightarrow> bool" where
  "table_ok t \<longleftrightarrow> kernels_ok (tb_kernels t) \<and> length (tb_docIDs t) = tb_numRows t \<and> length (tb_tombstones t) = tb_numRows t
     \<and> (\<forall>docID row. fmlookup (tb_index t) docID = Some row \<longleftrightarrow> row < tb_numRows t \<and> tb_docIDs t ! row = docID)
     \<and> '''' \<notin> set (tb_docIDs t)
     \<and> (\<forall>col c. fmlookup (tb_vectors t) col = Some c \<longrightarrow> col_ok (is16 t) (tb_numRows t) c)
     \<and> (\<forall>k a. fmlookup (tb_attrs t) k = Some a \<longrightarrow> length a = tb_numRows t)"

definition staged_ok :: "Table \<Rightarrow> staging \<Rightarrow> bool" where
  "staged_ok t staged \<longleftrightarrow> (\<forall>col sv. fmlookup staged col = Some sv \<longrightarrow> sv_values sv \<noteq> []
     \<and> (is16 t \<longrightarrow> (\<exists>d. sv_data16 sv = Some d \<and> length d = length (sv_values sv)))
     \<and> (\<forall>c. fmlookup (tb_vectors t) col = Some c \<longrightarrow> vc_dim c = length (sv_values sv)))"

subsection \<open>What a table stands for\<close>

type_synonym document = "(string \<rightharpoonup> float32 list) \<times> (string \<rightharpoonup> AttributeValue)"

definition vec_of :: "Table \<Rightarrow> nat \<Rightarrow> string \<rightharpoonup> float32 list" where
  "vec_of t row col = (case fmlookup (tb_vectors t) col of None \<Rightarrow> None | Some c \<Rightarrow> if vc_hasVec c ! row then vector_at t row c else None)"

definition attr_of :: "Table \<Rightarrow> nat \<Rightarrow> string \<rightharpoonup> AttributeValue" where
  "attr_of t row k = (case fmlookup (tb_attrs t) k of None \<Rightarrow> None | Some a \<Rightarrow> a ! row)"

definition docs :: "Table \<Rightarrow> string \<rightharpoonup> document" where
  "docs t docID = (case fmlookup (tb_index t) docID of
     None \<Rightarrow> None
   | Some row \<Rightarrow> if tb_tombstones t ! row then None else Some (vec_of t row, attr_of t row))"

text \<open>The value a vector has once it is stored: itself, or what half precision leaves of it.\<close>

definition stored :: "Table \<Rightarrow> stagedVector \<Rightarrow> float32 list option" where
  "stored t sv = (if is16 t then (case (sv_data16 sv, k_Decode16 (tb_kernels t)) of
       (Some h, Some f) \<Rightarrow> f (replicate (length (sv_values sv)) f32_0) h | _ \<Rightarrow> None) else Some (sv_values sv))"

subsection \<open>One column\<close>

lemma vector_at_cong: "tb_kernels t' = tb_kernels t \<Longrightarrow> vc_dim c' = vc_dim c \<Longrightarrow> vc_data16 c' = vc_data16 c \<Longrightarrow> vc_data c' = vc_data c
    \<Longrightarrow> vector_at t' r c' = vector_at t r c"
  by (simp add: vector_at_def Let_def split: option.split)

lemma vector_at_returns:
  assumes "kernels_ok (tb_kernels t)" and "col_ok (is16 t) n c" and "r < n"
  shows "\<exists>v. vector_at t r c = Some v"
  using assms row_bound [OF assms(3), of "vc_dim c"]
  by (auto simp: vector_at_def col_ok_def kernels_ok_def is16_def slice_def Let_def split: if_splits)

lemma write_vector_ok:
  assumes c: "col_ok (is16 t) n c" and row: "row < n" and d: "vc_dim c = length (sv_values sv)"
    and h: "is16 t \<Longrightarrow> \<exists>d. sv_data16 sv = Some d \<and> length d = length (sv_values sv)"
  shows "\<exists>c'. write_vector (is16 t) row sv c = Some c' \<and> col_ok (is16 t) n c' \<and> vc_hasVec c' = (vc_hasVec c)[row := True]
    \<and> (\<forall>r < n. vector_at t r c' = (if r = row then stored t sv else vector_at t r c))"
proof (cases "is16 t")
  case True
  from h [OF True] obtain s where s: "sv_data16 sv = Some s" "length s = vc_dim c" using d by auto
  from c True obtain x where x: "vc_data16 c = Some x" "length x = n * vc_dim c" by (auto simp: col_ok_def)
  have b: "row * vc_dim c + vc_dim c \<le> length x" using row_bound [OF row, of "vc_dim c"] x(2) by simp
  then obtain y where y: "copy_at (row * vc_dim c) (vc_dim c) s x = Some y" by (simp add: copy_at_def Let_def)
  note sl = slice_copy_at [OF y s(2) x(2) _ row]
  define c' where "c' = c\<lparr>vc_data16 := Some y, vc_hasVec := (vc_hasVec c)[row := True], vc_invNorms := (vc_invNorms c)[row := sv_invNorm sv]\<rparr>"
  have "write_vector (is16 t) row sv c = Some c'"
    using True c row s x y by (simp add: write_vector_def put_at_def col_ok_def Let_def c'_def)
  moreover have "col_ok (is16 t) n c'" using c sl [OF row] True by (simp add: col_ok_def c'_def)
  moreover have "vector_at t r c' = (if r = row then stored t sv else vector_at t r c)" if "r < n" for r
    using sl [OF that] True s d x by (simp add: vector_at_def c'_def stored_def Let_def split: option.splits)
  ultimately show ?thesis by (auto simp: c'_def)
next
  case False
  from c False have x: "vc_data16 c = None" "length (vc_data c) = n * vc_dim c" by (auto simp: col_ok_def)
  have b: "row * vc_dim c + vc_dim c \<le> length (vc_data c)" using row_bound [OF row, of "vc_dim c"] x(2) by simp
  then obtain y where y: "copy_at (row * vc_dim c) (vc_dim c) (sv_values sv) (vc_data c) = Some y" by (simp add: copy_at_def Let_def)
  note sl = slice_copy_at [OF y _ x(2) _ row]
  define c' where "c' = c\<lparr>vc_data := y, vc_hasVec := (vc_hasVec c)[row := True], vc_invNorms := (vc_invNorms c)[row := sv_invNorm sv]\<rparr>"
  have "write_vector (is16 t) row sv c = Some c'"
    using False c row x y by (simp add: write_vector_def put_at_def col_ok_def Let_def c'_def)
  moreover have "col_ok (is16 t) n c'" using c sl [OF _ row] False d by (simp add: col_ok_def c'_def)
  moreover have "vector_at t r c' = (if r = row then stored t sv else vector_at t r c)" if "r < n" for r
    using sl [OF _ that] False d x by (simp add: vector_at_def c'_def stored_def Let_def)
  ultimately show ?thesis by (auto simp: c'_def)
qed

lemma append_vector_ok:
  assumes c: "col_ok (is16 t) n c"
    and sv: "\<And>sv. so = Some sv \<Longrightarrow> vc_dim c = length (sv_values sv) \<and> (is16 t \<longrightarrow> (\<exists>d. sv_data16 sv = Some d \<and> length d = length (sv_values sv)))"
  defines "c' \<equiv> append_vector (is16 t) so c"
  shows "col_ok (is16 t) (Suc n) c'" and "vc_hasVec c' = vc_hasVec c @ [so \<noteq> None]"
    and "r < n \<Longrightarrow> vector_at t r c' = vector_at t r c" and "so = Some s \<Longrightarrow> vector_at t n c' = stored t s"
proof -
  have dim: "vc_dim c' = vc_dim c" and has: "vc_hasVec c' = vc_hasVec c @ [so \<noteq> None]" and norms: "length (vc_invNorms c') = Suc n"
    using c by (auto simp: c'_def append_vector_def Let_def col_ok_def split: option.split)
  obtain new16 new where
    new: "is16 t \<Longrightarrow> vc_data16 c' = Some ((case vc_data16 c of None \<Rightarrow> [] | Some d \<Rightarrow> d) @ new16) \<and> length new16 = vc_dim c
        \<and> (\<forall>s. so = Some s \<longrightarrow> sv_data16 s = Some new16)"
      "\<not> is16 t \<Longrightarrow> vc_data16 c' = vc_data16 c \<and> vc_data c' = vc_data c @ new \<and> length new = vc_dim c \<and> (\<forall>s. so = Some s \<longrightarrow> sv_values s = new)"
    using sv by (cases so) (fastforce simp: c'_def append_vector_def Let_def)+
  show "vc_hasVec c' = vc_hasVec c @ [so \<noteq> None]" by (rule has)
  show ok: "col_ok (is16 t) (Suc n) c'" using c new dim has norms by (auto simp: col_ok_def)
  show "vector_at t r c' = vector_at t r c" if "r < n" for r
    using that c new dim slice_append [of "vc_data c" n "vc_dim c" new r]
    by (cases "is16 t") (auto simp: col_ok_def vector_at_def Let_def slice_append split: option.split)
  show "vector_at t n c' = stored t s" if "so = Some s"
  proof (cases "is16 t")
    case True
    from c True obtain d where d: "vc_data16 c = Some d" "length d = n * vc_dim c" by (auto simp: col_ok_def)
    from new(1) [OF True] d(1) that have n: "vc_data16 c' = Some (d @ new16)" "length new16 = vc_dim c" "sv_data16 s = Some new16" by auto
    have "slice (n * vc_dim c) (vc_dim c) (d @ new16) = Some new16" using slice_append [OF d(2) n(2), of n] by simp
    with n True sv [OF that] dim show ?thesis by (simp add: vector_at_def stored_def Let_def split: option.split)
  next
    case False
    from c False have d: "vc_data16 c = None" "length (vc_data c) = n * vc_dim c" by (auto simp: col_ok_def)
    from new(2) [OF False] d(1) that have n: "vc_data16 c' = None" "vc_data c' = vc_data c @ new" "length new = vc_dim c" "sv_values s = new" by auto
    have "slice (n * vc_dim c) (vc_dim c) (vc_data c @ new) = Some new" using slice_append [OF d(2) n(3), of n] by simp
    with n False dim show ?thesis by (simp add: vector_at_def stored_def Let_def)
  qed
qed

subsection \<open>Staging\<close>

definition stage_one :: "machine \<Rightarrow> Table \<Rightarrow> float32 list \<Rightarrow> stagedVector" where
  "stage_one M t v = \<lparr>sv_values = v, sv_data16 = (if is16 t then Some (snd (EncodeFP16 (replicate (length v) 0) v)) else None),
     sv_invNorm = vectorInvNorm M v\<rparr>"

lemma length_EncodeFP16: "length src \<le> length dst \<Longrightarrow> length (snd (EncodeFP16 dst src)) = length dst"
  using encode16_loop_spec [of 0 src dst] length_takeWhile_le [of "\<lambda>x. fp16_err x = None" src] by (simp add: EncodeFP16_def Let_def)

lemma stage_loop_spec:
  assumes "stage_loop M t vectors staged = Inr staged'" and "staged_ok t staged" and "distinct (map fst vectors)"
  shows "staged_ok t staged' \<and> (\<forall>col. fmlookup staged' col =
    (case map_of vectors col of None \<Rightarrow> fmlookup staged col | Some v \<Rightarrow> if v = [] then fmlookup staged col else Some (stage_one M t v)))"
  using assms
proof (induction vectors arbitrary: staged)
  case (Cons p vectors)
  obtain col vec where p: "p = (col, vec)" by (cases p)
  have none: "map_of vectors col = None" "distinct (map fst vectors)" using Cons.prems(3) by (simp_all add: p map_of_eq_None_iff)
  show ?case
  proof (cases "vec = []")
    case True
    with Cons.IH [of staged] Cons.prems none show ?thesis by (auto simp: p)
  next
    case False
    with Cons.prems(1) have dim: "\<And>c. fmlookup (tb_vectors t) col = Some c \<Longrightarrow> vc_dim c = length vec"
      by (auto simp: p split: if_splits option.splits)
    have "staged_ok t (fmupd col (stage_one M t vec) staged)"
      using Cons.prems(2) False dim by (auto simp: staged_ok_def stage_one_def length_EncodeFP16)
    moreover have "stage_loop M t vectors (fmupd col (stage_one M t vec) staged) = Inr staged'"
      using Cons.prems(1) False by (auto simp: p stage_one_def Let_def split: if_splits option.splits prod.splits)
    ultimately show ?thesis using Cons.IH [of "fmupd col (stage_one M t vec) staged"] none False by (auto simp: p split: option.splits)
  qed
qed simp

subsection \<open>New columns\<close>

lemma is16_simps [simp]:
  "is16 (t\<lparr>tb_vectors := v\<rparr>) = is16 t" "is16 (t\<lparr>tb_attrs := a\<rparr>) = is16 t" "is16 (t\<lparr>tb_tombstones := b\<rparr>) = is16 t"
  by (simp_all add: is16_def)

lemma new_vector_col_ok: "sv_values sv \<noteq> [] \<Longrightarrow> col_ok (is16 t) (tb_numRows t) (new_vector_col t sv)"
  by (simp add: col_ok_def new_vector_col_def Let_def)

lemma add_columns_ok:
  fixes attrs :: attributes
  assumes "table_ok t" and "staged_ok t staged"
  defines "t' \<equiv> add_columns staged attrs t"
  shows "table_ok t'" and "staged_ok t' staged" and "\<And>col sv. fmlookup staged col = Some sv \<Longrightarrow> \<exists>c. fmlookup (tb_vectors t') col = Some c"
    and "\<And>k v. fmlookup attrs k = Some (Some v) \<Longrightarrow> \<exists>a. fmlookup (tb_attrs t') k = Some a"
    and "r < tb_numRows t \<Longrightarrow> vec_of t' r = vec_of t r" and "r < tb_numRows t \<Longrightarrow> attr_of t' r = attr_of t r"
    and "tb_index t' = tb_index t" and "tb_tombstones t' = tb_tombstones t" and "tb_numRows t' = tb_numRows t" and "tb_kernels t' = tb_kernels t"
    and "tb_docIDs t' = tb_docIDs t"
proof -
  have h: "is16 t' = is16 t" by (simp add: t'_def add_columns_def is16_def)
  have v: "fmlookup (tb_vectors t') col =
      (case fmlookup (tb_vectors t) col of Some c \<Rightarrow> Some c | None \<Rightarrow> map_option (new_vector_col t) (fmlookup staged col))" for col
    by (auto simp: t'_def add_columns_def split: option.split intro: fmdomI)
  have a: "fmlookup (tb_attrs t') k =
      (case fmlookup (tb_attrs t) k of Some c \<Rightarrow> Some c
       | None \<Rightarrow> (case fmlookup attrs k of Some (Some v) \<Rightarrow> Some (replicate (tb_numRows t) None) | _ \<Rightarrow> None))" for k
    by (auto simp: t'_def add_columns_def split: option.split intro: fmdomI)
  show eqs: "tb_index t' = tb_index t" "tb_tombstones t' = tb_tombstones t" "tb_numRows t' = tb_numRows t" "tb_kernels t' = tb_kernels t"
    "tb_docIDs t' = tb_docIDs t" by (simp_all add: t'_def add_columns_def)
  show "table_ok t'"
    using assms(1,2) unfolding table_ok_def eqs h v a
    by (auto simp: staged_ok_def intro: new_vector_col_ok split: option.splits)
  show "staged_ok t' staged"
    using assms(2) unfolding staged_ok_def h v by (auto simp: new_vector_col_def Let_def split: option.splits)
  show "\<exists>c. fmlookup (tb_vectors t') col = Some c" if "fmlookup staged col = Some sv" for col sv
    using that by (auto simp: v split: option.split)
  show "\<exists>b. fmlookup (tb_attrs t') k = Some b" if "fmlookup attrs k = Some (Some w)" for k w
    using that by (auto simp: a split: option.split)
  show "vec_of t' r = vec_of t r" if "r < tb_numRows t"
    using that eqs(4) by (auto simp: fun_eq_iff vec_of_def v new_vector_col_def Let_def vector_at_def split: option.split)
  show "attr_of t' r = attr_of t r" if "r < tb_numRows t"
    using that by (auto simp: fun_eq_iff attr_of_def a split: option.split)
qed

subsection \<open>Rows\<close>

text \<open>Reviving a row forgets the vectors and attributes the new version does not mention.\<close>

lemma revive_row_ok:
  assumes t: "table_ok t" and row: "row < tb_numRows t"
  shows "\<exists>t'. revive_row staged attrs row t = Some t' \<and> table_ok t' \<and> (\<exists>vs as. t' = t\<lparr>tb_attrs := as, tb_vectors := vs\<rparr>)
    \<and> (\<forall>col. map_option vc_dim (fmlookup (tb_vectors t') col) = map_option vc_dim (fmlookup (tb_vectors t) col))
    \<and> (\<forall>k. fmlookup (tb_attrs t') k = None \<longleftrightarrow> fmlookup (tb_attrs t) k = None)
    \<and> (\<forall>r < tb_numRows t. r \<noteq> row \<longrightarrow> vec_of t' r = vec_of t r \<and> attr_of t' r = attr_of t r)
    \<and> (\<forall>col. vec_of t' row col = (if col |\<in>| fmdom staged then vec_of t row col else None))
    \<and> (\<forall>k. attr_of t' row k = (if k |\<in>| fmdom attrs then attr_of t row k else None))"
proof -
  let ?fa = "\<lambda>k aCol. if k |\<in>| fmdom attrs then Some aCol else put_at row None aCol"
  let ?fv = "\<lambda>col vCol. if col |\<in>| fmdom staged then Some vCol
    else (case put_at row False (vc_hasVec vCol) of None \<Rightarrow> None
          | Some has \<Rightarrow> (case put_at row f32_0 (vc_invNorms vCol) of None \<Rightarrow> None
              | Some norms \<Rightarrow> Some (vCol\<lparr>vc_hasVec := has, vc_invNorms := norms\<rparr>)))"
  have la: "length a = tb_numRows t" if "fmlookup (tb_attrs t) k = Some a" for k a using t that by (simp add: table_ok_def)
  have lc: "col_ok (is16 t) (tb_numRows t) c" if "fmlookup (tb_vectors t) col = Some c" for col c using t that by (simp add: table_ok_def)
  have fa: "?fa k a = Some (if k |\<in>| fmdom attrs then a else a[row := None])" if "fmlookup (tb_attrs t) k = Some a" for k a
    using la [OF that] row by (simp add: put_at_def)
  have fv: "?fv col c = Some (if col |\<in>| fmdom staged then c else c\<lparr>vc_hasVec := (vc_hasVec c)[row := False], vc_invNorms := (vc_invNorms c)[row := f32_0]\<rparr>)"
    if "fmlookup (tb_vectors t) col = Some c" for col c
    using lc [OF that] row by (simp add: put_at_def col_ok_def)
  obtain as where as: "fmtraverse ?fa (tb_attrs t) = Some as" "\<And>k. fmlookup as k = Option.bind (fmlookup (tb_attrs t) k) (?fa k)"
    using fmtraverse_SomeI [of "tb_attrs t" ?fa] fa by blast
  obtain vs where vs: "fmtraverse ?fv (tb_vectors t) = Some vs" "\<And>k. fmlookup vs k = Option.bind (fmlookup (tb_vectors t) k) (?fv k)"
    using fmtraverse_SomeI [of "tb_vectors t" ?fv] fv by blast
  have as': "fmlookup as k = map_option (\<lambda>a. if k |\<in>| fmdom attrs then a else a[row := None]) (fmlookup (tb_attrs t) k)" for k
    by (cases "fmlookup (tb_attrs t) k") (simp_all add: as(2) fa)
  have vs': "fmlookup vs col = map_option (\<lambda>c. if col |\<in>| fmdom staged then c
      else c\<lparr>vc_hasVec := (vc_hasVec c)[row := False], vc_invNorms := (vc_invNorms c)[row := f32_0]\<rparr>) (fmlookup (tb_vectors t) col)" for col
    by (cases "fmlookup (tb_vectors t) col") (simp_all add: vs(2) fv)
  let ?t = "t\<lparr>tb_attrs := as, tb_vectors := vs\<rparr>"
  have at1: "vector_at t r (c\<lparr>vc_hasVec := h, vc_invNorms := n\<rparr>) = vector_at t r c" for r c h n by (rule vector_at_cong) simp_all
  have at2: "vector_at ?t r c = vector_at t r c" for r c by (rule vector_at_cong) simp_all
  note at = at1 at2
  have "revive_row staged attrs row t = Some ?t" unfolding revive_row_def as(1) vs(1) option.case ..
  moreover have "table_ok ?t"
    using t la lc row unfolding table_ok_def by (auto simp: as' vs' col_ok_def)
  moreover have "map_option vc_dim (fmlookup vs col) = map_option vc_dim (fmlookup (tb_vectors t) col)" for col
    by (cases "fmlookup (tb_vectors t) col") (simp_all add: vs')
  moreover have "vec_of ?t r = vec_of t r" "attr_of ?t r = attr_of t r" if "r < tb_numRows t" "r \<noteq> row" for r
    using that lc la by (auto simp: fun_eq_iff vec_of_def attr_of_def vs' as' at col_ok_def split: option.split)
  moreover have "vec_of ?t row col = (if col |\<in>| fmdom staged then vec_of t row col else None)" for col
    using lc row by (auto simp: vec_of_def vs' at col_ok_def split: option.split)
  moreover have "attr_of ?t row k = (if k |\<in>| fmdom attrs then attr_of t row k else None)" for k
    using la row by (auto simp: attr_of_def as' split: option.split)
  ultimately show ?thesis by (intro exI [of _ ?t]) (auto simp: as')
qed

lemma write_row_ok:
  assumes t: "table_ok t" and row: "row < tb_numRows t" and s: "staged_ok t staged"
    and cols: "\<And>col sv. fmlookup staged col = Some sv \<Longrightarrow> \<exists>c. fmlookup (tb_vectors t) col = Some c"
    and acols: "\<And>k v. fmlookup attrs k = Some (Some v) \<Longrightarrow> \<exists>a. fmlookup (tb_attrs t) k = Some a"
  shows "\<exists>t'. write_row staged attrs row t = Some t' \<and> table_ok t' \<and> (\<exists>vs as. t' = t\<lparr>tb_vectors := vs, tb_attrs := as\<rparr>)
    \<and> (\<forall>r < tb_numRows t. r \<noteq> row \<longrightarrow> vec_of t' r = vec_of t r \<and> attr_of t' r = attr_of t r)
    \<and> (\<forall>col. vec_of t' row col = (case fmlookup staged col of None \<Rightarrow> vec_of t row col | Some sv \<Rightarrow> stored t sv))
    \<and> (\<forall>k. attr_of t' row k = (case fmlookup attrs k of Some (Some v) \<Rightarrow> Some v | _ \<Rightarrow> attr_of t row k))"
proof -
  let ?fv = "\<lambda>col vCol. case fmlookup staged col of None \<Rightarrow> Some vCol | Some sv \<Rightarrow> write_vector (is16 t) row sv vCol"
  let ?fa = "\<lambda>k aCol. case fmlookup attrs k of Some (Some v) \<Rightarrow> put_at row (Some v) aCol | _ \<Rightarrow> Some aCol"
  have la: "length a = tb_numRows t" if "fmlookup (tb_attrs t) k = Some a" for k a using t that by (simp add: table_ok_def)
  have lc: "col_ok (is16 t) (tb_numRows t) c" if "fmlookup (tb_vectors t) col = Some c" for col c using t that by (simp add: table_ok_def)
  have fv: "\<exists>c'. ?fv col c = Some c' \<and> col_ok (is16 t) (tb_numRows t) c'
      \<and> (\<forall>r < tb_numRows t. (if vc_hasVec c' ! r then vector_at t r c' else None) =
          (case fmlookup staged col of None \<Rightarrow> (if vc_hasVec c ! r then vector_at t r c else None)
           | Some sv \<Rightarrow> if r = row then stored t sv else (if vc_hasVec c ! r then vector_at t r c else None)))"
    if c: "fmlookup (tb_vectors t) col = Some c" for col c
  proof (cases "fmlookup staged col")
    case None
    then show ?thesis using lc [OF c] by simp
  next
    case (Some sv)
    with s c have "vc_dim c = length (sv_values sv)" "is16 t \<Longrightarrow> \<exists>d. sv_data16 sv = Some d \<and> length d = length (sv_values sv)"
      by (auto simp: staged_ok_def)
    from write_vector_ok [OF lc [OF c] row this] obtain c' where c': "write_vector (is16 t) row sv c = Some c'" "col_ok (is16 t) (tb_numRows t) c'"
      "vc_hasVec c' = (vc_hasVec c)[row := True]" "\<forall>r < tb_numRows t. vector_at t r c' = (if r = row then stored t sv else vector_at t r c)" by blast
    moreover have "length (vc_hasVec c) = tb_numRows t" using lc [OF c] by (simp add: col_ok_def)
    ultimately show ?thesis using Some row by (intro exI [of _ c']) (auto simp: nth_list_update)
  qed
  have fa: "?fa k a = Some (case fmlookup attrs k of Some (Some v) \<Rightarrow> a[row := Some v] | _ \<Rightarrow> a)" if "fmlookup (tb_attrs t) k = Some a" for k a
    using la [OF that] row by (simp add: put_at_def split: option.split)
  obtain as where as: "fmtraverse ?fa (tb_attrs t) = Some as" "\<And>k. fmlookup as k = Option.bind (fmlookup (tb_attrs t) k) (?fa k)"
    using fmtraverse_SomeI [of "tb_attrs t" ?fa] fa by blast
  obtain vs where vs: "fmtraverse ?fv (tb_vectors t) = Some vs" "\<And>k. fmlookup vs k = Option.bind (fmlookup (tb_vectors t) k) (?fv k)"
    using fmtraverse_SomeI [of "tb_vectors t" ?fv] fv by blast
  have as': "fmlookup as k = map_option (\<lambda>a. case fmlookup attrs k of Some (Some v) \<Rightarrow> a[row := Some v] | _ \<Rightarrow> a) (fmlookup (tb_attrs t) k)" for k
    by (cases "fmlookup (tb_attrs t) k") (simp_all add: as(2) fa)
  let ?t = "t\<lparr>tb_vectors := vs, tb_attrs := as\<rparr>"
  have at: "vector_at ?t r c = vector_at t r c" for r c by (rule vector_at_cong) simp_all
  have vec: "vec_of ?t r col = (case fmlookup staged col of None \<Rightarrow> vec_of t r col | Some sv \<Rightarrow> if r = row then stored t sv else vec_of t r col)"
    if r: "r < tb_numRows t" for r col
  proof (cases "fmlookup (tb_vectors t) col")
    case None
    with cols [of col] have "fmlookup staged col = None" by (cases "fmlookup staged col") auto
    with None show ?thesis by (simp add: vec_of_def vs(2))
  next
    case (Some c)
    from fv [OF Some] r obtain c' where c': "?fv col c = Some c'" "(if vc_hasVec c' ! r then vector_at t r c' else None) =
          (case fmlookup staged col of None \<Rightarrow> (if vc_hasVec c ! r then vector_at t r c else None)
           | Some sv \<Rightarrow> if r = row then stored t sv else (if vc_hasVec c ! r then vector_at t r c else None))" by blast
    have "fmlookup vs col = Some c'" using c'(1) Some by (simp only: vs(2) Option.bind.bind_lunit)
    then have "vec_of ?t r col = (if vc_hasVec c' ! r then vector_at t r c' else None)" by (simp add: vec_of_def at)
    moreover have "vec_of t r col = (if vc_hasVec c ! r then vector_at t r c else None)" using Some by (simp add: vec_of_def)
    ultimately show ?thesis using c'(2) by (simp only:)
  qed
  have "write_row staged attrs row t = Some ?t" unfolding write_row_def vs(1) as(1) option.case ..
  moreover have "table_ok ?t"
  proof -
    have "col_ok (is16 t) (tb_numRows t) c" if "fmlookup vs col = Some c" for col c
      using that fv [of col] by (cases "fmlookup (tb_vectors t) col") (auto simp: vs(2))
    moreover have "length (case x of Some (Some v) \<Rightarrow> a[row := Some v] | _ \<Rightarrow> a) = length a" for x and a :: "AttributeValue option list"
      by (simp split: option.split)
    then have "length a = tb_numRows t" if "fmlookup as k = Some a" for k a using that la by (auto simp: as')
    ultimately show ?thesis using t unfolding table_ok_def by simp
  qed
  moreover have "attr_of ?t r k = (case fmlookup attrs k of Some (Some v) \<Rightarrow> if r = row then Some v else attr_of t r k | _ \<Rightarrow> attr_of t r k)"
    if "r < tb_numRows t" for r k
    using that la row acols [of k] by (auto simp: attr_of_def as' nth_list_update split: option.split)
  ultimately show ?thesis using vec row by (intro exI [of _ ?t]) (auto simp: fun_eq_iff split: option.split)
qed

lemma table_ok_tombstones: "table_ok t \<Longrightarrow> length b = tb_numRows t \<Longrightarrow> table_ok (t\<lparr>tb_tombstones := b\<rparr>)"
  by (simp add: table_ok_def)

lemma row_view_tombstones: "vec_of (t\<lparr>tb_tombstones := b\<rparr>) = vec_of t" "attr_of (t\<lparr>tb_tombstones := b\<rparr>) = attr_of t"
proof -
  have "vector_at (t\<lparr>tb_tombstones := b\<rparr>) r c = vector_at t r c" for r c by (rule vector_at_cong) simp_all
  then show "vec_of (t\<lparr>tb_tombstones := b\<rparr>) = vec_of t" "attr_of (t\<lparr>tb_tombstones := b\<rparr>) = attr_of t"
    by (simp_all add: fun_eq_iff vec_of_def attr_of_def split: option.split)
qed

text \<open>What \<open>Upsert\<close> makes of a row: \<open>dead\<close> if it was deleted.\<close>

definition merged_vec :: "Table \<Rightarrow> staging \<Rightarrow> (string \<rightharpoonup> float32 list) \<Rightarrow> string \<rightharpoonup> float32 list" where
  "merged_vec t staged old col = (case fmlookup staged col of Some sv \<Rightarrow> stored t sv | None \<Rightarrow> old col)"

lemma update_row_ok:
  assumes t: "table_ok t" and row: "row < tb_numRows t" and s: "staged_ok t staged"
    and cols: "\<And>col sv. fmlookup staged col = Some sv \<Longrightarrow> \<exists>c. fmlookup (tb_vectors t) col = Some c"
    and acols: "\<And>k v. fmlookup attrs k = Some (Some v) \<Longrightarrow> \<exists>a. fmlookup (tb_attrs t) k = Some a"
  defines "dead \<equiv> tb_tombstones t ! row"
  shows "\<exists>t'. update_row staged attrs row t = Some t' \<and> table_ok t'
    \<and> tb_index t' = tb_index t \<and> tb_numRows t' = tb_numRows t \<and> tb_kernels t' = tb_kernels t \<and> tb_tombstones t' = (tb_tombstones t)[row := False]
    \<and> (\<forall>r < tb_numRows t. r \<noteq> row \<longrightarrow> vec_of t' r = vec_of t r \<and> attr_of t' r = attr_of t r)
    \<and> vec_of t' row = merged_vec t staged (if dead then Map.empty else vec_of t row)
    \<and> (\<forall>k. attr_of t' row k = (case fmlookup attrs k of Some (Some v) \<Rightarrow> Some v | Some None \<Rightarrow> attr_of t row k
        | None \<Rightarrow> if dead then None else attr_of t row k))"
proof -
  have len: "length (tb_tombstones t) = tb_numRows t" using t by (simp add: table_ok_def)
  obtain u where u: "(if dead then revive_row staged attrs row t else Some t) = Some u" "table_ok u"
      "tb_index u = tb_index t" "tb_numRows u = tb_numRows t" "tb_kernels u = tb_kernels t" "tb_tombstones u = tb_tombstones t"
      "\<And>col. map_option vc_dim (fmlookup (tb_vectors u) col) = map_option vc_dim (fmlookup (tb_vectors t) col)"
      "\<And>k. fmlookup (tb_attrs u) k = None \<longleftrightarrow> fmlookup (tb_attrs t) k = None"
      "\<And>r. r < tb_numRows t \<Longrightarrow> r \<noteq> row \<Longrightarrow> vec_of u r = vec_of t r \<and> attr_of u r = attr_of t r"
      "\<And>col. vec_of u row col = (if dead \<and> col |\<notin>| fmdom staged then None else vec_of t row col)"
      "\<And>k. attr_of u row k = (if dead \<and> k |\<notin>| fmdom attrs then None else attr_of t row k)"
  proof (cases dead)
    case True
    from revive_row_ok [OF t row, of staged attrs] obtain u where "revive_row staged attrs row t = Some u" "table_ok u"
      "\<exists>vs as. u = t\<lparr>tb_attrs := as, tb_vectors := vs\<rparr>"
      "\<forall>col. map_option vc_dim (fmlookup (tb_vectors u) col) = map_option vc_dim (fmlookup (tb_vectors t) col)"
      "\<forall>k. fmlookup (tb_attrs u) k = None \<longleftrightarrow> fmlookup (tb_attrs t) k = None"
      "\<forall>r < tb_numRows t. r \<noteq> row \<longrightarrow> vec_of u r = vec_of t r \<and> attr_of u r = attr_of t r"
      "\<forall>col. vec_of u row col = (if col |\<in>| fmdom staged then vec_of t row col else None)"
      "\<forall>k. attr_of u row k = (if k |\<in>| fmdom attrs then attr_of t row k else None)" by blast
    with True show ?thesis by (intro that [of u]) auto
  next
    case False
    with t show ?thesis by (intro that [of t]) auto
  qed
  let ?u = "u\<lparr>tb_tombstones := (tb_tombstones u)[row := False]\<rparr>"
  have h: "is16 u = is16 t" using u(5) by (simp add: is16_def)
  have u2: "table_ok ?u" "row < tb_numRows ?u" using u(2,4,6) row len by (auto intro: table_ok_tombstones)
  have dims: "vc_dim c = length (sv_values sv)" if "fmlookup staged col = Some sv" "fmlookup (tb_vectors u) col = Some c" for col sv c
  proof -
    have "map_option vc_dim (fmlookup (tb_vectors t) col) = Some (vc_dim c)" using u(7) [of col] that(2) by simp
    then obtain c0 where c0: "fmlookup (tb_vectors t) col = Some c0" "vc_dim c0 = vc_dim c" by auto
    from s that(1) c0(1) have "vc_dim c0 = length (sv_values sv)" unfolding staged_ok_def by blast
    with c0(2) show ?thesis by simp
  qed
  have s2: "staged_ok ?u staged" using s dims by (auto simp: staged_ok_def h)
  have cols2: "\<exists>c. fmlookup (tb_vectors ?u) col = Some c" if "fmlookup staged col = Some sv" for col sv
    using cols [OF that] u(7) [of col] by auto
  have acols2: "\<exists>a. fmlookup (tb_attrs ?u) k = Some a" if "fmlookup attrs k = Some (Some v)" for k v
    using acols [OF that] u(8) [of k] by auto
  have "\<exists>w. write_row staged attrs row ?u = Some w \<and> table_ok w \<and> (\<exists>vs as. w = ?u\<lparr>tb_vectors := vs, tb_attrs := as\<rparr>)
      \<and> (\<forall>r < tb_numRows ?u. r \<noteq> row \<longrightarrow> vec_of w r = vec_of ?u r \<and> attr_of w r = attr_of ?u r)
      \<and> (\<forall>col. vec_of w row col = (case fmlookup staged col of None \<Rightarrow> vec_of ?u row col | Some sv \<Rightarrow> stored ?u sv))
      \<and> (\<forall>k. attr_of w row k = (case fmlookup attrs k of Some (Some v) \<Rightarrow> Some v | _ \<Rightarrow> attr_of ?u row k))"
    by (rule write_row_ok [OF u2 s2]) (fact cols2 acols2)+
  then obtain w where w: "write_row staged attrs row ?u = Some w" "table_ok w"
      "\<exists>vs as. w = ?u\<lparr>tb_vectors := vs, tb_attrs := as\<rparr>"
      "\<forall>r < tb_numRows ?u. r \<noteq> row \<longrightarrow> vec_of w r = vec_of ?u r \<and> attr_of w r = attr_of ?u r"
      "\<forall>col. vec_of w row col = (case fmlookup staged col of None \<Rightarrow> vec_of ?u row col | Some sv \<Rightarrow> stored ?u sv)"
      "\<forall>k. attr_of w row k = (case fmlookup attrs k of Some (Some v) \<Rightarrow> Some v | _ \<Rightarrow> attr_of ?u row k)" by blast
  have st: "stored ?u sv = stored t sv" for sv using u(5) h by (simp add: stored_def)
  have "update_row staged attrs row t = Some w"
    using u(1) w(1) row len by (simp add: update_row_def dead_def)
  moreover have "vec_of w row = merged_vec t staged (if dead then Map.empty else vec_of t row)"
    unfolding fun_eq_iff merged_vec_def using w(5) u(10) by (auto simp: row_view_tombstones st fmdom_notI split: option.split)
  moreover have "attr_of w row k = (case fmlookup attrs k of Some (Some v) \<Rightarrow> Some v | Some None \<Rightarrow> attr_of t row k
        | None \<Rightarrow> if dead then None else attr_of t row k)" for k
    using w(6) u(11) [of k] by (auto simp: row_view_tombstones fmdom_notI fmdomI split: option.split)
  ultimately show ?thesis using w(2,3,4) u(3-6,9) by (intro exI [of _ w]) (auto simp: row_view_tombstones)
qed

lemma append_row_ok:
  assumes t: "table_ok t" and docID: "docID \<noteq> ''''" "fmlookup (tb_index t) docID = None" and s: "staged_ok t staged"
    and cols: "\<And>col sv. fmlookup staged col = Some sv \<Longrightarrow> \<exists>c. fmlookup (tb_vectors t) col = Some c"
    and acols: "\<And>k v. fmlookup attrs k = Some (Some v) \<Longrightarrow> \<exists>a. fmlookup (tb_attrs t) k = Some a"
  defines "t' \<equiv> append_row docID staged attrs t" and "n \<equiv> tb_numRows t"
  shows "table_ok t'" and "r < n \<Longrightarrow> vec_of t' r = vec_of t r \<and> attr_of t' r = attr_of t r"
    and "vec_of t' n = merged_vec t staged Map.empty"
    and "attr_of t' n k = (case fmlookup attrs k of Some (Some v) \<Rightarrow> Some v | _ \<Rightarrow> None)"
proof -
  have v: "fmlookup (tb_vectors t') col = map_option (append_vector (is16 t) (fmlookup staged col)) (fmlookup (tb_vectors t) col)" for col
    by (simp add: t'_def append_row_def)
  have a: "fmlookup (tb_attrs t') k = map_option (\<lambda>aCol. aCol @ [case fmlookup attrs k of Some (Some v) \<Rightarrow> Some v | _ \<Rightarrow> None]) (fmlookup (tb_attrs t) k)" for k
    by (simp add: t'_def append_row_def)
  have eqs: "tb_index t' = fmupd docID n (tb_index t)" "tb_tombstones t' = tb_tombstones t @ [False]" "tb_numRows t' = Suc n"
    "tb_kernels t' = tb_kernels t" "tb_docIDs t' = tb_docIDs t @ [docID]" "is16 t' = is16 t"
    by (simp_all add: t'_def append_row_def n_def is16_def)
  have la: "length a = n" if "fmlookup (tb_attrs t) k = Some a" for k a using t that by (simp add: table_ok_def n_def)
  have lc: "col_ok (is16 t) n c" if "fmlookup (tb_vectors t) col = Some c" for col c using t that by (simp add: table_ok_def n_def)
  have sv: "vc_dim c = length (sv_values sv) \<and> (is16 t \<longrightarrow> (\<exists>d. sv_data16 sv = Some d \<and> length d = length (sv_values sv)))"
    if "fmlookup staged col = Some sv" "fmlookup (tb_vectors t) col = Some c" for col c sv
    using s that by (auto simp: staged_ok_def)
  have ap: "col_ok (is16 t) (Suc n) (append_vector (is16 t) (fmlookup staged col) c)"
      "vc_hasVec (append_vector (is16 t) (fmlookup staged col) c) = vc_hasVec c @ [fmlookup staged col \<noteq> None]"
      "\<And>r. r < n \<Longrightarrow> vector_at t r (append_vector (is16 t) (fmlookup staged col) c) = vector_at t r c"
      "\<And>s. fmlookup staged col = Some s \<Longrightarrow> vector_at t n (append_vector (is16 t) (fmlookup staged col) c) = stored t s"
    if "fmlookup (tb_vectors t) col = Some c" for col c
    using append_vector_ok [OF lc [OF that], of "fmlookup staged col"] sv [OF _ that] by blast+
  have at: "vector_at t' r c = vector_at t r c" for r c using eqs(4) by (rule vector_at_cong) simp_all
  have ix: "fmlookup (tb_index t) d = Some row \<longleftrightarrow> row < n \<and> tb_docIDs t ! row = d" for d row using t by (simp add: table_ok_def n_def)
  have dl: "length (tb_docIDs t) = n" using t by (simp add: table_ok_def n_def)
  have fresh: "tb_docIDs t ! row \<noteq> docID" if "row < n" for row using ix [of docID row] docID(2) that by auto
  have index: "fmlookup (tb_index t') d = Some row \<longleftrightarrow> row < Suc n \<and> tb_docIDs t' ! row = d" for d row
    using ix [of d row] fresh dl by (auto simp: eqs nth_append less_Suc_eq)
  have vcol: "col_ok (is16 t) (Suc n) c" if "fmlookup (tb_vectors t') col = Some c" for col c
    using that ap(1) [of col] by (auto simp: v)
  have acol: "length b = Suc n" if "fmlookup (tb_attrs t') k = Some b" for k b using that la by (auto simp: a)
  show "table_ok t'" using t docID(1) index vcol acol dl unfolding table_ok_def eqs by (auto simp: n_def)
  have len: "length (vc_hasVec c) = n" if "fmlookup (tb_vectors t) col = Some c" for col c using lc [OF that] by (simp add: col_ok_def)
  show "vec_of t' r = vec_of t r \<and> attr_of t' r = attr_of t r" if r: "r < n"
  proof
    have "vec_of t' r col = vec_of t r col" for col
    proof (cases "fmlookup (tb_vectors t) col")
      case (Some c)
      then show ?thesis using ap(2,3) [OF Some] r len [OF Some] by (simp add: vec_of_def v at nth_append)
    qed (simp add: vec_of_def v)
    then show "vec_of t' r = vec_of t r" by (simp add: fun_eq_iff)
    show "attr_of t' r = attr_of t r" using r la by (auto simp: fun_eq_iff attr_of_def a nth_append split: option.split)
  qed
  have "vec_of t' n col = merged_vec t staged Map.empty col" for col
  proof (cases "fmlookup (tb_vectors t) col")
    case None
    with cols [of col] show ?thesis by (cases "fmlookup staged col") (auto simp: vec_of_def v merged_vec_def)
  next
    case (Some c)
    then show ?thesis using ap(2,4) [OF Some] len [OF Some]
      by (cases "fmlookup staged col") (simp_all add: vec_of_def v at nth_append merged_vec_def)
  qed
  then show "vec_of t' n = merged_vec t staged Map.empty" by (simp add: fun_eq_iff)
  show "attr_of t' n k = (case fmlookup attrs k of Some (Some v) \<Rightarrow> Some v | _ \<Rightarrow> None)"
    using la [of k] acols [of k] by (auto simp: attr_of_def a nth_append split: option.split)
qed

subsection \<open>Upsert, Delete and Get\<close>

definition is_panic :: "gerr \<Rightarrow> bool" where "is_panic e \<longleftrightarrow> (\<exists>m. e = Panic m)"

text \<open>Merging a new version into what there is of a document.\<close>

definition old_doc :: "document option \<Rightarrow> document" where
  "old_doc d = (case d of None \<Rightarrow> (Map.empty, Map.empty) | Some d \<Rightarrow> d)"

definition upsert_doc :: "machine \<Rightarrow> Table \<Rightarrow> (string \<times> float32 list) list \<Rightarrow> attributes \<Rightarrow> document option \<Rightarrow> document" where
  "upsert_doc M t vectors attrs d =
     (\<lambda>col. case map_of vectors col of
              None \<Rightarrow> fst (old_doc d) col
            | Some v \<Rightarrow> if v = [] then fst (old_doc d) col else stored t (stage_one M t v),
      \<lambda>k. case fmlookup attrs k of Some (Some v) \<Rightarrow> Some v | _ \<Rightarrow> snd (old_doc d) k)"

lemma merged_vec_staged:
  assumes "stage_loop M t vectors fmempty = Inr staged" and "distinct (map fst vectors)"
  shows "staged_ok t staged \<and> (\<forall>old. merged_vec t staged old = (\<lambda>col. case map_of vectors col of
      None \<Rightarrow> old col | Some v \<Rightarrow> if v = [] then old col else stored t (stage_one M t v)))"
proof -
  have "staged_ok t fmempty" by (simp add: staged_ok_def)
  from stage_loop_spec [OF assms(1) this assms(2)] show ?thesis by (auto simp: merged_vec_def fun_eq_iff split: option.split)
qed

lemma stage_loop_error: "stage_loop M t vectors staged = Inl err \<Longrightarrow> \<not> is_panic err"
  by (induction M t vectors staged rule: stage_loop.induct)
    (auto simp: is_panic_def Let_def split: if_splits option.splits prod.splits)

lemma Upsert_spec:
  assumes t: "table_ok t" and d: "distinct (map fst vectors)" and run: "Table_Upsert M docID vectors attrs t = (r, t')"
  shows "table_ok t' \<and> tb_kernels t' = tb_kernels t
    \<and> (case r of
         Some err \<Rightarrow> t' = t \<and> \<not> is_panic err
       | None \<Rightarrow> docs t' docID = Some (fst (upsert_doc M t vectors attrs (docs t docID)),
             \<lambda>k. case (fmlookup attrs k, fmlookup (tb_index t) docID) of
                   (Some None, Some row) \<Rightarrow> attr_of t row k
                 | _ \<Rightarrow> snd (upsert_doc M t vectors attrs (docs t docID)) k)
           \<and> (\<forall>x. x \<noteq> docID \<longrightarrow> docs t' x = docs t x))"
proof (cases "docID = '''' \<or> (\<exists>err. stage_loop M t vectors fmempty = Inl err)")
  case True
  have "stage_loop M t vectors fmempty \<noteq> Inl (Panic m)" for m using stage_loop_error [of M t vectors fmempty "Panic m"] by (auto simp: is_panic_def)
  with True show ?thesis using t run by (auto simp: Table_Upsert_def is_panic_def split: if_splits)
next
  case False
  then obtain staged where st: "stage_loop M t vectors fmempty = Inr staged" "docID \<noteq> ''''"
    by (cases "stage_loop M t vectors fmempty") auto
  note mv = merged_vec_staged [OF st(1) d]
  define u where "u = add_columns staged attrs t"
  note u = add_columns_ok [OF t conjunct1 [OF mv], where attrs = attrs, folded u_def]
  have ix: "fmlookup (tb_index t) x = Some row \<longleftrightarrow> row < tb_numRows t \<and> tb_docIDs t ! row = x" for x row using t by (simp add: table_ok_def)
  have tl: "length (tb_tombstones t) = tb_numRows t" using t by (simp add: table_ok_def)
  have sm: "merged_vec u staged = merged_vec t staged" using u(10) by (simp add: fun_eq_iff merged_vec_def stored_def is16_def split: option.split)
  show ?thesis
  proof (cases "fmlookup (tb_index t) docID")
    case (Some row)
    then have row: "row < tb_numRows u" using ix u(9) by simp
    from update_row_ok [OF u(1) row u(2)] u(3,4) obtain w where
      w: "update_row staged attrs row u = Some w" "table_ok w" "tb_index w = tb_index u" "tb_numRows w = tb_numRows u" "tb_kernels w = tb_kernels u"
        "tb_tombstones w = (tb_tombstones u)[row := False]"
        "\<forall>r < tb_numRows u. r \<noteq> row \<longrightarrow> vec_of w r = vec_of u r \<and> attr_of w r = attr_of u r"
        "vec_of w row = merged_vec u staged (if tb_tombstones u ! row then Map.empty else vec_of u row)"
        "\<forall>k. attr_of w row k = (case fmlookup attrs k of Some (Some v) \<Rightarrow> Some v | Some None \<Rightarrow> attr_of u row k
          | None \<Rightarrow> if tb_tombstones u ! row then None else attr_of u row k)" by blast
    have rt: "r = None" "t' = w" using run st Some w(1) u(7) by (auto simp: Table_Upsert_def u_def Let_def)
    have "docs w docID = Some (vec_of w row, attr_of w row)" using Some row u(7-9) w(3,6) tl by (simp add: docs_def)
    moreover have "vec_of w row = fst (upsert_doc M t vectors attrs (docs t docID))"
    proof -
      have old: "fst (old_doc (docs t docID)) = (if tb_tombstones t ! row then Map.empty else vec_of t row)"
        using Some by (simp add: old_doc_def docs_def)
      have "vec_of w row = merged_vec t staged (if tb_tombstones t ! row then Map.empty else vec_of t row)"
        using w(8) sm u(5) [of row] row u(8,9) by simp
      then show ?thesis by (simp only: mv [THEN conjunct2, rule_format] upsert_doc_def fst_conv old)
    qed
    moreover have "attr_of w row k = (case (fmlookup attrs k, fmlookup (tb_index t) docID) of
                   (Some None, Some row) \<Rightarrow> attr_of t row k | _ \<Rightarrow> snd (upsert_doc M t vectors attrs (docs t docID)) k)" for k
      using w(9) Some row u(6,8,9) by (auto simp: upsert_doc_def old_doc_def docs_def split: option.split)
    moreover have "docs w x = docs t x" if "x \<noteq> docID" for x
    proof (cases "fmlookup (tb_index t) x")
      case (Some r)
      with ix [of x r] ix [of docID row] \<open>fmlookup (tb_index t) docID = Some row\<close> that have "r \<noteq> row" "r < tb_numRows t" by auto
      with Some w(3,6,7) u(5-9) show ?thesis by (simp add: docs_def)
    qed (simp add: docs_def w(3) u(7))
    ultimately show ?thesis using rt w(2,5) u(10) by (auto simp: fun_eq_iff)
  next
    case None
    define w where "w = append_row docID staged attrs u"
    have rt: "r = None" "t' = w" using run st None u(7) by (auto simp: Table_Upsert_def u_def Let_def w_def)
    have nx: "fmlookup (tb_index u) docID = None" using None u(7) by simp
    note ap = append_row_ok [OF u(1) st(2) nx u(2), where attrs = attrs, folded w_def]
    have eqs: "tb_index w = fmupd docID (tb_numRows t) (tb_index t)" "tb_tombstones w = tb_tombstones t @ [False]" "tb_kernels w = tb_kernels t"
      using u(7-10) by (simp_all add: w_def append_row_def)
    have wn: "table_ok w" "vec_of w (tb_numRows t) = merged_vec t staged Map.empty"
      "attr_of w (tb_numRows t) k = (case fmlookup attrs k of Some (Some v) \<Rightarrow> Some v | _ \<Rightarrow> None)" for k
      using ap(1,3,4) u(3,4,9) sm by (metis, metis, metis)
    have wr: "vec_of w r = vec_of t r \<and> attr_of w r = attr_of t r" if "r < tb_numRows t" for r
      using ap(2) [of r] u(3-6,9) that by metis
    have dn: "docs t docID = None" using None by (simp add: docs_def)
    have "docs w docID = Some (vec_of w (tb_numRows t), attr_of w (tb_numRows t))" using tl by (simp add: docs_def eqs nth_append)
    moreover have "docs w x = docs t x" if "x \<noteq> docID" for x
    proof (cases "fmlookup (tb_index t) x")
      case (Some r)
      with ix have "r < tb_numRows t" by blast
      with Some wr that tl show ?thesis by (simp add: docs_def eqs nth_append)
    qed (use that in \<open>simp add: docs_def eqs\<close>)
    ultimately show ?thesis using rt wn mv None eqs(3) by (auto simp: upsert_doc_def old_doc_def dn fun_eq_iff split: option.split)
  qed
qed

lemma Delete_spec:
  assumes t: "table_ok t"
  shows "table_ok (snd (Table_Delete docID t)) \<and> tb_kernels (snd (Table_Delete docID t)) = tb_kernels t
    \<and> fst (Table_Delete docID t) = Some (docs t docID \<noteq> None) \<and> docs (snd (Table_Delete docID t)) = (docs t)(docID := None)"
proof -
  have ix: "fmlookup (tb_index t) x = Some row \<longleftrightarrow> row < tb_numRows t \<and> tb_docIDs t ! row = x" for x row using t by (simp add: table_ok_def)
  have tl: "length (tb_tombstones t) = tb_numRows t" using t by (simp add: table_ok_def)
  show ?thesis
  proof (cases "fmlookup (tb_index t) docID")
    case None
    then show ?thesis using t by (auto simp: Table_Delete_def docs_def)
  next
    case (Some row)
    then have row: "row < tb_numRows t" "tb_docIDs t ! row = docID" using ix by auto
    show ?thesis
    proof (cases "tb_tombstones t ! row")
      case True
      then show ?thesis using t Some row tl by (auto simp: Table_Delete_def docs_def fun_eq_iff)
    next
      case False
      let ?t = "t\<lparr>tb_tombstones := (tb_tombstones t)[row := True]\<rparr>"
      have del: "Table_Delete docID t = (Some True, ?t)" using Some False row tl by (simp add: Table_Delete_def)
      have "docs ?t x = ((docs t)(docID := None)) x" for x
      proof (cases "fmlookup (tb_index t) x")
        case (Some r)
        have "r < tb_numRows t" "tb_docIDs t ! r = x" using ix Some by blast+
        moreover have "r = row \<longleftrightarrow> x = docID" using row(2) \<open>tb_docIDs t ! r = x\<close> Some \<open>fmlookup (tb_index t) docID = Some row\<close> by (metis option.inject)
        ultimately show ?thesis using Some tl by (auto simp: docs_def row_view_tombstones nth_list_update)
      qed (use Some in \<open>auto simp: docs_def\<close>)
      then have "docs ?t = (docs t)(docID := None)" by (rule ext)
      moreover have "table_ok ?t" using t tl by (intro table_ok_tombstones) simp_all
      ultimately show ?thesis using del Some False by (simp add: docs_def [of t docID])
    qed
  qed
qed

text \<open>The record of a document.\<close>

lemma recordAt_ok:
  assumes t: "table_ok t" and row: "row < tb_numRows t"
  shows "\<exists>rec. recordAt t row docID = Some rec \<and> r_Id rec = docID \<and> (\<forall>col. fmlookup (r_Vectors rec) col = map_option Some (vec_of t row col))
    \<and> (\<forall>k. fmlookup (r_Attributes rec) k = map_option Some (attr_of t row k))"
proof -
  have lc: "col_ok (is16 t) (tb_numRows t) c" if "fmlookup (tb_vectors t) col = Some c" for col c using t that by (simp add: table_ok_def)
  have la: "length a = tb_numRows t" if "fmlookup (tb_attrs t) k = Some a" for k a using t that by (simp add: table_ok_def)
  let ?P = "\<lambda>col. case fmlookup (tb_vectors t) col of None \<Rightarrow> False | Some vCol \<Rightarrow> row < length (vc_hasVec vCol) \<and> vc_hasVec vCol ! row"
  have at: "\<exists>v. vector_at t row c = Some v" if "fmlookup (fmfilter ?P (tb_vectors t)) col = Some c" for col c
    using that t vector_at_returns [OF _ lc row] by (auto simp: table_ok_def split: if_splits)
  have "\<exists>vs. fmtraverse (\<lambda>_. vector_at t row) (fmfilter ?P (tb_vectors t)) = Some vs
      \<and> (\<forall>k. fmlookup vs k = Option.bind (fmlookup (fmfilter ?P (tb_vectors t)) k) (vector_at t row))"
    by (rule fmtraverse_SomeI) (rule at)
  then obtain vs where vs: "fmtraverse (\<lambda>_. vector_at t row) (fmfilter ?P (tb_vectors t)) = Some vs"
      "\<And>k. fmlookup vs k = Option.bind (fmlookup (fmfilter ?P (tb_vectors t)) k) (vector_at t row)" by blast
  have "fmlookup vs col = vec_of t row col" for col
    using lc [of col] row unfolding vs(2) by (cases "fmlookup (tb_vectors t) col") (auto simp: vec_of_def col_ok_def)
  moreover have "map_option (\<lambda>c. c ! row) (fmlookup (fmfilter (\<lambda>k. case fmlookup (tb_attrs t) k of None \<Rightarrow> False
        | Some col \<Rightarrow> row < length col \<and> col ! row \<noteq> None) (tb_attrs t)) k) = map_option Some (attr_of t row k)" for k
    using la [of k] row by (cases "fmlookup (tb_attrs t) k") (auto simp: attr_of_def)
  ultimately show ?thesis using vs(1) by (simp add: recordAt_def Let_def)
qed

lemma Get_spec:
  assumes t: "table_ok t"
  shows "case docs t docID of
      None \<Rightarrow> Table_Get t docID = Inr None
    | Some (vs, as) \<Rightarrow> \<exists>rec. Table_Get t docID = Inr (Some rec) \<and> r_Id rec = docID
        \<and> (\<forall>col. fmlookup (r_Vectors rec) col = map_option Some (vs col)) \<and> (\<forall>k. fmlookup (r_Attributes rec) k = map_option Some (as k))"
proof (cases "fmlookup (tb_index t) docID")
  case None
  then show ?thesis by (simp add: docs_def Table_Get_def)
next
  case (Some row)
  then have "row < tb_numRows t" "length (tb_tombstones t) = tb_numRows t" using t by (auto simp: table_ok_def)
  with Some recordAt_ok [OF t, of row docID] show ?thesis by (auto simp: docs_def Table_Get_def isTombstoned_def)
qed

subsection \<open>Kernels\<close>

lemma portable_returns:
  assumes "length a = length b"
  shows "\<exists>r. portable f g vl a b = Some r"
proof -
  let ?n = "length a div vl"
  obtain acc where "portable_loop f vl ?n a b (vzero vl) = Some acc"
    using portable_loop_returns [of ?n vl b f a "vzero vl"] assms by (metis div_times_less_eq_dividend)
  moreover obtain s where "fold_pairs g (add_lanes acc) (drop (?n * vl) a) (drop (?n * vl) b) = Some s"
    using fold_pairs_returns [of "drop (?n * vl) a" "drop (?n * vl) b"] assms by (metis length_drop le_refl)
  ultimately show ?thesis by (simp add: portable_def Let_def)
qed

lemma avx512_returns: "length a = length b \<Longrightarrow> avx512 f a b \<noteq> None"
  by (simp add: avx512_def Let_def split: prod.split)

lemma fp16_kernel_returns: "length q = length row \<Longrightarrow> fp16_kernel blocks step q row \<noteq> None"
  using fold_pairs_returns [of "drop (length q div 16 * 16) q" "drop (length q div 16 * 16) row" "\<lambda>s x h. step s x (fp16ToFloat32 h)"
      "if length q div 16 * 16 > 0 then blocks (take (length q div 16 * 16) q) (take (length q div 16 * 16) row) else f32_0"]
  by (auto simp: fp16_kernel_def Let_def)

text \<open>The kernels of every variant can be called on vectors of the same length.\<close>

lemma Variant_kernels_ok:
  assumes "Variant_Kernels M v = Inr K"
  shows "kernels_ok K"
proof -
  have p: "dotProductPure M q r \<noteq> None" "l2SquaredPure M q r \<noteq> None" if "length q = length r" for q r
    using fold_pairs_returns [of q r "dot_step M" f32_0] fold_pairs_returns [of q r "l2_step M" f32_0] that
    by (simp_all add: dotProductPure_def l2SquaredPure_def)
  have l: "dotProductPortable M q r \<noteq> None" "l2SquaredPortable M q r \<noteq> None" if "length q = length r" for q r
    using portable_returns [OF that] by (simp_all add: dotProductPortable_def l2SquaredPortable_def)
  have a: "dotProductAVX512 q r \<noteq> None" "l2SquaredAVX512 q r \<noteq> None" if "length q = length r" for q r
    using avx512_returns [OF that] by (simp_all add: dotProductAVX512_def l2SquaredAVX512_def)
  have h: "dotFP16AVX512 M q r \<noteq> None" "l2FP16AVX512 M q r \<noteq> None" if "length q = length r" for q r
    using fp16_kernel_returns [OF that] by (simp_all add: dotFP16AVX512_def l2FP16AVX512_def)
  have d: "decodeFP16AVX512 dst r \<noteq> None" if "length dst = length r" for dst r using that by (simp add: decodeFP16AVX512_def Let_def)
  consider "v = Pure" "K = no_kernels\<lparr>k_Name := ''pure'', k_Dot := Some (dotProductPure M), k_L2 := Some (l2SquaredPure M)\<rparr>"
    | "K = simdKernels M" | "K = fp16Kernels M"
    using assms by (auto simp: Variant_Kernels_def split: if_splits)
  then show ?thesis
    by cases (use p l a h d in \<open>simp_all add: kernels_ok_def simdKernels_def fp16Kernels_def no_kernels_def\<close>)
qed

lemma NewTable_ok: "kernels_ok K \<Longrightarrow> table_ok (NewTable K)"
  by (simp add: table_ok_def NewTable_def)

lemma fmmap_ident [simp]: "fmmap (\<lambda>v. v) m = m"
  by (rule fmap_ext) (simp add: option.map_ident)

lemma Clone_eq: "Table_Clone t = t"
proof -
  have "map (\<lambda>a. case a of None \<Rightarrow> None | Some v \<Rightarrow> Some v) = (\<lambda>xs :: AttributeValue option list. xs)"
    by (rule ext) (auto simp: map_idI split: option.split)
  moreover have "(\<lambda>v. \<lparr>vc_dim = vc_dim v, vc_data = vc_data v, vc_data16 = vc_data16 v, vc_hasVec = vc_hasVec v, vc_invNorms = vc_invNorms v\<rparr>)
      = (\<lambda>v :: flatVectorCol. v)" by (rule ext) simp
  ultimately show ?thesis by (simp add: Table_Clone_def)
qed

subsection \<open>A table and its documents\<close>

definition no_nil :: "attributes \<Rightarrow> bool" where "no_nil attrs \<longleftrightarrow> (\<forall>k. fmlookup attrs k \<noteq> Some None)"

text \<open>A small table for the examples.\<close>

definition K0 :: Kernels where "K0 = no_kernels\<lparr>k_Name := ''pure'', k_Dot := Some (dotProductPure M0), k_L2 := Some (l2SquaredPure M0)\<rparr>"

definition red :: AttributeValue where "red = AttributeValue_StringValue ''red''"

definition T1 :: Table where
  "T1 = snd (Table_Upsert M0 ''a'' [(''v'', [f32_2, f32_3])] (fmap_of_list [(''colour'', Some red)]) (NewTable K0))"

lemma T0_ok: "table_ok (NewTable K0)"
proof -
  have "Variant_Kernels M0 Pure = Inr K0" by (simp add: Variant_Kernels_def K0_def)
  then show ?thesis by (intro NewTable_ok Variant_kernels_ok)
qed

lemma T1_run: "Table_Upsert M0 ''a'' [(''v'', [f32_2, f32_3])] (fmap_of_list [(''colour'', Some red)]) (NewTable K0) = (None, T1)"
  by (simp add: T1_def Table_Upsert_def NewTable_def add_columns_def is16_def K0_def no_kernels_def Let_def)

lemma T1_ok: "table_ok T1"
  using Upsert_spec [OF T0_ok _ T1_run] by simp

text \<open>
  C31. Inserting or updating a document changes that document alone. When \<open>Upsert\<close> succeeds, the document has the given vectors (as the
  column's precision stores them) and attributes, keeps the others it had if it was there, and has no others if it was deleted or
  new; no other document changes. When it fails, because the identifier is empty, a dimension differs or a value does not
  fit half precision, the table is as it was.
\<close>

theorem Upsert_merges:
  assumes "table_ok t" and "distinct (map fst vectors)" and "no_nil attrs"
  shows "case Table_Upsert M docID vectors attrs t of
      (Some err, t') \<Rightarrow> t' = t
    | (None, t') \<Rightarrow> docs t' = (docs t)(docID \<mapsto> upsert_doc M t vectors attrs (docs t docID))"
proof -
  obtain r t' where run: "Table_Upsert M docID vectors attrs t = (r, t')" by fastforce
  have nil: "(\<lambda>k. case (fmlookup attrs k, fmlookup (tb_index t) docID) of (Some None, Some row) \<Rightarrow> attr_of t row k
      | _ \<Rightarrow> snd (upsert_doc M t vectors attrs (docs t docID)) k) = snd (upsert_doc M t vectors attrs (docs t docID))"
    using assms(3) by (auto simp: fun_eq_iff no_nil_def split: option.split)
  from Upsert_spec [OF assms(1,2) run, unfolded nil] show ?thesis by (auto simp: run fun_eq_iff split: option.splits)
qed

theorem Upsert_merges_witness:
  "docs T1 ''a'' = Some ([''v'' \<mapsto> [f32_2, f32_3]], [''colour'' \<mapsto> red]) \<and> docs T1 ''b'' = None"
proof -
  let ?attrs = "fmap_of_list [(''colour'', Some red)]"
  have dist: "distinct (map fst [(''v'', [f32_2, f32_3])])" by simp
  have n: "no_nil ?attrs" by (auto simp: no_nil_def fmlookup_of_list)
  have d: "docs (NewTable K0) x = None" for x by (simp add: docs_def NewTable_def)
  have h: "\<not> is16 (NewTable K0)" by (simp add: is16_def NewTable_def K0_def no_kernels_def)
  have "docs T1 = (docs (NewTable K0))(''a'' \<mapsto> upsert_doc M0 (NewTable K0) [(''v'', [f32_2, f32_3])] ?attrs None)"
    using Upsert_merges [OF T0_ok dist n, where M = M0 and docID = "''a''"] by (simp only: T1_run prod.case option.case d)
  then show ?thesis using h by (auto simp: d upsert_doc_def old_doc_def stored_def stage_one_def fmlookup_of_list fun_eq_iff)
qed

text \<open>
  C32. Deleting and reading. \<open>Delete\<close> answers whether the document was there, removes it and leaves every other; \<open>Get\<close> returns exactly the
  document of the map, with each of its vectors and attributes, and nothing for one that is not there or was deleted.
\<close>

theorem Delete_and_Get:
  assumes "table_ok t"
  shows "fst (Table_Delete docID t) = Some (docs t docID \<noteq> None) \<and> docs (snd (Table_Delete docID t)) = (docs t)(docID := None)
    \<and> (case docs t x of
         None \<Rightarrow> Table_Get t x = Inr None
       | Some (vs, as) \<Rightarrow> \<exists>rec. Table_Get t x = Inr (Some rec) \<and> r_Id rec = x
           \<and> (\<forall>col. fmlookup (r_Vectors rec) col = map_option Some (vs col)) \<and> (\<forall>k. fmlookup (r_Attributes rec) k = map_option Some (as k)))"
  using Delete_spec [OF assms, of docID] Get_spec [OF assms, of x] by simp

lemma T1_docs: "docs T1 ''a'' \<noteq> None"
  using Upsert_spec [OF T0_ok _ T1_run] by simp

theorem Delete_and_Get_witness:
  "fst (Table_Delete ''a'' T1) = Some True \<and> docs (snd (Table_Delete ''a'' T1)) ''a'' = None
    \<and> (\<exists>rec. Table_Get T1 ''a'' = Inr (Some rec) \<and> r_Id rec = ''a'') \<and> Table_Get (NewTable K0) ''a'' = Inr None"
proof -
  have "docs (NewTable K0) ''a'' = None" by (simp add: docs_def NewTable_def)
  then show ?thesis using Delete_and_Get [OF T1_ok, of "''a''" "''a''"] Delete_and_Get [OF T0_ok, of "''b''" "''a''"] T1_docs
    by (auto split: option.splits)
qed


definition T2 :: Table where "T2 = snd (Table_Delete ''a'' T1)"


end
