(* ===== verification/Search_Properties.thy ===== *)
theory Search_Properties
  imports Table_Properties
begin

text \<open>
  Properties of \<open>Search\<close> in \<open>src/query/table.go\<close>: the comparison of hits is a total preorder (the interpretations of \<open>comparator\<close>), so that the
  bounded heap finds the best hits; on a well-formed table nothing panics; every table a program can build is well-formed.
\<close>

subsection \<open>The order of scores\<close>

text \<open>A key that orders all \<open>float32\<close> values, those that are not numbers first.\<close>

definition fkey :: "float32 \<Rightarrow> real" where
  "fkey x = (case val32 x of NaN \<Rightarrow> - 3 | Inf s \<Rightarrow> if s then - 2 else 2 | Fin s m e \<Rightarrow> arctan (rval (Fin s m e)))"

lemma arctan_range: "- 2 < arctan x" "arctan x < 2"
  using arctan_bounded [of x] pi_less_4 by linarith+

lemma fkey_NaN: "IsNaN x \<longleftrightarrow> fkey x = - 3" "- 3 \<le> fkey x"
proof -
  have "IsNaN x \<and> fkey x = - 3 \<or> \<not> IsNaN x \<and> - 3 < fkey x"
  proof (cases "val32 x")
    case (Fin s m e)
    then show ?thesis using arctan_range(1) [of "rval (Fin s m e)"] by (simp add: fkey_def IsNaN_def)
  qed (simp_all add: fkey_def IsNaN_def)
  then show "IsNaN x \<longleftrightarrow> fkey x = - 3" "- 3 \<le> fkey x" by auto
qed

lemma flt_key: "flt x y \<longleftrightarrow> \<not> IsNaN x \<and> \<not> IsNaN y \<and> fkey x < fkey y"
proof (cases "val32 x")
  case NaN
  then show ?thesis by (simp add: flt_def val_less_def IsNaN_def)
next
  case (Inf s)
  note x = Inf
  show ?thesis
  proof (cases "val32 y")
    case (Fin t n f)
    then show ?thesis using x arctan_range [of "rval (Fin t n f)"] by (auto simp: flt_def val_less_def IsNaN_def fkey_def)
  qed (use x in \<open>auto simp: flt_def val_less_def IsNaN_def fkey_def\<close>)
next
  case (Fin s m e)
  note x = Fin
  show ?thesis
  proof (cases "val32 y")
    case (Inf t)
    then show ?thesis using x arctan_range [of "rval (Fin s m e)"] by (auto simp: flt_def val_less_def IsNaN_def fkey_def)
  next
    case (Fin t n f)
    then show ?thesis using x rval_less [of "Fin s m e" "Fin t n f"] by (simp add: flt_def IsNaN_def fkey_def arctan_less_iff)
  qed (simp add: x flt_def val_less_def IsNaN_def)
qed

lemma feq_key: "feq x y \<longleftrightarrow> \<not> IsNaN x \<and> \<not> IsNaN y \<and> fkey x = fkey y"
proof -
  have "feq x y \<longleftrightarrow> \<not> IsNaN x \<and> \<not> IsNaN y \<and> \<not> flt x y \<and> \<not> flt y x" by (simp add: feq_def val_eq_def flt_def IsNaN_def)
  then show ?thesis by (auto simp: flt_key)
qed

lemma Compare_key: "cmp_Compare x y = (if fkey x < fkey y then - 1 else if fkey y < fkey x then 1 else 0)"
  using fkey_NaN(2) [of x] fkey_NaN(2) [of y] by (auto simp: cmp_Compare_def flt_key fkey_NaN(1))

text \<open>The order behind a comparison: by key, then by identifier if the scores are numbers.\<close>

definition hit_le :: "real \<Rightarrow> searchHit \<Rightarrow> searchHit \<Rightarrow> bool" where
  "hit_le d a b \<longleftrightarrow> d * fkey (sh_score a) < d * fkey (sh_score b)
     \<or> fkey (sh_score a) = fkey (sh_score b) \<and> (IsNaN (sh_score a) \<or> sh_id a \<le> sh_id b)"

lemma cmpAsc_le: "cmpAsc a b \<le> 0 \<longleftrightarrow> hit_le 1 a b"
  by (auto simp: cmpAsc_def hit_le_def Compare_key feq_key strings_Compare_def fkey_NaN(1))

lemma cmpDesc_le: "cmpDesc a b \<le> 0 \<longleftrightarrow> hit_le (- 1) a b"
  by (auto simp: cmpDesc_def hit_le_def Compare_key feq_key strings_Compare_def fkey_NaN(1))

lemma strings_Compare_sym: "strings_Compare a b < 0 \<longleftrightarrow> 0 < strings_Compare b a"
  by (auto simp: strings_Compare_def)

lemma IsNaN_key: "fkey x = fkey y \<Longrightarrow> IsNaN x \<longleftrightarrow> IsNaN y"
  by (simp add: fkey_NaN(1))

lemma hit_le_trans: "hit_le d a b \<Longrightarrow> hit_le d b c \<Longrightarrow> hit_le d a c"
  by (auto simp: hit_le_def fkey_NaN(1))

interpretation asc: comparator cmpAsc
proof
  show "cmpAsc x y < 0 \<longleftrightarrow> 0 < cmpAsc y x" for x y
    by (auto simp: cmpAsc_def Compare_key feq_key strings_Compare_def)
  show "cmpAsc x z \<le> 0" if "cmpAsc x y \<le> 0" "cmpAsc y z \<le> 0" for x y z
    using that hit_le_trans unfolding cmpAsc_le by blast
qed

interpretation desc: comparator cmpDesc
proof
  show "cmpDesc x y < 0 \<longleftrightarrow> 0 < cmpDesc y x" for x y
    by (auto simp: cmpDesc_def Compare_key feq_key strings_Compare_def)
  show "cmpDesc x z \<le> 0" if "cmpDesc x y \<le> 0" "cmpDesc y z \<le> 0" for x y z
    using that hit_le_trans unfolding cmpDesc_le by blast
qed

interpretation hits: comparator "hit_cmp metric" for metric
  using asc.comparator_axioms desc.comparator_axioms by (simp add: hit_cmp_def)

lemma hit_worse_cmp: "hit_worse metric x y \<Longrightarrow> 0 < hit_cmp metric x y"
  by (cases "metric = DISTANCE_METRIC_DOT_PRODUCT")
    (simp_all add: hit_worse_def hit_cmp_def cmpAsc_def cmpDesc_def Compare_key feq_key flt_key)

lemma hit_le_antisym: "hit_le d x y \<Longrightarrow> hit_le d y x \<Longrightarrow> \<not> IsNaN (sh_score x) \<Longrightarrow> sh_id x = sh_id y"
proof -
  assume le: "hit_le d x y" "hit_le d y x" and n: "\<not> IsNaN (sh_score x)"
  have k: "fkey (sh_score x) = fkey (sh_score y)"
  proof (rule ccontr)
    assume "fkey (sh_score x) \<noteq> fkey (sh_score y)"
    with le have "d * fkey (sh_score x) < d * fkey (sh_score y)" "d * fkey (sh_score y) < d * fkey (sh_score x)" unfolding hit_le_def by metis+
    then show False by (rule less_asym)
  qed
  have "\<not> IsNaN (sh_score y)" using n IsNaN_key [OF k] by simp
  then have "sh_id x \<le> sh_id y" "sh_id y \<le> sh_id x" using le n unfolding hit_le_def k by simp_all
  then show ?thesis by (rule antisym)
qed

lemma hit_cmp_antisym:
  assumes "hit_cmp metric x y \<le> 0" and "hit_cmp metric y x \<le> 0" and "\<not> IsNaN (sh_score x)"
  shows "sh_id x = sh_id y"
proof (cases "metric = DISTANCE_METRIC_DOT_PRODUCT")
  case True
  with assms(1,2) have "hit_le (- 1) x y" "hit_le (- 1) y x" by (simp_all add: hit_cmp_def flip: cmpDesc_le)
  then show ?thesis using assms(3) by (rule hit_le_antisym)
next
  case False
  with assms(1,2) have "hit_le 1 x y" "hit_le 1 y x" by (simp_all add: hit_cmp_def flip: cmpAsc_le)
  then show ?thesis using assms(3) by (rule hit_le_antisym)
qed

subsection \<open>The scan\<close>

definition kept :: "(nat \<Rightarrow> searchHit option option) \<Rightarrow> nat list \<Rightarrow> searchHit list" where
  "kept f rows = concat (map (\<lambda>r. case f r of Some (Some c) \<Rightarrow> [c] | _ \<Rightarrow> []) rows)"

lemma scan_loop_kept: "(\<And>r. r \<in> set rows \<Longrightarrow> f r \<noteq> None) \<Longrightarrow> scan_loop f off rows h = Some (foldl off h (kept f rows))"
proof (induction rows arbitrary: h)
  case (Cons r rows)
  from Cons.prems [of r] obtain x where "f r = Some x" by auto
  with Cons show ?case by (cases x) (simp_all add: kept_def)
qed (simp add: kept_def)

lemma call_kernel_returns:
  assumes "kernels_ok K" and "col_ok (k_Dot16 K \<noteq> None) n c" and "row < n" and "length query = vc_dim c"
  shows "\<exists>s. call_kernel (k_Dot K) (k_Dot16 K) c query row = Some s" and "\<exists>s. call_kernel (k_L2 K) (k_L216 K) c query row = Some s"
  using assms row_bound [OF assms(3), of "vc_dim c"]
  by (auto simp: call_kernel_def col_ok_def kernels_ok_def slice_def Let_def split: if_splits)

lemma candidate_returns:
  assumes t: "table_ok t" and c: "fmlookup (tb_vectors t) col = Some c" and row: "row < tb_numRows t" and q: "length query = vc_dim c"
  shows "candidate peq t c query metric invQ filt row \<noteq> None"
proof -
  have k: "kernels_ok (tb_kernels t)" "col_ok (k_Dot16 (tb_kernels t) \<noteq> None) (tb_numRows t) c"
    using t c by (auto simp: table_ok_def is16_def)
  note call_kernel_returns [OF k row q]
  then have "row_score (tb_kernels t) metric c query invQ row \<noteq> None" using k(2) row by (auto simp: row_score_def col_ok_def)
  then show ?thesis using t row k(2) by (auto simp: candidate_def table_ok_def col_ok_def split: option.split)
qed

lemma candidate_hit:
  assumes "candidate peq t c query metric invQ filt row = Some (Some hit)"
  shows "sh_row hit = row \<and> sh_id hit = tb_docIDs t ! row \<and> \<not> tb_tombstones t ! row"
  using assms by (auto simp: candidate_def split: if_splits option.splits)

text \<open>The candidates of a search: the rows that are alive, have a vector and pass the filter, with their scores.\<close>

definition candidates where
  "candidates peq t c query metric invQ filt = kept (candidate peq t c query metric invQ filt) [0..<tb_numRows t]"

lemma candidates_hit:
  assumes "table_ok t" and "hit \<in> set (candidates peq t c query metric invQ filt)"
  shows "sh_row hit < tb_numRows t \<and> candidate peq t c query metric invQ filt (sh_row hit) = Some (Some hit)
    \<and> fmlookup (tb_index t) (sh_id hit) = Some (sh_row hit) \<and> \<not> tb_tombstones t ! sh_row hit"
proof -
  from assms(2) obtain row where row: "row < tb_numRows t" "candidate peq t c query metric invQ filt row = Some (Some hit)"
    by (auto simp: candidates_def kept_def split: option.splits)
  with candidate_hit [OF row(2)] assms(1) show ?thesis by (auto simp: table_ok_def)
qed

lemma materialize_returns:
  assumes "table_ok t"
    and "\<And>h. h \<in> set hs \<Longrightarrow> sh_row h < tb_numRows t \<and> fmlookup (tb_index t) (sh_id h) = Some (sh_row h) \<and> \<not> tb_tombstones t ! sh_row h"
  shows "\<exists>rs. materialize t hs = Some rs \<and> list_all2 (\<lambda>h r. sr_Score r = sh_score h \<and> Table_Get t (sh_id h) = Inr (Some (sr_Record r))) hs rs"
  using assms(2)
proof (induction hs)
  case (Cons h hs)
  then obtain rs where rs: "materialize t hs = Some rs"
    "list_all2 (\<lambda>h r. sr_Score r = sh_score h \<and> Table_Get t (sh_id h) = Inr (Some (sr_Record r))) hs rs" by auto
  from Cons.prems [of h] recordAt_ok [OF assms(1), of "sh_row h" "sh_id h"] obtain rec where rec: "recordAt t (sh_row h) (sh_id h) = Some rec" by auto
  moreover from this Cons.prems [of h] have "Table_Get t (sh_id h) = Inr (Some rec)" by (simp add: Table_Get_def isTombstoned_def)
  ultimately show ?case using rs by simp
qed simp

text \<open>A sorted list is determined by its elements if the order is antisymmetric on them.\<close>

lemma sorted_unique:
  assumes "sorted_wrt R xs" and "sorted_wrt R ys" and "mset xs = mset ys" and "\<And>x y. x \<in> set xs \<Longrightarrow> y \<in> set xs \<Longrightarrow> R x y \<Longrightarrow> R y x \<Longrightarrow> x = y"
  shows "xs = ys"
  using assms
proof (induction xs arbitrary: ys)
  case (Cons x xs)
  from Cons.prems(3) obtain y zs where ys: "ys = y # zs" by (cases ys) auto
  have in1: "y \<in> set (x # xs)" "x \<in> set (y # zs)" using Cons.prems(3) ys by (metis list.set_intros(1) mset_eq_setD)+
  have "x = y"
  proof (rule ccontr)
    assume ne: "x \<noteq> y"
    with in1 Cons.prems(1,2) ys have "R x y" "R y x" by auto
    with Cons.prems(4) [of x y] in1 ne show False by auto
  qed
  with Cons ys show ?case by auto
qed simp

lemma search_rows_best:
  assumes t: "table_ok t" and c: "fmlookup (tb_vectors t) col = Some c" and q: "length query = vc_dim c" and k: "0 < topK"
  shows "\<exists>hs rest rs. search_rows peq t c query topK metric invQ filt = Inr rs
    \<and> mset (candidates peq t c query metric invQ filt) = mset hs + mset rest
    \<and> length hs = min (nat topK) (length (candidates peq t c query metric invQ filt))
    \<and> sorted_wrt (\<lambda>x y. hit_cmp metric x y \<le> 0) hs \<and> (\<forall>x \<in> set hs. \<forall>y \<in> set rest. hit_cmp metric x y \<le> 0)
    \<and> list_all2 (\<lambda>h r. sr_Score r = sh_score h \<and> Table_Get t (sh_id h) = Inr (Some (sr_Record r))) hs rs"
proof -
  let ?f = "candidate peq t c query metric invQ filt" and ?cs = "candidates peq t c query metric invQ filt"
  let ?h = "foldl (offer (hit_cmp metric) (hit_worse metric) (nat topK)) [] ?cs"
  define hs where "hs = SortFunc (hit_cmp metric) ?h"
  have scan: "scan_loop ?f (offer (hit_cmp metric) (hit_worse metric) (nat topK)) [0..<tb_numRows t] [] = Some ?h"
    unfolding candidates_def by (rule scan_loop_kept) (use candidate_returns [OF t c _ q] in simp)
  have "hits.best_of metric (nat topK) (mset ?cs) (mset ?h)"
    using hits.scan_best [of "nat topK" "hit_worse metric" metric ?cs] k hit_worse_cmp by simp
  then have b: "mset hs \<subseteq># mset ?cs" "size (mset hs) = min (nat topK) (size (mset ?cs))"
      "\<forall>x \<in># mset hs. \<forall>y \<in># mset ?cs - mset hs. hit_cmp metric x y \<le> 0"
    by (simp_all add: hits.best_of_def hs_def)
  obtain rest where rest: "mset ?cs - mset hs = mset rest" by (metis ex_mset)
  have sub: "set hs \<subseteq> set ?cs" using b(1) by (metis set_mset_mono set_mset_mset)
  have row: "sh_row h < tb_numRows t \<and> fmlookup (tb_index t) (sh_id h) = Some (sh_row h) \<and> \<not> tb_tombstones t ! sh_row h" if "h \<in> set hs" for h
    using candidates_hit [OF t] sub that by blast
  from materialize_returns [OF t row] obtain rs where rs: "materialize t hs = Some rs"
    "list_all2 (\<lambda>h r. sr_Score r = sh_score h \<and> Table_Get t (sh_id h) = Inr (Some (sr_Record r))) hs rs" by blast
  have "search_rows peq t c query topK metric invQ filt = Inr rs" using scan rs(1) by (simp add: search_rows_def hs_def)
  moreover have "mset ?cs = mset hs + mset rest" using b(1) rest by (metis subset_mset.add_diff_inverse)
  moreover have "sorted_wrt (\<lambda>x y. hit_cmp metric x y \<le> 0) hs" by (simp add: hs_def hits.SortFunc_sorted)
  moreover have "length hs = min (nat topK) (length ?cs)" using b(2) by simp
  moreover have "\<forall>x \<in> set hs. \<forall>y \<in> set rest. hit_cmp metric x y \<le> 0" using b(3) by (simp add: rest)
  ultimately show ?thesis using rs(2) by blast
qed

subsection \<open>Searching\<close>

text \<open>What a search looks at: the column, the norm of the query, and the column of the filter with its value.\<close>

definition search_setup where
  "search_setup M t col query metric filt c invQ ff \<longleftrightarrow> fmlookup (tb_vectors t) col = Some c \<and> length query = vc_dim c
     \<and> query_norm M metric query = Inr invQ
     \<and> (case filt of None \<Rightarrow> ff = None
        | Some f \<Rightarrow> (\<exists>colAttrs. fmlookup (tb_attrs t) (ef_Field f) = Some colAttrs \<and> ff = Some (colAttrs, ef_Value f)))"

lemma Search_rows:
  assumes "table_ok t" and "0 < topK" and "search_setup M t col query metric filt c invQ ff"
  shows "Table_Search M peq t col query topK metric filt = search_rows peq t c query topK metric invQ ff"
proof (cases "tb_numRows t = 0")
  case True
  then have "search_rows peq t c query topK metric invQ ff = Inr []" by (simp add: search_rows_def SortFunc_def)
  with True assms show ?thesis by (simp add: Table_Search_def search_setup_def)
next
  case False
  with assms show ?thesis by (auto simp: Table_Search_def search_setup_def split: option.splits)
qed

lemma best_is_prefix:
  assumes t: "table_ok t" and nn: "\<And>h. h \<in> set (candidates peq t c query metric invQ ff) \<Longrightarrow> \<not> IsNaN (sh_score h)"
    and m: "mset (candidates peq t c query metric invQ ff) = mset hs + mset rest"
    and l: "length hs = min k (length (candidates peq t c query metric invQ ff))"
    and s: "sorted_wrt (\<lambda>x y. hit_cmp metric x y \<le> 0) hs" and b: "\<forall>x \<in> set hs. \<forall>y \<in> set rest. hit_cmp metric x y \<le> 0"
  shows "hs = take k (SortFunc (hit_cmp metric) (candidates peq t c query metric invQ ff))"
proof -
  let ?cs = "candidates peq t c query metric invQ ff" and ?R = "\<lambda>x y. hit_cmp metric x y \<le> 0"
  have "hs @ SortFunc (hit_cmp metric) rest = SortFunc (hit_cmp metric) ?cs"
  proof (rule sorted_unique [of ?R])
    have "set (SortFunc (hit_cmp metric) rest) = set rest" by (metis mset_SortFunc set_mset_mset)
    then show "sorted_wrt ?R (hs @ SortFunc (hit_cmp metric) rest)" using s b hits.SortFunc_sorted [of metric rest] by (auto simp: sorted_wrt_append)
    show "sorted_wrt ?R (SortFunc (hit_cmp metric) ?cs)" by (rule hits.SortFunc_sorted)
    show "mset (hs @ SortFunc (hit_cmp metric) rest) = mset (SortFunc (hit_cmp metric) ?cs)" by (simp add: m)
    have eq: "set (hs @ SortFunc (hit_cmp metric) rest) = set ?cs"
      by (metis m mset_SortFunc mset_append mset_eq_setD)
    show "x = y" if "x \<in> set (hs @ SortFunc (hit_cmp metric) rest)" "y \<in> set (hs @ SortFunc (hit_cmp metric) rest)" "?R x y" "?R y x" for x y
    proof -
      from that have "x \<in> set ?cs" "y \<in> set ?cs" by (simp_all only: eq)
      with candidates_hit [OF t] nn hit_cmp_antisym [OF that(3,4)]
      have "candidate peq t c query metric invQ ff (sh_row x) = Some (Some x)" "candidate peq t c query metric invQ ff (sh_row y) = Some (Some y)"
        "fmlookup (tb_index t) (sh_id x) = Some (sh_row x)" "fmlookup (tb_index t) (sh_id y) = Some (sh_row y)" "sh_id x = sh_id y" by blast+
      then show ?thesis by simp
    qed
  qed
  then have "take k (SortFunc (hit_cmp metric) ?cs) = take k (hs @ SortFunc (hit_cmp metric) rest)" by simp
  moreover have "length ?cs = length hs + length rest" using arg_cong [OF m, of size] by simp
  then have "k = length hs \<or> rest = [] \<and> length hs \<le> k" using l by (cases rest) (auto simp: min_def split: if_splits)
  then have "take k (hs @ SortFunc (hit_cmp metric) rest) = hs" by (auto simp: SortFunc_def)
  ultimately show ?thesis by simp
qed

text \<open>
  C34. A search returns the best documents. On a well-formed table, whatever kernels it has, the hits of a search are the best \<open>topK\<close> of all
  rows that are alive, have a vector in the column and pass the filter, best first, each with its document as \<open>Get\<close> returns it and its score;
  there are fewer only if there are not as many. If no score fails to be a number, they are the first \<open>topK\<close> of all
  candidates sorted by score and identifier.
\<close>

theorem Search_topk:
  fixes peq :: "AttributeValue \<Rightarrow> AttributeValue option \<Rightarrow> bool"
  assumes "table_ok t" and "0 < topK" and "search_setup M t col query metric filt c invQ ff"
  defines "cs \<equiv> candidates peq t c query metric invQ ff"
  shows "\<exists>hs rest rs. Table_Search M peq t col query topK metric filt = Inr rs
    \<and> list_all2 (\<lambda>h r. sr_Score r = sh_score h \<and> Table_Get t (sh_id h) = Inr (Some (sr_Record r))) hs rs
    \<and> mset cs = mset hs + mset rest \<and> length hs = min (nat topK) (length cs)
    \<and> sorted_wrt (\<lambda>x y. hit_cmp metric x y \<le> 0) hs \<and> (\<forall>x \<in> set hs. \<forall>y \<in> set rest. hit_cmp metric x y \<le> 0)
    \<and> ((\<forall>h \<in> set cs. \<not> IsNaN (sh_score h)) \<longrightarrow> hs = take (nat topK) (SortFunc (hit_cmp metric) cs))"
proof -
  have s: "fmlookup (tb_vectors t) col = Some c" "length query = vc_dim c" using assms(3) by (simp_all add: search_setup_def)
  from search_rows_best [OF assms(1) s assms(2), of peq metric invQ ff, folded cs_def] obtain hs rest rs where
    r: "search_rows peq t c query topK metric invQ ff = Inr rs" "mset cs = mset hs + mset rest" "length hs = min (nat topK) (length cs)"
      "sorted_wrt (\<lambda>x y. hit_cmp metric x y \<le> 0) hs" "\<forall>x \<in> set hs. \<forall>y \<in> set rest. hit_cmp metric x y \<le> 0"
      "list_all2 (\<lambda>h r. sr_Score r = sh_score h \<and> Table_Get t (sh_id h) = Inr (Some (sr_Record r))) hs rs" by blast
  have "hs = take (nat topK) (SortFunc (hit_cmp metric) cs)" if "\<forall>h \<in> set cs. \<not> IsNaN (sh_score h)"
    unfolding cs_def by (rule best_is_prefix [OF assms(1)]) (use that r in \<open>simp_all add: cs_def\<close>)
  then show ?thesis using r Search_rows [OF assms(1-3), of peq] by auto
qed

theorem Search_topk_witness:
  "\<exists>(hs :: searchHit list) rs. Table_Search M0 (\<lambda>a b. Some a = b) T1 ''v'' [f32_2, f32_3] 5 DISTANCE_METRIC_DOT_PRODUCT None = Inr rs
    \<and> list_all2 (\<lambda>h r. sr_Score r = sh_score h \<and> Table_Get T1 (sh_id h) = Inr (Some (sr_Record r))) hs rs
    \<and> length hs = 1 \<and> sh_id (hs ! 0) = ''a''"
proof -
  let ?c = "\<lparr>vc_dim = 2, vc_data = [f32_2, f32_3], vc_data16 = None, vc_hasVec = [True], vc_invNorms = [vectorInvNorm M0 [f32_2, f32_3]]\<rparr>"
  have k: "tb_kernels T1 = K0" "tb_numRows T1 = 1" "tb_docIDs T1 = [''a'']" "tb_tombstones T1 = [False]"
      "fmlookup (tb_vectors T1) ''v'' = Some ?c"
    by (simp_all add: T1_def Table_Upsert_def NewTable_def add_columns_def append_row_def append_vector_def new_vector_col_def is16_def K0_def
        no_kernels_def Let_def)
  have s: "search_setup M0 T1 ''v'' [f32_2, f32_3] DISTANCE_METRIC_DOT_PRODUCT None ?c f32_0 None"
    using k(5) by (simp add: search_setup_def query_norm_def DISTANCE_METRIC_DOT_PRODUCT_def DISTANCE_METRIC_COSINE_def
        DISTANCE_METRIC_EUCLIDEAN_SQUARED_def)
  obtain x where x: "dotProductPure M0 [f32_2, f32_3] [f32_2, f32_3] = Some x" by (simp add: dotProductPure_def)
  have cs: "candidates (\<lambda>a b. Some a = b) T1 ?c [f32_2, f32_3] DISTANCE_METRIC_DOT_PRODUCT f32_0 None = [\<lparr>sh_row = 0, sh_id = ''a'', sh_score = x\<rparr>]"
    using x by (simp add: candidates_def kept_def candidate_def k passes_filter_def row_score_def call_kernel_def slice_def K0_def no_kernels_def
        DISTANCE_METRIC_DOT_PRODUCT_def DISTANCE_METRIC_COSINE_def DISTANCE_METRIC_EUCLIDEAN_SQUARED_def)
  obtain hs rest rs where r: "Table_Search M0 (\<lambda>a b. Some a = b) T1 ''v'' [f32_2, f32_3] 5 DISTANCE_METRIC_DOT_PRODUCT None = Inr rs"
      "list_all2 (\<lambda>h r. sr_Score r = sh_score h \<and> Table_Get T1 (sh_id h) = Inr (Some (sr_Record r))) hs rs"
      "mset [\<lparr>sh_row = 0, sh_id = ''a'', sh_score = x\<rparr>] = mset hs + mset rest" "length hs = 1"
    using Search_topk [OF T1_ok _ s, of 5 "\<lambda>a b. Some a = b", unfolded cs] by auto
  from r(4) obtain h where h: "hs = [h]" by (auto simp: length_Suc_conv)
  then have "h = \<lparr>sh_row = 0, sh_id = ''a'', sh_score = x\<rparr>" using r(3) by (auto simp: single_is_union)
  then have "sh_id (hs ! 0) = ''a''" using h by simp
  with r(1,2,4) show ?thesis by blast
qed

subsection \<open>Every table\<close>

text \<open>The tables a program can build: a new one, changed by any operations.\<close>

inductive table_step :: "machine \<Rightarrow> Table \<Rightarrow> Table \<Rightarrow> bool" for M where
  step_upsert: "distinct (map fst vectors) \<Longrightarrow> table_step M t (snd (Table_Upsert M docID vectors attrs t))"
| step_record: "table_step M t (snd (UpsertRecord M rec t))"
| step_delete: "table_step M t (snd (Table_Delete docID t))"
| step_clone: "table_step M t (Table_Clone t)"

lemma record_vectors_keys: "record_vectors vs = Inr r \<Longrightarrow> map fst r = map fst vs"
  by (induction vs arbitrary: r rule: record_vectors.induct) (auto split: option.splits sum.splits)

lemma sorted_list_keys: "distinct (map fst (sorted_list_of_fmap m))"
  by (simp add: sorted_list_of_fmap_def comp_def sorted_list_of_fset.rep_eq)

lemma UpsertRecord_upserts:
  "fst (UpsertRecord M rec t) \<noteq> None \<and> snd (UpsertRecord M rec t) = t \<and> \<not> is_panic (the (fst (UpsertRecord M rec t)))
    \<or> (\<exists>docID vectors attrs. distinct (map fst vectors) \<and> UpsertRecord M rec t = Table_Upsert M docID vectors attrs t)"
proof (cases rec)
  case None
  then show ?thesis by (simp add: UpsertRecord_def is_panic_def)
next
  case (Some r)
  have np: "record_vectors vs \<noteq> Inl (Panic m)" for vs m by (induction vs rule: record_vectors.induct) (auto split: option.splits sum.splits)
  show ?thesis
  proof (cases "record_vectors (sorted_list_of_fmap (r_Vectors r))")
    case (Inl err)
    then show ?thesis using Some np [of "sorted_list_of_fmap (r_Vectors r)"] by (auto simp: UpsertRecord_def is_panic_def)
  next
    case (Inr vs)
    then have "distinct (map fst vs)" using record_vectors_keys sorted_list_keys by metis
    then show ?thesis using Some Inr by (auto simp: UpsertRecord_def)
  qed
qed

lemma table_step_ok: "table_step M t t' \<Longrightarrow> table_ok t \<Longrightarrow> table_ok t'"
proof (induction rule: table_step.cases)
  case (step_upsert vectors t docID attrs)
  then show ?case using Upsert_spec [of t vectors M docID attrs] by (cases "Table_Upsert M docID vectors attrs t") auto
next
  case (step_record t rec)
  then show ?case using UpsertRecord_upserts [of M rec t] Upsert_spec [of t] by (metis prod.collapse)
next
  case (step_delete t docID)
  then show ?case using Delete_spec by blast
next
  case (step_clone t)
  then show ?case by (simp add: Clone_eq)
qed

lemma Search_no_panic:
  assumes "table_ok t"
  shows "Table_Search M peq t col query topK metric filt \<noteq> Inl (Panic m)"
proof (cases "0 < topK \<and> (\<exists>c invQ ff. search_setup M t col query metric filt c invQ ff)")
  case True
  then obtain c invQ ff where s: "0 < topK" "search_setup M t col query metric filt c invQ ff" by blast
  then have "fmlookup (tb_vectors t) col = Some c" "length query = vc_dim c" by (simp_all add: search_setup_def)
  from search_rows_best [OF assms this s(1), of peq metric invQ ff] show ?thesis by (auto simp: Search_rows [OF assms s])
next
  case False
  have "query_norm M metric query \<noteq> Inl (Panic m)" by (simp add: query_norm_def Let_def ErrZeroVector_def)
  with False show ?thesis by (auto simp: Table_Search_def search_setup_def split: option.splits sum.splits if_splits)
qed

text \<open>
  C35. Every table is well-typed. Whatever sequence of operations built a table from a new one with the kernels of a variant, all columns
  have one entry per row and one vector of the column's dimension per row, in the precision of the kernels; the index and the list of
  identifiers are inverse to each other; and no operation panics on it: not \<open>Upsert\<close>, \<open>Delete\<close>, \<open>Get\<close>, or any search.
\<close>

theorem table_typed:
  assumes "Variant_Kernels M v = Inr K" and "(table_step M)\<^sup>*\<^sup>* (NewTable K) t"
  shows "table_ok t \<and> fst (UpsertRecord M rec t) \<noteq> Some (Panic m) \<and> fst (Table_Delete docID t) \<noteq> None \<and> Table_Get t docID \<noteq> Inl (Panic m)
    \<and> Table_Search M' peq t col query topK metric filt \<noteq> Inl (Panic m)"
proof -
  have t: "table_ok t" using assms(2) by (induction rule: rtranclp_induct) (auto intro: NewTable_ok Variant_kernels_ok [OF assms(1)] table_step_ok)
  have "fst (UpsertRecord M rec t) \<noteq> Some (Panic m)"
  proof
    assume p: "fst (UpsertRecord M rec t) = Some (Panic m)"
    with UpsertRecord_upserts [of M rec t] obtain i vectors attrs where
      "distinct (map fst vectors)" "Table_Upsert M i vectors attrs t = (Some (Panic m), snd (UpsertRecord M rec t))"
      by (auto simp: is_panic_def) (metis fst_conv prod.collapse)
    from Upsert_spec [OF t this] show False by (simp add: is_panic_def)
  qed
  moreover have "Table_Get t docID \<noteq> Inl (Panic m)" using Get_spec [OF t, of docID] by (auto split: option.splits)
  ultimately show ?thesis using t Delete_spec [OF t, of docID] Search_no_panic [OF t] by simp
qed

theorem table_typed_witness: "table_ok T2 \<and> Table_Get T2 ''a'' \<noteq> Inl (Panic [])"
proof -
  have v: "Variant_Kernels M0 Pure = Inr K0" by (simp add: Variant_Kernels_def K0_def)
  have "table_step M0 (NewTable K0) T1" unfolding T1_def by (rule step_upsert) simp
  moreover have "table_step M0 T1 T2" unfolding T2_def by (rule step_delete)
  ultimately have "(table_step M0)\<^sup>*\<^sup>* (NewTable K0) T2" by (meson converse_rtranclp_into_rtranclp rtranclp.rtrancl_refl)
  from table_typed [OF v this, where m = "[]" and docID = "''a''"] show ?thesis by simp
qed

end
