(* ===== verification/Loader_Properties.thy ===== *)
theory Loader_Properties
  imports Loader Flush_Properties Search_Properties
begin

text \<open>
  Properties of the loader and the engine (\<open>src/query/loader.go\<close>, \<open>src/query/engine.go\<close>). \<open>replay\<close> applies mutations to a table until one
  fails; \<open>apply_doc\<close> is the same on a map of documents, and a replay that succeeds refines it. A pass of a loader is a replay of the documents that the segments hold,
  with the manifests and segments as the properties of the flusher leave them.
\<close>

subsection \<open>Mutations\<close>

text \<open>Applying mutations until one fails.\<close>

fun replay :: "machine \<Rightarrow> Record codec \<Rightarrow> DocumentMutation list \<Rightarrow> Table \<Rightarrow> gerr option \<times> Table" where
  "replay M rcd [] t = (None, t)"
| "replay M rcd (m # ms) t =
     (case apply_mutation M rcd m t of (Some err, t') \<Rightarrow> (Some err, t') | (None, t') \<Rightarrow> replay M rcd ms t')"

lemma replay_append:
  "replay M rcd (xs @ ys) t = (case replay M rcd xs t of (Some err, t') \<Rightarrow> (Some err, t') | (None, t') \<Rightarrow> replay M rcd ys t')"
  by (induction xs arbitrary: t) (simp_all split: prod.split option.split)

lemma replay_append_None:
  "replay M rcd (xs @ ys) t = (None, t') \<longleftrightarrow> (\<exists>u. replay M rcd xs t = (None, u) \<and> replay M rcd ys u = (None, t'))"
  by (auto simp: replay_append split: prod.splits option.splits)

lemma apply_mutation_ok:
  assumes "table_ok t" and "apply_mutation M rcd mut t = (r, t')"
  shows "table_ok t' \<and> tb_kernels t' = tb_kernels t \<and> (\<forall>err. r = Some err \<longrightarrow> t' = t \<and> \<not> is_panic err)"
proof -
  have up: "table_ok u \<and> tb_kernels u = tb_kernels t \<and> (\<forall>err. q = Some err \<longrightarrow> u = t \<and> \<not> is_panic err)"
    if "UpsertRecord M rec t = (q, u)" for rec q u
    using UpsertRecord_upserts [of M rec t] Upsert_spec [OF assms(1), of _ M _ _ q u] that assms(1) by (cases q) fastforce+
  note del = Delete_spec [OF assms(1), of "dm_DocId mut"]
  from assms(2) up del assms(1) show ?thesis
    unfolding apply_mutation_def
    by (auto simp: is_panic_def split: if_splits sum.splits prod.splits option.splits gerr.splits)
qed

lemma replay_ok:
  assumes "table_ok t" and "replay M rcd ms t = (r, t')"
  shows "table_ok t' \<and> tb_kernels t' = tb_kernels t"
  using assms
proof (induction ms arbitrary: t)
  case (Cons m ms)
  obtain q u where q: "apply_mutation M rcd m t = (q, u)" by fastforce
  from apply_mutation_ok [OF Cons.prems(1) q] Cons q show ?case by (auto split: option.splits)
qed simp

subsection \<open>Documents\<close>

text \<open>The mutations of a branch as updates of a map of documents; \<open>K\<close> says how a column stores its vectors.\<close>

definition apply_doc ::
    "machine \<Rightarrow> Kernels \<Rightarrow> Record codec \<Rightarrow> DocumentMutation \<Rightarrow> (string \<rightharpoonup> document) \<Rightarrow> string \<rightharpoonup> document" where
  "apply_doc M K rcd mut D =
     (if dm_Op mut = MutationOp_PUT then
        (case unmarshal rcd (dm_Payload mut) of
           Inl _ \<Rightarrow> D
         | Inr rec \<Rightarrow>
             (case record_vectors (sorted_list_of_fmap (r_Vectors rec)) of
                Inl _ \<Rightarrow> D
              | Inr vectors \<Rightarrow> D(r_Id rec \<mapsto> upsert_doc M (NewTable K) vectors (r_Attributes rec) (D (r_Id rec)))))
      else D(dm_DocId mut := None))"

definition no_nil_codec :: "Record codec \<Rightarrow> bool" where
  "no_nil_codec rcd \<longleftrightarrow> (\<forall>d rec. unmarshal rcd d = Inr rec \<longrightarrow> no_nil (r_Attributes rec))"

lemma upsert_doc_kernels: "upsert_doc M t = upsert_doc M (NewTable (tb_kernels t))"
proof -
  have "stored t = stored (NewTable (tb_kernels t))" "stage_one M t = stage_one M (NewTable (tb_kernels t))"
    by (simp_all add: fun_eq_iff stored_def stage_one_def is16_def NewTable_def)
  then show ?thesis by (intro ext) (simp only: upsert_doc_def)
qed

lemma Upsert_docs:
  assumes "table_ok t" and "distinct (map fst vectors)" and "no_nil attrs" and "Table_Upsert M docID vectors attrs t = (None, t')"
  shows "docs t' = (docs t)(docID \<mapsto> upsert_doc M (NewTable (tb_kernels t)) vectors attrs (docs t docID))"
proof -
  have nil: "(\<lambda>k. case (fmlookup attrs k, fmlookup (tb_index t) docID) of (Some None, Some row) \<Rightarrow> attr_of t row k
      | _ \<Rightarrow> snd (upsert_doc M t vectors attrs (docs t docID)) k) = snd (upsert_doc M t vectors attrs (docs t docID))"
    using assms(3) by (auto simp: fun_eq_iff no_nil_def split: option.split)
  from Upsert_spec [OF assms(1,2,4), unfolded nil] have "docs t' docID = Some (upsert_doc M t vectors attrs (docs t docID))"
      "\<And>x. x \<noteq> docID \<Longrightarrow> docs t' x = docs t x" by simp_all
  then show ?thesis by (auto simp: fun_eq_iff upsert_doc_kernels [of M t])
qed

lemma apply_mutation_docs:
  assumes "table_ok t" and "no_nil_codec rcd" and "apply_mutation M rcd mut t = (None, t')"
  shows "docs t' = apply_doc M (tb_kernels t) rcd mut (docs t)"
proof (cases "dm_Op mut = MutationOp_PUT")
  case True
  with assms(3) obtain rec where rec: "unmarshal rcd (dm_Payload mut) = Inr rec" "UpsertRecord M (Some rec) t = (None, t')"
    unfolding apply_mutation_def by (auto split: sum.splits prod.splits option.splits gerr.splits)
  then obtain vs where vs: "record_vectors (sorted_list_of_fmap (r_Vectors rec)) = Inr vs"
      "Table_Upsert M (r_Id rec) vs (r_Attributes rec) t = (None, t')"
    by (auto simp: UpsertRecord_def split: sum.splits)
  have "distinct (map fst vs)" using record_vectors_keys [OF vs(1)] sorted_list_keys by metis
  moreover have "no_nil (r_Attributes rec)" using assms(2) rec(1) unfolding no_nil_codec_def by blast
  ultimately show ?thesis using Upsert_docs [OF assms(1) _ _ vs(2)] True rec(1) vs(1) by (simp add: apply_doc_def)
next
  case False
  with assms(3) Delete_spec [OF assms(1), of "dm_DocId mut"] show ?thesis
    unfolding apply_mutation_def by (auto simp: apply_doc_def split: if_splits prod.splits option.splits)
qed

lemma replay_docs:
  assumes "table_ok t" and "no_nil_codec rcd" and "replay M rcd ms t = (None, t')"
  shows "docs t' = fold (apply_doc M (tb_kernels t) rcd) ms (docs t)"
  using assms
proof (induction ms arbitrary: t)
  case (Cons m ms)
  then obtain u where u: "apply_mutation M rcd m t = (None, u)" "replay M rcd ms u = (None, t')"
    by (auto split: prod.splits option.splits)
  with Cons.IH [of u] Cons.prems apply_mutation_ok [OF Cons.prems(1) u(1)] apply_mutation_docs [OF Cons.prems(1,2) u(1)] show ?case by simp
qed simp

subsection \<open>Loading\<close>

text \<open>A context reports nothing but the two errors of its package.\<close>

definition ctx_polls :: "polls \<Rightarrow> bool" where
  "ctx_polls polls \<longleftrightarrow> (\<forall>err. Some err \<in> set polls \<longrightarrow> context_err err)"

lemma poll_ctx_polls:
  assumes "poll_ctx polls = (p, polls')" and "ctx_polls polls"
  shows "ctx_polls polls' \<and> (\<forall>err. p = Some err \<longrightarrow> \<not> is_panic err)"
  using assms by (auto simp: poll_ctx_def ctx_polls_def context_err_def is_panic_def split: list.splits)

lemma load_loop_spec:
  assumes "table_ok t" and "load_loop M cd rcd polls reader t = (r, polls', t')"
  shows "\<exists>p. prefix p (fst (seg_read_all cd reader)) \<and> replay M rcd p t = (None, t')
    \<and> (r = None \<longrightarrow> p = fst (seg_read_all cd reader))
    \<and> (ctx_polls polls \<longrightarrow> ctx_polls polls' \<and> (\<forall>err. r = Some err \<longrightarrow> \<not> is_panic err))"
  using assms
proof (induction M cd rcd polls reader t rule: load_loop.induct)
  case (1 M cd rcd polls reader t)
  obtain p ps where p: "poll_ctx polls = (p, ps)" by fastforce
  show ?case
  proof (cases p)
    case (Some err)
    with 1(3) p have "r = Some err" "polls' = ps" "t' = t" by (simp_all add: load_loop.simps)
    with Some poll_ctx_polls [OF p] show ?thesis by (intro exI [of _ "[]"]) auto
  next
    case None
    note p = p [unfolded None]
    obtain n reader' where n: "seg_Next cd reader = (n, reader')" by fastforce
    show ?thesis
    proof (cases n)
      case (Inl err)
      with 1(3) p n have "r = (if errors_is err io_EOF then None else Some (Wrap ''read mutation'' err))" "polls' = ps" "t' = t"
        by (simp_all add: load_loop.simps)
      with Inl n poll_ctx_polls [OF p] show ?thesis by (intro exI [of _ "[]"]) (auto simp: seg_read_all.simps [of cd reader] is_panic_def)
    next
      case (Inr mut)
      note n = n [unfolded Inr]
      obtain q u where q: "apply_mutation M rcd mut t = (q, u)" by fastforce
      note ok = apply_mutation_ok [OF 1(2) q]
      show ?thesis
      proof (cases q)
        case (Some err)
        with 1(3) p n q have "r = Some err" "polls' = ps" "t' = u" by (simp_all add: load_loop.simps)
        with Some ok poll_ctx_polls [OF p] show ?thesis by (intro exI [of _ "[]"]) auto
      next
        case None
        note q = q [unfolded None]
        have "load_loop M cd rcd ps reader' u = (r, polls', t')" using 1(3) p n q by (subst (asm) load_loop.simps) simp
        from 1(1) [OF p [symmetric] refl n [symmetric] refl q [symmetric] refl _ this] ok obtain xs where
          "prefix xs (fst (seg_read_all cd reader'))" "replay M rcd xs u = (None, t')" "r = None \<longrightarrow> xs = fst (seg_read_all cd reader')"
          "ctx_polls ps \<longrightarrow> ctx_polls polls' \<and> (\<forall>err. r = Some err \<longrightarrow> \<not> is_panic err)" by blast
        with q n poll_ctx_polls [OF p] show ?thesis
          by (intro exI [of _ "mut # xs"]) (auto simp: seg_read_all.simps [of cd reader] split: prod.split)
      qed
    qed
  qed
qed

lemma load_loop_eq:
  "load_loop M cd rcd [] reader t =
     (case replay M rcd (fst (seg_read_all cd reader)) t of
        (Some err, t') \<Rightarrow> (Some err, [], t')
      | (None, t') \<Rightarrow> (if errors_is (snd (seg_read_all cd reader)) io_EOF then None
                      else Some (Wrap ''read mutation'' (snd (seg_read_all cd reader))), [], t'))"
proof (induction cd reader arbitrary: t rule: seg_read_all.induct)
  case (1 cd reader)
  obtain n reader' where n: "seg_Next cd reader = (n, reader')" by fastforce
  show ?case
  proof (cases n)
    case (Inl err)
    with n show ?thesis by (simp add: seg_read_all.simps [of cd reader] load_loop.simps poll_ctx_def)
  next
    case (Inr mut)
    note n = n [unfolded Inr]
    obtain ms err where ms: "seg_read_all cd reader' = (ms, err)" by fastforce
    have all: "seg_read_all cd reader = (mut # ms, err)" using n ms by (simp add: seg_read_all.simps [of cd reader])
    from 1 [OF n [symmetric] refl] n show ?thesis
      by (simp add: load_loop.simps [of M cd rcd "[]" reader] poll_ctx_def all ms split: prod.split option.split)
  qed
qed

text \<open>In any store at all.\<close>

lemma sync_loop_ok:
  assumes "table_ok t" and "sync_loop S M cds rcd c scope segs polls n t s = (n', r, polls', t', s')"
  shows "table_ok t' \<and> tb_kernels t' = tb_kernels t \<and> n \<le> n' \<and> n' \<le> n + length segs \<and> (r = None \<longrightarrow> n' = n + length segs)
    \<and> (ctx_polls polls \<longrightarrow> ctx_polls polls' \<and> (\<forall>err. r = Some err \<longrightarrow> \<not> is_panic err))"
  using assms
proof (induction segs arbitrary: polls n t s)
  case (Cons seg segs)
  obtain g s1 where g: "Store_Get S c (SegmentKey scope (sg_SegmentId seg)) s = (g, s1)" by fastforce
  show ?case
  proof (cases g)
    case (Inl err)
    with g Cons.prems show ?thesis by (auto simp: is_panic_def)
  next
    case (Inr rc_obj)
    obtain rc ob where rc: "rc_obj = (rc, ob)" by fastforce
    obtain q ps u where l: "load_loop M (cd_mutation cds) rcd polls (seg_NewReader rc) t = (q, ps, u)" by (metis prod_cases3)
    from load_loop_spec [OF Cons.prems(1) l] obtain p where p: "replay M rcd p t = (None, u)"
      "ctx_polls polls \<longrightarrow> ctx_polls ps \<and> (\<forall>err. q = Some err \<longrightarrow> \<not> is_panic err)" by blast
    note u = replay_ok [OF Cons.prems(1) p(1)]
    show ?thesis
    proof (cases q)
      case None
      with Cons.IH [of u ps "n + 1" s1] Cons.prems(2) g Inr rc l u p(2) show ?thesis by auto
    next
      case (Some err)
      with Cons.prems(2) g Inr rc l u p(2) show ?thesis by auto
    qed
  qed
qed simp

lemma Sync_ok:
  assumes "table_ok (ld_table l)" and "Loader_Sync S M cds rcd c polls l s = (n, r, polls', l', s')"
  shows "table_ok (ld_table l') \<and> tb_kernels (ld_table l') = tb_kernels (ld_table l)
    \<and> ld_scope l' = ld_scope l \<and> ld_branch l' = ld_branch l \<and> ld_applied l' = ld_applied l + n
    \<and> (r \<noteq> None \<longrightarrow> ld_lastGen l' = ld_lastGen l) \<and> (n = 0 \<longrightarrow> ld_table l' = ld_table l)
    \<and> (ctx_polls polls \<longrightarrow> ctx_polls polls' \<and> (\<forall>err. r = Some err \<longrightarrow> \<not> is_panic err))"
proof -
  obtain q s1 where q: "manifest_Read S (cd_manifest cds) c (ManifestKey (ld_scope l) (ld_branch l)) s = (q, s1)" by fastforce
  show ?thesis
  proof (cases "\<exists>m gen. q = Inr (m, gen) \<and> \<not> (gen \<noteq> [] \<and> gen = ld_lastGen l) \<and> ld_applied l \<le> length (bm_Segments m)")
    case False
    with q assms show ?thesis unfolding Loader_Sync_def
      by (auto simp: is_panic_def not_le split: sum.splits prod.splits if_splits)
  next
    case True
    then obtain m gen where m: "q = Inr (m, gen)" "\<not> (gen \<noteq> [] \<and> gen = ld_lastGen l)" "\<not> length (bm_Segments m) < ld_applied l" by auto
    let ?segs = "drop (ld_applied l) (bm_Segments m)"
    obtain n1 r1 ps1 t1 s2 where loop: "sync_loop S M cds rcd c (ld_scope l) ?segs polls 0 (ld_table l) s1 = (n1, r1, ps1, t1, s2)"
      by (metis prod_cases5)
    note ok = sync_loop_ok [OF assms(1) loop]
    have "?segs = []" if "n1 = 0" "r1 = None" using ok that by simp
    with ok q m loop assms show ?thesis
      unfolding Loader_Sync_def by (cases r1) (auto simp: Let_def Clone_eq)
  qed
qed

text \<open>In a store that nobody else uses.\<close>

lemma quiet_Get_segment:
  assumes "quiet w"
  shows "Store_Get world_Store c (SegmentKey (fc_scope X) name) w =
    (case segment_at X (world_view w) name of
       None \<Rightarrow> Inl (Wrap ''key'' ErrNotFound)
     | Some (d, g) \<Rightarrow> Inr (bytes_Reader d, \<lparr>Key = SegmentKey (fc_scope X) name, Generation = g, Size = length d\<rparr>), w)"
  by (rule quiet_Get [OF assms])

lemma sync_loop_runs:
  assumes "quiet w" and "\<And>ref. ref \<in> set segs \<Longrightarrow> segment_whole X (world_view w) ref"
    and "replay M rcd (concat (map (segment_documents X (world_view w)) segs)) t = (None, t')"
  shows "sync_loop world_Store M (fc_codecs X) rcd c (fc_scope X) segs [] n t w = (n + length segs, None, [], t', w)"
  using assms(2,3)
proof (induction segs arbitrary: n t)
  case (Cons seg segs)
  from Cons.prems(1) [of seg] obtain d g where d: "segment_at X (world_view w) (sg_SegmentId seg) = Some (d, g)"
    "errors_is (snd (seg_read_all (cd_mutation (fc_codecs X)) (seg_NewReader (bytes_Reader d)))) io_EOF"
    by (auto simp: segment_whole_def split: option.splits)
  then have docs: "segment_documents X (world_view w) seg = fst (seg_read_all (cd_mutation (fc_codecs X)) (seg_NewReader (bytes_Reader d)))"
    by (simp add: segment_documents_def)
  from Cons.prems(2) obtain u where u: "replay M rcd (segment_documents X (world_view w) seg) t = (None, u)"
    "replay M rcd (concat (map (segment_documents X (world_view w)) segs)) u = (None, t')" by (auto simp: replay_append_None)
  from Cons.IH [OF Cons.prems(1) u(2), of "n + 1"] d u(1) [unfolded docs] show ?case
    by (simp add: quiet_Get_segment [OF assms(1)] load_loop_eq)
qed simp

lemma sync_loop_part:
  assumes "quiet w" and "table_ok t"
    and "sync_loop world_Store M (fc_codecs X) rcd c (fc_scope X) segs polls n t w = (n', Some err, polls', t', w')"
  shows "w' = w \<and> n \<le> n' \<and> n' - n < length segs
    \<and> (\<exists>p. prefix p (segment_documents X (world_view w) (segs ! (n' - n)))
       \<and> replay M rcd (concat (map (segment_documents X (world_view w)) (take (n' - n) segs)) @ p) t = (None, t'))"
  using assms(2,3)
proof (induction segs arbitrary: polls n t)
  case (Cons seg segs)
  show ?case
  proof (cases "segment_at X (world_view w) (sg_SegmentId seg)")
    case None
    with Cons.prems(2) show ?thesis by (auto simp: quiet_Get_segment [OF assms(1)] intro!: exI [of _ "[]"])
  next
    case (Some dg)
    obtain d g where dg: "dg = (d, g)" by fastforce
    obtain q ps u where l: "load_loop M (cd_mutation (fc_codecs X)) rcd polls (seg_NewReader (bytes_Reader d)) t = (q, ps, u)"
      by (metis prod_cases3)
    have docs: "segment_documents X (world_view w) seg = fst (seg_read_all (cd_mutation (fc_codecs X)) (seg_NewReader (bytes_Reader d)))"
      using Some dg by (simp add: segment_documents_def)
    from load_loop_spec [OF Cons.prems(1) l, folded docs] obtain p where p: "prefix p (segment_documents X (world_view w) seg)"
      "replay M rcd p t = (None, u)" "q = None \<longrightarrow> p = segment_documents X (world_view w) seg" by blast
    show ?thesis
    proof (cases q)
      case (Some e)
      with Cons.prems(2) l p \<open>segment_at _ _ _ = _\<close> dg show ?thesis by (auto simp: quiet_Get_segment [OF assms(1)])
    next
      case None
      with Cons.prems(2) l \<open>segment_at _ _ _ = _\<close> dg
      have run: "sync_loop world_Store M (fc_codecs X) rcd c (fc_scope X) segs ps (n + 1) u w = (n', Some err, polls', t', w')"
        by (simp add: quiet_Get_segment [OF assms(1)])
      from Cons.IH [OF _ run] replay_ok [OF Cons.prems(1) p(2)] have ih: "w' = w" "n + 1 \<le> n'" "n' - (n + 1) < length segs"
        "\<exists>p. prefix p (segment_documents X (world_view w) (segs ! (n' - (n + 1))))
          \<and> replay M rcd (concat (map (segment_documents X (world_view w)) (take (n' - (n + 1)) segs)) @ p) u = (None, t')" by blast+
      obtain k where k: "n' - n = Suc k" "n' - (n + 1) = k" using ih(2) by (metis Suc_diff_le Suc_eq_plus1 diff_Suc_Suc)
      from ih(2-4) k p(2,3) None show ?thesis by (auto simp: replay_append_None ih(1))
    qed
  qed
qed simp

lemma quiet_generation:
  assumes "quiet w" and "world_view w k = Some (d, g)"
  shows "g \<noteq> []"
  using assms unfolding quiet_def mem_inv_def world_view_def by (metis localGeneration_nonempty)

lemma quiet_manifest:
  assumes "quiet w" and "world_view w key = Some (d, g)" and "unmarshal cd d = Inr m"
  shows "manifest_Read world_Store cd c key w = (Inr (m, g), w)"
  unfolding manifest_Read_def by (rule quiet_get_decode(2) [OF assms])

text \<open>A pass over a manifest with new segments.\<close>

lemma Sync_runs:
  assumes "quiet w" and "ld_scope l = fc_scope X"
    and "world_view w (ManifestKey (fc_scope X) (ld_branch l)) = Some (d, g)" and "unmarshal (cd_manifest (fc_codecs X)) d = Inr m"
    and "g \<noteq> ld_lastGen l" and "ld_applied l \<le> length (bm_Segments m)"
    and "\<And>ref. ref \<in> set (bm_Segments m) \<Longrightarrow> segment_whole X (world_view w) ref"
    and "replay M rcd (concat (map (segment_documents X (world_view w)) (drop (ld_applied l) (bm_Segments m)))) (ld_table l) = (None, t)"
  shows "Loader_Sync world_Store M (fc_codecs X) rcd c [] l w =
    (length (bm_Segments m) - ld_applied l, None, [],
     l\<lparr>ld_applied := length (bm_Segments m), ld_table := t, ld_lastGen := g\<rparr>, w)"
proof -
  have "segment_whole X (world_view w) ref" if "ref \<in> set (drop (ld_applied l) (bm_Segments m))" for ref
    using assms(7) that by (meson in_set_dropD)
  from sync_loop_runs [OF assms(1) this assms(8), of c 0] quiet_manifest [OF assms(1,3,4)] assms(2,5,6,8) show ?thesis
    by (auto simp: Loader_Sync_def Let_def Clone_eq)
qed

subsection \<open>Examples\<close>

text \<open>A document without vectors, and the encodings that the examples use.\<close>

definition rec_doc :: "string \<Rightarrow> Record" where
  "rec_doc docID = \<lparr>r_Id = docID, r_Vectors = fmempty, r_Attributes = fmap_of_list [(''colour'', Some red)]\<rparr>"

definition rec_codec :: "Record codec" where
  "rec_codec = \<lparr>marshal = \<lambda>r. if r = rec_doc ''d'' then Inr [7] else Inr [8],
     unmarshal = \<lambda>b. if b = [7] then Inr (rec_doc ''d'') else if b = [8] then Inr (rec_doc ''e'') else Inl (ErrMsg ''proto'')\<rparr>"

lemma no_nil_rec_codec: "no_nil_codec rec_codec"
  by (auto simp: no_nil_codec_def rec_codec_def rec_doc_def no_nil_def fmlookup_of_list split: if_splits)

lemma sorted_list_of_fmempty [simp]: "sorted_list_of_fmap fmempty = []"
  by (simp add: sorted_list_of_fmap_def sorted_list_of_fset.rep_eq)

lemma UpsertRecord_doc:
  assumes "table_ok t" and "docID \<noteq> ''''"
  shows "\<exists>t'. UpsertRecord M (Some (rec_doc docID)) t = (None, t')"
proof -
  have "record_vectors (sorted_list_of_fmap (r_Vectors (rec_doc docID))) = Inr []" by (simp add: rec_doc_def)
  then have up: "UpsertRecord M (Some (rec_doc docID)) t = Table_Upsert M docID [] (r_Attributes (rec_doc docID)) t"
    by (simp add: UpsertRecord_def rec_doc_def)
  have "fst (Table_Upsert M docID [] a t) = None \<or> fst (Table_Upsert M docID [] a t) = Some index_panic" for a
    using assms(2) by (auto simp: Table_Upsert_def Let_def split: option.split)
  moreover have "fst (Table_Upsert M docID [] a t) \<noteq> Some index_panic" for a
    using Upsert_spec [OF assms(1), of "[]" M docID a] by (cases "Table_Upsert M docID [] a t") (auto simp: is_panic_def index_panic_def)
  ultimately show ?thesis unfolding up by (metis prod.collapse)
qed

lemma apply_put:
  assumes "table_ok t" and "dm_Op mut = MutationOp_PUT" and "unmarshal rcd (dm_Payload mut) = Inr (rec_doc docID)" and "docID \<noteq> ''''"
  shows "\<exists>t'. apply_mutation M rcd mut t = (None, t')"
  using UpsertRecord_doc [OF assms(1,4), of M] assms(2,3) by (auto simp: apply_mutation_def)

lemma replay_a: "fst (replay M0 rec_codec [mut_a] (NewTable K0)) = None"
proof -
  have "\<exists>t'. apply_mutation M0 rec_codec mut_a (NewTable K0) = (None, t')"
    by (rule apply_put [OF T0_ok, where docID = "''d''"]) (simp_all add: mut_a_def rec_codec_def)
  then show ?thesis by auto
qed

lemma quiet_flushed: "quiet flushed_world"
  by (simp add: flushed_world_def quiet_worlds)

lemma fit_a: "mutations_fit setup_a"
  by (simp add: mutations_fit_def setup_a_def two_codec_def DefaultMaxRecordSize_def)

lemma flushed_a: "flush_inv setup_a [entry_a] (world_view flushed_world) \<and> flushed_upto setup_a [entry_a] (world_view flushed_world) 1"
proof -
  obtain Y where Y: "setup_a = setup_ctx Y" by (rule setup_cases [OF ctx_ok_setup_a])
  have "new_stream setup_a stream_a" by (simp add: new_stream_def stream_a_def setup_a_def)
  note fresh = new_stream_fresh [OF this [unfolded Y]]
  from wf.stream_Run_spec [OF quiet_world_inv [OF quiet_first_append] flush_inv_logged [unfolded Y] fresh stream_run [of 0 0, unfolded Y]]
  obtain ys where ys: "prefix [entry_a] ys" "flush_inv setup_a ys (world_view flushed_world)"
      "flushed_upto setup_a ys (world_view flushed_world) (length ys)" "unat (2 :: u64) = length ys + 1"
    unfolding wf.moves_def wf.stream_post_def wf.flushed_all_def Y by auto
  from ys(4) have "length ys = 1" by simp
  with ys(1) have "ys = [entry_a]" by (auto simp: prefix_def)
  with ys show ?thesis by simp
qed

text \<open>A branch with two segments. The second one has the given records: \<open>[2]\<close> is an insertion, \<open>[3]\<close> a mutation of an unknown kind.\<close>

definition mut_b :: DocumentMutation where
  "mut_b = \<lparr>dm_Branch = ''main'', dm_DocId = ''e'', dm_Op = MutationOp_PUT, dm_Payload = [8]\<rparr>"

definition mut_x :: DocumentMutation where
  "mut_x = \<lparr>dm_Branch = ''main'', dm_DocId = ''f'', dm_Op = 9, dm_Payload = []\<rparr>"

definition mut_codec :: "DocumentMutation codec" where
  "mut_codec = \<lparr>marshal = \<lambda>m. if m = mut_a then Inr [1] else if m = mut_b then Inr [2] else if m = mut_x then Inr [3] else Inl (ErrMsg ''proto''),
     unmarshal = \<lambda>d. if d = [1] then Inr mut_a else if d = [2] then Inr mut_b else if d = [3] then Inr mut_x else Inl (ErrMsg ''proto'')\<rparr>"

definition man_b :: BranchManifest where
  "man_b = \<lparr>bm_CheckpointSeq = 2, bm_SchemaVersion = 1,
     bm_Segments = [\<lparr>sg_SegmentId = ''s'', sg_DocCount = 1, sg_DocsSize = 0\<rparr>, \<lparr>sg_SegmentId = ''t'', sg_DocCount = 1, sg_DocsSize = 0\<rparr>]\<rparr>"

definition setup_b :: flush_ctx where
  "setup_b = \<lparr>fc_codecs = \<lparr>cd_catalog = cat_codec, cd_branches = branch_codec, cd_manifest = two_codec man_b new_manifest,
       cd_wal = two_codec WalEmpty (WalMutation mut_a), cd_mutation = mut_codec\<rparr>, fc_scope = scope_a, fc_data = {}, fc_forks = {}\<rparr>"

definition two_segments :: "bytes list \<Rightarrow> world" where
  "two_segments bs = quiet_put (ManifestKey scope_a ''main'') [1]
     (quiet_put (SegmentKey scope_a ''t'') (frames bs) (quiet_put (SegmentKey scope_a ''s'') (frames [[1]]) (new_world [])))"

lemma setup_b_simps [simp]:
  "cd_manifest (fc_codecs setup_b) = two_codec man_b new_manifest" "cd_mutation (fc_codecs setup_b) = mut_codec" "fc_scope setup_b = scope_a"
  by (simp_all add: setup_b_def)

lemma quiet_two_segments: "quiet (two_segments bs)"
  by (simp add: two_segments_def quiet_quiet_put)

lemma two_segments_keys:
  "ManifestKey scope_a ''main'' \<noteq> SegmentKey scope_a ''s''" "ManifestKey scope_a ''main'' \<noteq> SegmentKey scope_a ''t''"
  "SegmentKey scope_a ''s'' \<noteq> SegmentKey scope_a ''t''"
  by code_simp+

lemma two_segments_view:
  "\<exists>g. world_view (two_segments bs) (ManifestKey scope_a ''main'') = Some ([1], g)"
  "\<exists>g. world_view (two_segments bs) (SegmentKey scope_a ''s'') = Some (frames [[1]], g)"
  "\<exists>g. world_view (two_segments bs) (SegmentKey scope_a ''t'') = Some (frames bs, g)"
  using two_segments_keys two_segments_keys [symmetric] by (simp_all add: two_segments_def)

lemma mut_codec_distinct [simp]: "mut_a \<noteq> mut_b" "mut_a \<noteq> mut_x" "mut_b \<noteq> mut_x" "mut_b \<noteq> mut_a" "mut_x \<noteq> mut_a" "mut_x \<noteq> mut_b"
  by (simp_all add: mut_a_def mut_b_def mut_x_def)

lemma codec_ok_mut: "codec_ok mut_codec"
  by (auto simp: codec_ok_def mut_codec_def own_err_def split: if_splits)

lemma two_segments_read:
  assumes "marshal_all mut_codec ms = Inr bs" and "\<forall>b \<in> set bs. int (length b) \<le> DefaultMaxRecordSize"
  shows "seg_read_all mut_codec (seg_NewReader (bytes_Reader (frames bs))) = (ms, io_EOF)"
  by (rule segment_reads_back [OF codec_ok_mut assms]) (simp_all add: bytes_Reader_def is_eof_def)

lemma two_segments_documents:
  assumes "marshal_all mut_codec ms = Inr bs" and "\<forall>b \<in> set bs. int (length b) \<le> DefaultMaxRecordSize"
  shows "map (segment_documents setup_b (world_view (two_segments bs))) (bm_Segments man_b) = [[mut_a], ms]"
    and "list_all (segment_whole setup_b (world_view (two_segments bs))) (bm_Segments man_b)"
proof -
  have "marshal_all mut_codec [mut_a] = Inr [[1]]" by (simp add: mut_codec_def)
  from two_segments_read [OF this] two_segments_read [OF assms] two_segments_view [of bs]
  show "map (segment_documents setup_b (world_view (two_segments bs))) (bm_Segments man_b) = [[mut_a], ms]"
    and "list_all (segment_whole setup_b (world_view (two_segments bs))) (bm_Segments man_b)"
    by (auto simp: man_b_def segment_documents_def segment_whole_def DefaultMaxRecordSize_def)
qed

lemma replay_b: "\<exists>t1 t2. replay M0 rec_codec [mut_a] (NewTable K0) = (None, t1) \<and> replay M0 rec_codec [mut_b] t1 = (None, t2) \<and> docs t2 ''e'' \<noteq> None"
proof -
  obtain t1 where t1: "replay M0 rec_codec [mut_a] (NewTable K0) = (None, t1)" using replay_a by (metis prod.collapse)
  have ok: "table_ok t1" using replay_ok [OF T0_ok t1] by simp
  obtain t2 where "apply_mutation M0 rec_codec mut_b t1 = (None, t2)"
    using apply_put [OF ok, where docID = "''e''" and mut = mut_b and rcd = rec_codec and M = M0] by (auto simp: mut_b_def rec_codec_def)
  then have t2: "replay M0 rec_codec [mut_b] t1 = (None, t2)" by simp
  have "docs t2 ''e'' \<noteq> None"
    using replay_docs [OF ok no_nil_rec_codec t2] by (simp add: apply_doc_def mut_b_def rec_codec_def rec_doc_def)
  with t1 t2 show ?thesis by blast
qed

subsection \<open>Properties\<close>

text \<open>A loader of a branch that has not loaded anything.\<close>

definition new_loader :: "flush_ctx \<Rightarrow> string \<Rightarrow> Kernels \<Rightarrow> Loader" where
  "new_loader X b K = \<lparr>ld_table = NewTable K, ld_scope = fc_scope X, ld_branch = b, ld_applied = 0, ld_lastGen = []\<rparr>"

lemma new_loader_made: "NewLoader (Some S) (Some (NewTable K)) (fc_scope X) b = Inr (new_loader X b K)"
  by (simp add: NewLoader_def new_loader_def)

lemma flush_inv_branch:
  assumes "flush_inv X xs v" and "log_documents X xs b k \<noteq> []"
  shows "ok_branch b"
proof -
  from assms(2) obtain i where "muts X xs b i \<noteq> []" by (force simp: log_documents_def concat_eq_Nil_conv simp del: upt_Suc)
  moreover have "wal_ok X xs" using assms(1) by (simp add: flush_inv_def)
  ultimately show ?thesis using muts_ok_branch by blast
qed

text \<open>
  C36. What was written can be searched. When the flushers have caught up with the log of a namespace, one pass of a new
  loader of a branch that is not a fork, and whose mutations can be applied, loads a table that holds exactly the documents that the
  mutations of the log leave when they are applied in order to an empty map.
\<close>

theorem Sync_loads_log:
  assumes "ctx_ok X" and "mutations_fit X" and "flush_inv X xs (world_view w)" and "flushed_upto X xs (world_view w) (length xs)"
    and "quiet w" and "b \<notin> fc_forks X" and "log_documents X xs b (length xs) \<noteq> []" and "kernels_ok K" and "no_nil_codec rcd"
    and "fst (replay M rcd (log_documents X xs b (length xs)) (NewTable K)) = None"
  shows "\<exists>n l. Loader_Sync world_Store M (fc_codecs X) rcd c [] (new_loader X b K) w = (n, None, [], l, w)
    \<and> table_ok (ld_table l) \<and> docs (ld_table l) = fold (apply_doc M K rcd) (log_documents X xs b (length xs)) Map.empty"
proof -
  let ?l = "new_loader X b K" and ?docs = "log_documents X xs b (length xs)"
  have b: "ok_branch b" by (rule flush_inv_branch [OF assms(3,7)])
  from flushed_documents [OF assms(1-4,6,7)] obtain m where m: "manifest_at X (world_view w) b m"
    "manifest_documents X (world_view w) m = ?docs" by blast
  then obtain d g where d: "world_view w (ManifestKey (fc_scope X) b) = Some (d, g)" "unmarshal (cd_manifest (fc_codecs X)) d = Inr m"
    unfolding manifest_at_def by blast
  note whole = manifest_segments_whole [OF assms(1-3,6) b m(1)]
  obtain t where t: "replay M rcd ?docs (NewTable K) = (None, t)" using assms(10) by (metis prod.collapse)
  have l: "ld_scope ?l = fc_scope X" "ld_branch ?l = b" "ld_applied ?l = 0" "ld_table ?l = NewTable K" "ld_lastGen ?l = []"
    by (simp_all add: new_loader_def)
  have "Loader_Sync world_Store M (fc_codecs X) rcd c [] ?l w =
      (length (bm_Segments m) - ld_applied ?l, None, [], ?l\<lparr>ld_applied := length (bm_Segments m), ld_table := t, ld_lastGen := g\<rparr>, w)"
    by (rule Sync_runs [OF assms(5) l(1) _ d(2) _ _ whole])
      (use d(1) quiet_generation [OF assms(5) d(1)] t m(2) in \<open>simp_all add: l manifest_documents_def\<close>)
  moreover have ok: "table_ok (NewTable K)" by (rule NewTable_ok [OF assms(8)])
  moreover have "docs (NewTable K) = Map.empty" "tb_kernels (NewTable K) = K" by (simp_all add: fun_eq_iff docs_def NewTable_def)
  ultimately show ?thesis using replay_ok [OF ok t] replay_docs [OF ok assms(9) t] by simp
qed

theorem Sync_loads_log_witness:
  "\<exists>n l. Loader_Sync world_Store M0 (fc_codecs setup_a) rec_codec 0 [] (new_loader setup_a ''main'' K0) flushed_world = (n, None, [], l, flushed_world)
    \<and> docs (ld_table l) ''d'' = Some (Map.empty, [''colour'' \<mapsto> red]) \<and> docs (ld_table l) ''e'' = None"
proof -
  have docs: "log_documents setup_a [entry_a] ''main'' (length [entry_a]) = [mut_a]" by (simp add: log_documents_def muts_a)
  have k: "kernels_ok K0" using T0_ok by (simp add: table_ok_def NewTable_def)
  obtain n l where l: "Loader_Sync world_Store M0 (fc_codecs setup_a) rec_codec 0 [] (new_loader setup_a ''main'' K0) flushed_world = (n, None, [], l, flushed_world)"
      "docs (ld_table l) = fold (apply_doc M0 K0 rec_codec) [mut_a] Map.empty"
    using Sync_loads_log [OF ctx_ok_setup_a fit_a conjunct1 [OF flushed_a] _ quiet_flushed _ _ k no_nil_rec_codec, of "''main''" M0 0, unfolded docs]
      flushed_a replay_a by (auto simp: setup_a_def)
  have "fold (apply_doc M0 K0 rec_codec) [mut_a] Map.empty = [''d'' \<mapsto> (Map.empty, [''colour'' \<mapsto> red])]"
    by (simp add: fun_eq_iff apply_doc_def mut_a_def rec_codec_def rec_doc_def upsert_doc_def old_doc_def fmlookup_of_list)
  with l(2) have "docs (ld_table l) ''d'' = Some (Map.empty, [''colour'' \<mapsto> red])" "docs (ld_table l) ''e'' = None" by simp_all
  with l(1) show ?thesis by blast
qed

text \<open>
  C37. Loading a branch step by step is the same as loading it at once. If the table of a loader is what the segments that it has applied make of some
  table, and the manifest has new segments, a pass leaves what all segments of the manifest make of that table,
  and remembers the generation, so that the next pass does nothing.
\<close>

theorem Sync_incremental:
  assumes "quiet w" and "ld_scope l = fc_scope X"
    and "world_view w (ManifestKey (fc_scope X) (ld_branch l)) = Some (d, g)" and "unmarshal (cd_manifest (fc_codecs X)) d = Inr m"
    and "g \<noteq> ld_lastGen l" and "ld_applied l \<le> length (bm_Segments m)"
    and "\<forall>ref \<in> set (bm_Segments m). segment_whole X (world_view w) ref"
    and "replay M rcd (concat (map (segment_documents X (world_view w)) (take (ld_applied l) (bm_Segments m)))) t0 = (None, ld_table l)"
    and "replay M rcd (manifest_documents X (world_view w) m) t0 = (None, t)"
  defines "l' \<equiv> l\<lparr>ld_applied := length (bm_Segments m), ld_table := t, ld_lastGen := g\<rparr>"
  shows "Loader_Sync world_Store M (fc_codecs X) rcd c [] l w = (length (bm_Segments m) - ld_applied l, None, [], l', w)
    \<and> Loader_Sync world_Store M (fc_codecs X) rcd c polls l' w = (0, None, polls, l', w)"
proof -
  let ?f = "segment_documents X (world_view w)"
  have "manifest_documents X (world_view w) m = concat (map ?f (take (ld_applied l) (bm_Segments m))) @ concat (map ?f (drop (ld_applied l) (bm_Segments m)))"
    unfolding manifest_documents_def concat_append [symmetric] map_append [symmetric] append_take_drop_id ..
  with assms(8,9) have "replay M rcd (concat (map ?f (drop (ld_applied l) (bm_Segments m)))) (ld_table l) = (None, t)"
    by (auto simp: replay_append_None)
  from Sync_runs [OF assms(1-6) _ this] assms(7)
  have "Loader_Sync world_Store M (fc_codecs X) rcd c [] l w = (length (bm_Segments m) - ld_applied l, None, [], l', w)"
    unfolding l'_def by blast
  moreover have "Loader_Sync world_Store M (fc_codecs X) rcd c polls l' w = (0, None, polls, l', w)"
    using quiet_manifest [OF assms(1,3,4)] quiet_generation [OF assms(1,3)] assms(2) by (simp add: Loader_Sync_def l'_def)
  ultimately show ?thesis ..
qed

theorem Sync_incremental_witness:
  "\<exists>t1 t2 g. replay M0 rec_codec [mut_a] (NewTable K0) = (None, t1) \<and> replay M0 rec_codec [mut_a, mut_b] (NewTable K0) = (None, t2)
    \<and> Loader_Sync world_Store M0 (fc_codecs setup_b) rec_codec 0 [] (new_loader setup_b ''main'' K0\<lparr>ld_applied := 1, ld_table := t1\<rparr>) (two_segments [[2]]) =
        (1, None, [], new_loader setup_b ''main'' K0\<lparr>ld_applied := 2, ld_table := t2, ld_lastGen := g\<rparr>, two_segments [[2]])"
proof -
  let ?w = "two_segments [[2]]"
  have m: "marshal_all mut_codec [mut_b] = Inr [[2]]" "\<forall>b \<in> set [[2]]. int (length (b :: bytes)) \<le> DefaultMaxRecordSize"
    by (simp_all add: mut_codec_def DefaultMaxRecordSize_def)
  note d = two_segments_documents [OF m]
  obtain g where g: "world_view ?w (ManifestKey scope_a ''main'') = Some ([1], g)" using two_segments_view(1) by blast
  obtain t1 t2 where t: "replay M0 rec_codec [mut_a] (NewTable K0) = (None, t1)" "replay M0 rec_codec [mut_b] t1 = (None, t2)" using replay_b by blast
  have t2: "replay M0 rec_codec ([mut_a] @ [mut_b]) (NewTable K0) = (None, t2)" unfolding replay_append_None using t by blast
  let ?l = "new_loader setup_b ''main'' K0\<lparr>ld_applied := 1, ld_table := t1\<rparr>"
  have l: "ld_scope ?l = fc_scope setup_b" "ld_branch ?l = ''main''" "ld_applied ?l = 1" "ld_table ?l = t1" "ld_lastGen ?l = []"
    by (simp_all add: new_loader_def)
  have s: "length (bm_Segments man_b) = 2" by (simp add: man_b_def)
  have docs: "manifest_documents setup_b (world_view ?w) man_b = [mut_a] @ [mut_b]" unfolding manifest_documents_def d(1) by simp
  have one: "concat (map (segment_documents setup_b (world_view ?w)) (take (ld_applied ?l) (bm_Segments man_b))) = [mut_a]"
    unfolding take_map [symmetric] d(1) l by simp
  have p: "world_view ?w (ManifestKey (fc_scope setup_b) (ld_branch ?l)) = Some ([1], g)" "unmarshal (cd_manifest (fc_codecs setup_b)) [1] = Inr man_b"
      "g \<noteq> ld_lastGen ?l" "ld_applied ?l \<le> length (bm_Segments man_b)" "\<forall>ref \<in> set (bm_Segments man_b). segment_whole setup_b (world_view ?w) ref"
      "replay M0 rec_codec (concat (map (segment_documents setup_b (world_view ?w)) (take (ld_applied ?l) (bm_Segments man_b)))) (NewTable K0) = (None, ld_table ?l)"
    unfolding one unfolding l s using g quiet_generation [OF quiet_two_segments g] d(2) t(1) by (simp_all add: two_codec_def list_all_iff)
  note Sync_incremental [OF quiet_two_segments l(1) p t2 [folded docs], of 0]
  then have run: "Loader_Sync world_Store M0 (fc_codecs setup_b) rec_codec 0 [] ?l ?w =
      (length (bm_Segments man_b) - ld_applied ?l, None, [], ?l\<lparr>ld_applied := length (bm_Segments man_b), ld_table := t2, ld_lastGen := g\<rparr>, ?w)"
    by (rule conjunct1)
  have "?l\<lparr>ld_applied := 2, ld_table := t2, ld_lastGen := g\<rparr> = new_loader setup_b ''main'' K0\<lparr>ld_applied := 2, ld_table := t2, ld_lastGen := g\<rparr>"
    by simp
  with run have "Loader_Sync world_Store M0 (fc_codecs setup_b) rec_codec 0 [] ?l ?w =
      (1, None, [], new_loader setup_b ''main'' K0\<lparr>ld_applied := 2, ld_table := t2, ld_lastGen := g\<rparr>, ?w)" unfolding s l by simp
  with t(1) t2 [unfolded append.simps] show ?thesis by blast
qed



subsection \<open>The engine\<close>

definition engine_ok :: "Engine \<Rightarrow> bool" where
  "engine_ok e \<longleftrightarrow> kernels_ok (en_kernels e)
     \<and> (\<forall>k l. en_loaders e k = Some l \<longrightarrow> table_ok (ld_table l) \<and> ld_scope l = \<lparr>sc_Namespace = fst k\<rparr> \<and> ld_branch l = snd k)"

lemma is_Panic_iff: "is_Panic err \<longleftrightarrow> is_panic err"
  by (cases err) (simp_all add: is_Panic_def is_panic_def)

lemma sync_branches_ok:
  assumes "engine_ok e" and "ctx_polls polls" and "sync_branches S M cds rcd c ns branches polls e s = (r, polls', e', s')"
  shows "engine_ok e' \<and> ctx_polls polls' \<and> r = None"
  using assms
proof (induction branches arbitrary: polls e s)
  case (Cons b bs)
  let ?l = "case en_loaders e (ns, b) of Some l \<Rightarrow> l
    | None \<Rightarrow> \<lparr>ld_table = NewTable (en_kernels e), ld_scope = \<lparr>sc_Namespace = ns\<rparr>, ld_branch = b, ld_applied = 0, ld_lastGen = []\<rparr>"
  obtain n q ps l' s1 where sync: "Loader_Sync S M cds rcd c polls ?l s = (n, q, ps, l', s1)" by (metis prod_cases5)
  have l: "table_ok (ld_table ?l)" "ld_scope ?l = \<lparr>sc_Namespace = ns\<rparr>" "ld_branch ?l = b"
    using Cons.prems(1) by (auto simp: engine_ok_def NewTable_ok split: option.split)
  note ok = Sync_ok [OF l(1) sync]
  let ?e = "e\<lparr>en_loaders := (en_loaders e)((ns, b) \<mapsto> l')\<rparr>"
  have e: "engine_ok ?e" using ok l Cons.prems(1) by (auto simp: engine_ok_def)
  have "\<not> (case q of Some err \<Rightarrow> is_Panic err | None \<Rightarrow> False)" using ok Cons.prems(2) by (simp add: is_Panic_iff split: option.split)
  then have "sync_branches S M cds rcd c ns bs ps ?e s1 = (r, polls', e', s')"
    using Cons.prems(3) sync by (auto simp: NewLoader_def Let_def split: option.splits)
  with e ok Cons.prems(2) Cons.IH [of ?e ps s1] show ?case by simp
qed simp

lemma sync_namespaces_ok:
  assumes "engine_ok e" and "ctx_polls polls" and "sync_namespaces S M cds rcd c nss polls e s = (r, polls', e', s')"
  shows "engine_ok e' \<and> ctx_polls polls' \<and> (\<forall>err. r = Some err \<longrightarrow> \<not> is_panic err)"
  using assms
proof (induction nss arbitrary: polls e s)
  case (Cons ns nss)
  then show ?case
    by (auto simp: is_panic_def split: prod.splits sum.splits option.splits dest!: sync_branches_ok [OF Cons.prems(1,2)])
qed simp

lemma engine_pass_ok:
  assumes "engine_ok e" and "ctx_polls polls" and "engine_pass S M cds rcd c polls e s = (st, polls', e', s')"
  shows "engine_ok e' \<and> ctx_polls polls' \<and> st \<noteq> EngineCrashed"
proof -
  obtain q ps e1 s1 where once: "SyncOnce S M cds rcd c polls e s = (q, ps, e1, s1)" by (metis prod_cases4)
  then have "engine_ok e1 \<and> ctx_polls ps \<and> (\<forall>err. q = Some err \<longrightarrow> \<not> is_panic err)"
    using assms(1,2) sync_namespaces_ok [OF assms(1), of _ S M cds rcd c _ _ q ps e1 s1] poll_ctx_polls [OF _ assms(2)]
    by (fastforce simp: SyncOnce_def is_panic_def split: prod.splits option.splits sum.splits)
  with assms(3) once show ?thesis
    by (auto simp: engine_pass_def is_Panic_iff split: option.splits prod.splits if_splits dest: poll_ctx_polls)
qed

lemma engine_loop_ok:
  assumes "engine_ok e" and "ctx_polls polls" and "engine_loop S M cds rcd c evs polls e s = (st, e', s')"
  shows "engine_ok e' \<and> st \<noteq> EngineCrashed"
  using assms
proof (induction S M cds rcd c evs polls e s rule: engine_loop.induct)
  case (3 S M cds rcd c evs polls e s)
  obtain q ps e1 s1 where pass: "engine_pass S M cds rcd c polls e s = (q, ps, e1, s1)" by (metis prod_cases4)
  with engine_pass_ok [OF 3(2,3) pass] 3(1) [OF pass [symmetric] refl refl] 3(4) show ?case by (cases "q = EngineRunning") auto
qed simp_all

text \<open>
  C39. Nothing that is stored crashes the reader. Whatever the store holds and answers, whenever the timer ticks and the context ends, an engine with the
  kernels of any variant runs without a panic; then each of its loaders follows the branch it is filed under, and every query returns
  hits or an error that is not a panic; a query for a branch that was never listed returns no hits.
\<close>

theorem engine_serves:
  assumes "Variant_Kernels M v = Inr K" and "NewEngine (Some S) interval K = Inr e" and "ctx_polls polls"
    and "Engine_Run S M cds rcd c evs polls e s = (st, e', s')" and "ctx_polls [cerr]"
  shows "st \<noteq> EngineCrashed \<and> engine_ok e' \<and> (\<forall>m. Engine_Query M peq cerr e' req \<noteq> Inl (Panic m))
    \<and> (en_loaders e' (rq_Namespace req, rq_Branch req) = None \<longrightarrow> cerr = None \<longrightarrow> Engine_Query M peq cerr e' req = Inr [])"
proof -
  have e: "engine_ok e" using assms(2) Variant_kernels_ok [OF assms(1)] by (auto simp: NewEngine_def engine_ok_def split: if_splits)
  obtain q ps e1 s1 where pass: "engine_pass S M cds rcd c polls e s = (q, ps, e1, s1)" by (metis prod_cases4)
  note one = engine_pass_ok [OF e assms(3) pass]
  have ok: "engine_ok e' \<and> st \<noteq> EngineCrashed"
    using one assms(4) pass engine_loop_ok [of e1 ps S M cds rcd c evs s1 st e' s'] by (cases "q = EngineRunning") (auto simp: Engine_Run_def)
  have "cerr \<noteq> Some (Panic m)" for m using assms(5) by (auto simp: ctx_polls_def context_err_def)
  moreover have "Table_Search M peq (ld_table l) col q k metric filt \<noteq> Inl (Panic m)"
    if "en_loaders e' x = Some l" for x l col q k metric filt m
    using that ok by (intro Search_no_panic) (cases x, auto simp: engine_ok_def)
  ultimately show ?thesis using ok by (auto simp: Engine_Query_def Let_def split: option.split)
qed

theorem engine_serves_witness:
  "\<exists>st e' w'. Engine_Run world_Store M0 (fc_codecs setup_a) rec_codec 0 [EngineTick, EngineDone] [None, None, Some context_Canceled]
      \<lparr>en_syncInterval = 1, en_kernels = K0, en_loaders = Map.empty\<rparr> flushed_world = (st, e', w')
    \<and> st \<noteq> EngineCrashed \<and> engine_ok e'"
proof -
  let ?e = "\<lparr>en_syncInterval = 1, en_kernels = K0, en_loaders = Map.empty\<rparr>" and ?polls = "[None, None, Some context_Canceled]"
  obtain st e' w' where run: "Engine_Run world_Store M0 (fc_codecs setup_a) rec_codec 0 [EngineTick, EngineDone] ?polls ?e flushed_world = (st, e', w')"
    by (metis prod_cases3)
  have "Variant_Kernels M0 Pure = Inr K0" by (simp add: Variant_Kernels_def K0_def)
  moreover have "NewEngine (Some world_Store) 1 K0 = Inr ?e" by (simp add: NewEngine_def)
  moreover have "ctx_polls ?polls" "ctx_polls [None]" by (simp_all add: ctx_polls_def context_err_def)
  ultimately have "st \<noteq> EngineCrashed \<and> engine_ok e'" using engine_serves [OF _ _ _ run] by blast
  with run show ?thesis by blast
qed

end
