(* ===== verification/Ingester.thy ===== *)
theory Ingester
  imports Flusher Messages
begin

text \<open>
  \<open>src/ingest/ingester.go\<close>: the writers of the log. A batch of records or of deletions becomes one batch of the log of
  its namespace; a fork copies the manifest of a branch, lists the new branch and tells the log.

  The ingester keeps one handle per log. Its mutex is free while a namespace is registered and while the handle
  is made; \<open>others\<close> is what other calls do to the maps in that window. A handle is shared by reference in Go: here a
  call puts the handle back after \<open>Append\<close> moved its counter. \<open>now\<close> is the clock, \<open>bg\<close> the fresh context of
  a rollback.
\<close>

subsection \<open>ingester.go\<close>

abbreviation ingest_ErrNilStore :: gerr where "ingest_ErrNilStore \<equiv> Sentinel ''ingest.ErrNilStore''"

record Ingester =
  ig_logs :: "string \<rightharpoonup> Log"
  ig_registered :: "string \<rightharpoonup> bool"

definition NewIngester :: "'s Store option \<Rightarrow> Ingester result" where
  "NewIngester store =
     (if store = None then Inl ingest_ErrNilStore else Inr \<lparr>ig_logs = Map.empty, ig_registered = Map.empty\<rparr>)"

text \<open>The error of \<open>CreateNamespace\<close> is ignored and the namespace is taken as registered from then on.\<close>

definition register_namespace ::
    "'s Store \<Rightarrow> codecs \<Rightarrow> ctx \<Rightarrow> Scope \<Rightarrow> int \<Rightarrow> (Ingester \<Rightarrow> Ingester) \<Rightarrow> Ingester \<Rightarrow> 's \<Rightarrow> (Ingester \<times> 's) option" where
  "register_namespace S cds c scope now others ing s =
     (if ig_registered ing (Scope_Prefix scope) = Some True then Some (others ing, s)
      else
        (case CreateNamespace (Some S) (cd_catalog cds) c (sc_Namespace scope) now s of
           None \<Rightarrow> None
         | Some (_, s') \<Rightarrow>
             (let ing' = others ing
              in Some (ing'\<lparr>ig_registered := (ig_registered ing')(Scope_Prefix scope \<mapsto> True)\<rparr>, s'))))"

definition getOrCreateLog ::
    "'s Store \<Rightarrow> codecs \<Rightarrow> ctx \<Rightarrow> Scope \<Rightarrow> int \<Rightarrow> (Ingester \<Rightarrow> Ingester) \<Rightarrow> Ingester \<Rightarrow> 's
      \<Rightarrow> (Log result \<times> Ingester \<times> 's) option" where
  "getOrCreateLog S cds c scope now others ing s =
     (let walPrefix = WALPrefix scope
      in (case ig_logs ing walPrefix of
            Some l \<Rightarrow> Some (Inr l, ing, s)
          | None \<Rightarrow>
              (case register_namespace S cds c scope now others ing s of
                 None \<Rightarrow> None
               | Some (ing', s') \<Rightarrow>
                   (case Log_New (Some S) walPrefix of
                      Inl err \<Rightarrow> Some (Inl (Wrap ''create logstream'' err), ing', s')
                    | Inr l \<Rightarrow>
                        (case ig_logs ing' walPrefix of
                           Some existing \<Rightarrow> Some (Inr existing, ing', s')
                         | None \<Rightarrow> Some (Inr l, ing'\<lparr>ig_logs := (ig_logs ing')(walPrefix \<mapsto> l)\<rparr>, s'))))))"

definition append_to_log ::
    "'s Store \<Rightarrow> ctx \<Rightarrow> string \<Rightarrow> Log \<Rightarrow> bytes list \<Rightarrow> Ingester \<Rightarrow> 's \<Rightarrow> (gerr option \<times> Ingester \<times> 's) option" where
  "append_to_log S c walPrefix l walRecords ing s =
     (case Append S c l walRecords s of
        None \<Rightarrow> None
      | Some (r, l', s') \<Rightarrow>
          Some (case r of Inl err \<Rightarrow> Some err | Inr _ \<Rightarrow> None, ing\<lparr>ig_logs := (ig_logs ing)(walPrefix \<mapsto> l')\<rparr>, s'))"

fun upsert_records :: "Record codec \<Rightarrow> WalRecord codec \<Rightarrow> string \<Rightarrow> Record list \<Rightarrow> bytes list result" where
  "upsert_records rcd cd branch [] = Inr []"
| "upsert_records rcd cd branch (rec # recs) =
     (case marshal rcd rec of
        Inl err \<Rightarrow> Inl (Wrap ''marshal record'' err)
      | Inr payload \<Rightarrow>
          (case marshal cd (WalMutation \<lparr>dm_Branch = branch, dm_DocId = r_Id rec, dm_Op = MutationOp_PUT, dm_Payload = payload\<rparr>) of
             Inl err \<Rightarrow> Inl (Wrap ''marshal wal record'' err)
           | Inr recBytes \<Rightarrow>
               (case upsert_records rcd cd branch recs of Inl err \<Rightarrow> Inl err | Inr bs \<Rightarrow> Inr (recBytes # bs))))"

definition Upsert ::
    "'s Store \<Rightarrow> codecs \<Rightarrow> Record codec \<Rightarrow> ctx \<Rightarrow> string \<Rightarrow> string \<Rightarrow> Record list \<Rightarrow> int \<Rightarrow> (Ingester \<Rightarrow> Ingester)
      \<Rightarrow> Ingester \<Rightarrow> 's \<Rightarrow> (gerr option \<times> Ingester \<times> 's) option" where
  "Upsert S cds rcd c ns branch records now others ing s =
     (if records = [] then Some (None, ing, s)
      else
        (let scope = \<lparr>sc_Namespace = ns\<rparr>
         in (case getOrCreateLog S cds c scope now others ing s of
               None \<Rightarrow> None
             | Some (Inl err, ing', s') \<Rightarrow> Some (Some err, ing', s')
             | Some (Inr l, ing', s') \<Rightarrow>
                 (case upsert_records rcd (cd_wal cds) branch records of
                    Inl err \<Rightarrow> Some (Some err, ing', s')
                  | Inr walRecords \<Rightarrow> append_to_log S c (WALPrefix scope) l walRecords ing' s'))))"

fun delete_records :: "WalRecord codec \<Rightarrow> string \<Rightarrow> string list \<Rightarrow> bytes list result" where
  "delete_records cd branch [] = Inr []"
| "delete_records cd branch (docID # ids) =
     (case marshal cd (WalMutation \<lparr>dm_Branch = branch, dm_DocId = docID, dm_Op = MutationOp_DELETE, dm_Payload = []\<rparr>) of
        Inl err \<Rightarrow> Inl (Wrap ''marshal wal record'' err)
      | Inr recBytes \<Rightarrow>
          (case delete_records cd branch ids of Inl err \<Rightarrow> Inl err | Inr bs \<Rightarrow> Inr (recBytes # bs)))"

definition Delete ::
    "'s Store \<Rightarrow> codecs \<Rightarrow> ctx \<Rightarrow> string \<Rightarrow> string \<Rightarrow> string list \<Rightarrow> int \<Rightarrow> (Ingester \<Rightarrow> Ingester)
      \<Rightarrow> Ingester \<Rightarrow> 's \<Rightarrow> (gerr option \<times> Ingester \<times> 's) option" where
  "Delete S cds c ns branch ids now others ing s =
     (if ids = [] then Some (None, ing, s)
      else
        (let scope = \<lparr>sc_Namespace = ns\<rparr>
         in (case getOrCreateLog S cds c scope now others ing s of
               None \<Rightarrow> None
             | Some (Inl err, ing', s') \<Rightarrow> Some (Some err, ing', s')
             | Some (Inr l, ing', s') \<Rightarrow>
                 (case delete_records (cd_wal cds) branch ids of
                    Inl err \<Rightarrow> Some (Some err, ing', s')
                  | Inr walRecords \<Rightarrow> append_to_log S c (WALPrefix scope) l walRecords ing' s'))))"

subsection \<open>Fork\<close>

text \<open>The closure \<open>rollback\<close>: delete the new manifest and unlist the branch, whatever these two return.\<close>

definition fork_rollback ::
    "'s Store \<Rightarrow> codecs \<Rightarrow> ctx \<Rightarrow> Scope \<Rightarrow> string \<Rightarrow> gerr \<Rightarrow> Ingester \<Rightarrow> 's \<Rightarrow> (gerr option \<times> Ingester \<times> 's) option" where
  "fork_rollback S cds bg scope tgt err ing s =
     (case Store_Delete S bg (ManifestKey scope tgt) s of
        (_, s') \<Rightarrow>
          (case RemoveBranch S (cd_branches cds) bg scope tgt s' of
             None \<Rightarrow> None
           | Some (_, s'') \<Rightarrow> Some (Some err, ing, s'')))"

text \<open>The second half, once the manifest of the target is written.\<close>

definition fork_announce ::
    "'s Store \<Rightarrow> codecs \<Rightarrow> ctx \<Rightarrow> ctx \<Rightarrow> Scope \<Rightarrow> string \<Rightarrow> string \<Rightarrow> int \<Rightarrow> (Ingester \<Rightarrow> Ingester) \<Rightarrow> Ingester \<Rightarrow> 's
      \<Rightarrow> (gerr option \<times> Ingester \<times> 's) option" where
  "fork_announce S cds c bg scope src tgt now others ing s =
     (case AddBranch S (cd_branches cds) c scope tgt s of
        None \<Rightarrow> None
      | Some (Inl err, s1) \<Rightarrow> fork_rollback S cds bg scope tgt err ing s1
      | Some (Inr _, s1) \<Rightarrow>
          (case marshal (cd_wal cds) (WalBranchEvent \<lparr>be_Type = Event_FORK, be_Branch = tgt, be_ParentBranch = src\<rparr>) of
             Inl err \<Rightarrow> fork_rollback S cds bg scope tgt err ing s1
           | Inr recBytes \<Rightarrow>
               (case getOrCreateLog S cds c scope now others ing s1 of
                  None \<Rightarrow> None
                | Some (Inl err, ing', s2) \<Rightarrow> fork_rollback S cds bg scope tgt err ing' s2
                | Some (Inr l, ing', s2) \<Rightarrow>
                    (case append_to_log S c (WALPrefix scope) l [recBytes] ing' s2 of
                       None \<Rightarrow> None
                     | Some (Some err, ing'', s3) \<Rightarrow> fork_rollback S cds bg scope tgt err ing'' s3
                     | Some (None, ing'', s3) \<Rightarrow> Some (None, ing'', s3)))))"

definition Fork ::
    "'s Store \<Rightarrow> codecs \<Rightarrow> ctx \<Rightarrow> ctx \<Rightarrow> string \<Rightarrow> string \<Rightarrow> string \<Rightarrow> int \<Rightarrow> (Ingester \<Rightarrow> Ingester) \<Rightarrow> Ingester \<Rightarrow> 's
      \<Rightarrow> (gerr option \<times> Ingester \<times> 's) option" where
  "Fork S cds c bg ns src tgt now others ing s =
     (let scope = \<lparr>sc_Namespace = ns\<rparr>; targetKey = ManifestKey scope tgt; mcd = cd_manifest cds
      in (case manifest_Read S mcd c (ManifestKey scope src) s of
            (Inl err, s1) \<Rightarrow> Some (Some err, ing, s1)
          | (Inr (parentManifest, _), s1) \<Rightarrow>
              (case manifest_Read S mcd c targetKey s1 of
                 (Inr _, s2) \<Rightarrow> Some (Some ErrBranchAlreadyExists, ing, s2)
               | (Inl err, s2) \<Rightarrow>
                   if \<not> errors_is err ErrNotFound then Some (Some err, ing, s2)
                   else
                     (case manifest_Write S mcd c targetKey (Some parentManifest) [] s2 of
                        (Inl err, s3) \<Rightarrow>
                          Some (Some (if errors_is err ErrPreconditionFailed then ErrBranchAlreadyExists else err), ing, s3)
                      | (Inr _, s3) \<Rightarrow> fork_announce S cds c bg scope src tgt now others ing s3))))"

end
