(* ===== verification/Grpcapi.thy ===== *)
theory Grpcapi
  imports Ingester Loader
begin

text \<open>
  \<open>src/grpcapi\<close>: the handlers between the gRPC server, which is not part of the repository, and the ingesters and engines. A handler
  checks a request, fills in the default names, calls the ingester or engine of the tenant and maps its error to a status.

  A status is its code and the constant part of its message. The tenant travels in the context: a handler gets it as an argument, \<open>None\<close> if
  the context has none. The values of the tenant header, which the transport parses, are an argument of the interceptor, and the error of
  \<open>grpc.SetTrailer\<close> one of the query handler. The interfaces \<open>Ingester\<close> and \<open>QueryEngine\<close> are records of functions; \<open>ingester_of\<close>
  and \<open>engine_of\<close> are the two implementations. Log lines and durations are left out.
\<close>

datatype code = Canceled | InvalidArgument | DeadlineExceeded | NotFound | AlreadyExists | Internal | Unauthenticated

type_synonym status = "code \<times> string"
type_synonym 'a rpc = "status + 'a"

subsection \<open>interceptor.go\<close>

definition withTenant :: "string \<Rightarrow> string option" where "withTenant tenant = Some tenant"

definition TenantFrom :: "string option \<Rightarrow> string" where
  "TenantFrom val = (case val of Some tenant \<Rightarrow> tenant | None \<Rightarrow> [])"

text \<open>The handler is a function of the context's tenant; \<open>ret\<close> is how it answers with a status.\<close>

definition TenantInterceptor :: "(status \<Rightarrow> 'r) \<Rightarrow> string list \<Rightarrow> (string option \<Rightarrow> 'r) \<Rightarrow> 'r" where
  "TenantInterceptor ret vals handler =
     (case vals of
        [] \<Rightarrow> ret (Unauthenticated, ''missing tenant'')
      | tenant # rest \<Rightarrow>
          if tenant = [] then ret (Unauthenticated, ''missing tenant'')
          else if rest \<noteq> [] then ret (InvalidArgument, ''multiple tenant headers'')
          else (case ValidateName tenant of
                  Inl _ \<Rightarrow> ret (InvalidArgument, ''invalid tenant'')
                | Inr _ \<Rightarrow> handler (withTenant tenant)))"

subsection \<open>ingest.go\<close>

record 's IngesterI =
  in_Upsert :: "ctx \<Rightarrow> string \<Rightarrow> string \<Rightarrow> Record list \<Rightarrow> 's \<Rightarrow> (gerr option \<times> 's) option"
  in_Delete :: "ctx \<Rightarrow> string \<Rightarrow> string \<Rightarrow> string list \<Rightarrow> 's \<Rightarrow> (gerr option \<times> 's) option"
  in_Fork :: "ctx \<Rightarrow> string \<Rightarrow> string \<Rightarrow> string \<Rightarrow> 's \<Rightarrow> (gerr option \<times> 's) option"

abbreviation ErrNilIngester :: gerr where "ErrNilIngester \<equiv> Sentinel ''grpcapi.ErrNilIngester''"

definition NewIngestServer :: "(string \<rightharpoonup> 's IngesterI) option \<Rightarrow> (string \<rightharpoonup> 's IngesterI) result" where
  "NewIngestServer ingesters = (case ingesters of None \<Rightarrow> Inl ErrNilIngester | Some m \<Rightarrow> Inr m)"

definition resolveNamespace :: "string \<Rightarrow> string rpc" where
  "resolveNamespace raw =
     (let ns = if raw \<noteq> [] then raw else DefaultNamespace
      in case ValidateName ns of Inl _ \<Rightarrow> Inl (InvalidArgument, ''grpcapi: invalid namespace'') | Inr _ \<Rightarrow> Inr ns)"

definition resolveBranch :: "string \<Rightarrow> string rpc" where
  "resolveBranch rawBranch =
     (let branch = if rawBranch \<noteq> [] then rawBranch else DefaultBranch
      in case ValidateName branch of Inl _ \<Rightarrow> Inl (InvalidArgument, ''grpcapi: invalid branch'') | Inr _ \<Rightarrow> Inr branch)"

text \<open>The first steps of \<open>Upsert\<close> and \<open>Delete\<close>: the ingester, the namespace and the branch of a request.\<close>

definition resolve_target ::
    "(string \<rightharpoonup> 's IngesterI) \<Rightarrow> string option \<Rightarrow> string \<Rightarrow> string \<Rightarrow> ('s IngesterI \<times> string \<times> string) rpc" where
  "resolve_target ingesters val rawNs rawBranch =
     (case ingesters (TenantFrom val) of
        None \<Rightarrow> Inl (NotFound, ''grpcapi: unknown tenant'')
      | Some ing \<Rightarrow>
          (case resolveNamespace rawNs of
             Inl st \<Rightarrow> Inl st
           | Inr ns \<Rightarrow> (case resolveBranch rawBranch of Inl st \<Rightarrow> Inl st | Inr branch \<Rightarrow> Inr (ing, ns, branch))))"

text \<open>The statuses of an error that an ingester returned.\<close>

definition ingest_status :: "string \<Rightarrow> gerr \<Rightarrow> status" where
  "ingest_status msg err =
     (if errors_is err context_Canceled then (Canceled, [])
      else if errors_is err context_DeadlineExceeded then (DeadlineExceeded, [])
      else (Internal, msg))"

fun check_records :: "Record option list \<Rightarrow> Record list rpc" where
  "check_records [] = Inr []"
| "check_records (rec # recs) =
     (case rec of
        None \<Rightarrow> Inl (InvalidArgument, ''grpcapi: record is nil'')
      | Some r \<Rightarrow>
          if r_Id r = [] then Inl (InvalidArgument, ''grpcapi: record has empty id'')
          else (case check_records recs of Inl st \<Rightarrow> Inl st | Inr rs \<Rightarrow> Inr (r # rs)))"

definition IngestServer_Upsert ::
    "(string \<rightharpoonup> 's IngesterI) \<Rightarrow> string option \<Rightarrow> ctx \<Rightarrow> UpsertRequest option \<Rightarrow> 's \<Rightarrow> (u32 rpc \<times> 's) option" where
  "IngestServer_Upsert ingesters val c req s =
     (case req of
        None \<Rightarrow> Some (Inl (InvalidArgument, ''grpcapi: nil request''), s)
      | Some req \<Rightarrow>
          (case resolve_target ingesters val (ur_Namespace req) (ur_Branch req) of
             Inl st \<Rightarrow> Some (Inl st, s)
           | Inr (ing, ns, branch) \<Rightarrow>
               if ur_Records req = [] then Some (Inr 0, s)
               else
                 (case check_records (ur_Records req) of
                    Inl st \<Rightarrow> Some (Inl st, s)
                  | Inr records \<Rightarrow>
                      (case in_Upsert ing c ns branch records s of
                         None \<Rightarrow> None
                       | Some (Some err, s') \<Rightarrow> Some (Inl (ingest_status ''grpcapi: upsert'' err), s')
                       | Some (None, s') \<Rightarrow> Some (Inr (of_nat (length (ur_Records req))), s')))))"

definition IngestServer_Delete ::
    "(string \<rightharpoonup> 's IngesterI) \<Rightarrow> string option \<Rightarrow> ctx \<Rightarrow> DeleteRequest option \<Rightarrow> 's \<Rightarrow> (u32 rpc \<times> 's) option" where
  "IngestServer_Delete ingesters val c req s =
     (case req of
        None \<Rightarrow> Some (Inl (InvalidArgument, ''grpcapi: nil request''), s)
      | Some req \<Rightarrow>
          (case resolve_target ingesters val (dr_Namespace req) (dr_Branch req) of
             Inl st \<Rightarrow> Some (Inl st, s)
           | Inr (ing, ns, branch) \<Rightarrow>
               if dr_Ids req = [] then Some (Inr 0, s)
               else if list_ex (\<lambda>docID. docID = []) (dr_Ids req) then Some (Inl (InvalidArgument, ''grpcapi: id is empty''), s)
               else
                 (case in_Delete ing c ns branch (dr_Ids req) s of
                    None \<Rightarrow> None
                  | Some (Some err, s') \<Rightarrow> Some (Inl (ingest_status ''grpcapi: delete'' err), s')
                  | Some (None, s') \<Rightarrow> Some (Inr (of_nat (length (dr_Ids req))), s'))))"

definition fork_status :: "gerr \<Rightarrow> status" where
  "fork_status err =
     (if errors_is err context_Canceled then (Canceled, [])
      else if errors_is err context_DeadlineExceeded then (DeadlineExceeded, [])
      else if errors_is err ErrNotFound then (NotFound, ''grpcapi: source branch not found'')
      else if errors_is err ErrBranchAlreadyExists then (AlreadyExists, ''grpcapi: target branch already exists'')
      else (Internal, ''grpcapi: fork''))"

definition IngestServer_Fork ::
    "(string \<rightharpoonup> 's IngesterI) \<Rightarrow> string option \<Rightarrow> ctx \<Rightarrow> ForkRequest option \<Rightarrow> 's \<Rightarrow> (unit rpc \<times> 's) option" where
  "IngestServer_Fork ingesters val c req s =
     (case req of
        None \<Rightarrow> Some (Inl (InvalidArgument, ''grpcapi: nil request''), s)
      | Some req \<Rightarrow>
          (case ingesters (TenantFrom val) of
             None \<Rightarrow> Some (Inl (NotFound, ''grpcapi: unknown tenant''), s)
           | Some ing \<Rightarrow>
               (case resolveNamespace (fr_Namespace req) of
                  Inl st \<Rightarrow> Some (Inl st, s)
                | Inr ns \<Rightarrow>
                    if fr_TargetBranch req = [] then Some (Inl (InvalidArgument, ''grpcapi: target branch cannot be empty''), s)
                    else
                      (case ValidateName (fr_TargetBranch req) of
                         Inl _ \<Rightarrow> Some (Inl (InvalidArgument, ''grpcapi: invalid target branch''), s)
                       | Inr _ \<Rightarrow>
                           (case resolveBranch (fr_SourceBranch req) of
                              Inl st \<Rightarrow> Some (Inl st, s)
                            | Inr srcBranch \<Rightarrow>
                                if srcBranch = fr_TargetBranch req
                                then Some (Inl (InvalidArgument, ''grpcapi: source and target branch cannot be identical''), s)
                                else
                                  (case in_Fork ing c ns srcBranch (fr_TargetBranch req) s of
                                     None \<Rightarrow> None
                                   | Some (Some err, s') \<Rightarrow> Some (Inl (fork_status err), s')
                                   | Some (None, s') \<Rightarrow> Some (Inr (), s')))))))"

text \<open>The ingester of \<open>Ingester\<close> behind the interface, with its maps and the store as its state.\<close>

definition ingester_of ::
    "'s Store \<Rightarrow> codecs \<Rightarrow> Record codec \<Rightarrow> ctx \<Rightarrow> int \<Rightarrow> (Ingester \<Rightarrow> Ingester) \<Rightarrow> (Ingester \<times> 's) IngesterI" where
  "ingester_of S cds rcd bg now others =
     (let pack = map_option (\<lambda>(err, ing, s). (err, (ing, s)))
      in \<lparr>in_Upsert = \<lambda>c ns branch records (ing, s). pack (Upsert S cds rcd c ns branch records now others ing s),
          in_Delete = \<lambda>c ns branch ids (ing, s). pack (Delete S cds c ns branch ids now others ing s),
          in_Fork = \<lambda>c ns src tgt (ing, s). pack (Fork S cds c bg ns src tgt now others ing s)\<rparr>)"

subsection \<open>query.go\<close>

type_synonym QueryEngine = "Request \<Rightarrow> ScoredRecord list result"

definition NewQueryServer :: "(string \<rightharpoonup> QueryEngine) option \<Rightarrow> (string \<rightharpoonup> QueryEngine) result" where
  "NewQueryServer engines = (case engines of None \<Rightarrow> Inl (ErrMsg ''grpcapi: nil engines'') | Some m \<Rightarrow> Inr m)"

definition QueryServer_Query ::
    "(string \<rightharpoonup> QueryEngine) \<Rightarrow> string option \<Rightarrow> gerr option \<Rightarrow> QueryRequest option \<Rightarrow> ScoredRecord list rpc" where
  "QueryServer_Query engines val trailerErr req =
     (case req of
        None \<Rightarrow> Inl (InvalidArgument, ''grpcapi: nil request'')
      | Some req \<Rightarrow>
          (case ValidateName (qr_Namespace req) of
             Inl _ \<Rightarrow> Inl (InvalidArgument, ''grpcapi: invalid namespace'')
           | Inr _ \<Rightarrow>
               (case engines (TenantFrom val) of
                  None \<Rightarrow> Inl (NotFound, ''grpcapi: unknown tenant'')
                | Some eng \<Rightarrow>
                    (case resolveBranch (qr_Branch req) of
                       Inl st \<Rightarrow> Inl st
                     | Inr branch \<Rightarrow>
                         if qr_Vector req = [] then Inl (InvalidArgument, ''grpcapi: empty query vector'')
                         else if qr_TopK req = 0 then Inl (InvalidArgument, ''grpcapi: top_k must be positive'')
                         else
                           (case eng \<lparr>rq_Namespace = qr_Namespace req, rq_Branch = branch, rq_VectorColumn = qr_VectorColumn req,
                                      rq_Vector = qr_Vector req, rq_TopK = uint (qr_TopK req), rq_Filter = qr_Filter req\<rparr> of
                              Inl err \<Rightarrow>
                                Inl (if errors_is err query_ErrDimensionMismatch \<or> errors_is err ErrZeroVector
                                     then (InvalidArgument, ''grpcapi'') else (Internal, ''grpcapi: search''))
                            | Inr hits \<Rightarrow>
                                (case trailerErr of Some _ \<Rightarrow> Inl (Internal, ''grpcapi: set trailer'') | None \<Rightarrow> Inr hits))))))"

definition engine_of ::
    "machine \<Rightarrow> (AttributeValue \<Rightarrow> AttributeValue option \<Rightarrow> bool) \<Rightarrow> gerr option \<Rightarrow> Engine \<Rightarrow> QueryEngine" where
  "engine_of M peq cerr e = Engine_Query M peq cerr e"

subsection \<open>What reaches an ingester\<close>

definition named_or :: "string \<Rightarrow> string \<Rightarrow> string" where
  "named_or dflt raw = (if raw = [] then dflt else raw)"

lemma resolve_eq:
  "resolveNamespace raw = Inr ns \<longleftrightarrow> ns = named_or DefaultNamespace raw \<and> valid_name ns"
  "resolveBranch raw = Inr b \<longleftrightarrow> b = named_or DefaultBranch raw \<and> valid_name b"
  by (auto simp: resolveNamespace_def resolveBranch_def named_or_def Let_def split: sum.splits)

lemma resolve_target_eq:
  "resolve_target ings val rawNs rawBranch = Inr (ing, ns, b) \<longleftrightarrow> ings (TenantFrom val) = Some ing
     \<and> ns = named_or DefaultNamespace rawNs \<and> valid_name ns \<and> b = named_or DefaultBranch rawBranch \<and> valid_name b"
proof -
  have "resolve_target ings val rawNs rawBranch = Inr (ing, ns, b) \<longleftrightarrow> ings (TenantFrom val) = Some ing
     \<and> resolveNamespace rawNs = Inr ns \<and> resolveBranch rawBranch = Inr b"
    by (auto simp: resolve_target_def split: option.splits sum.splits)
  then show ?thesis by (simp add: resolve_eq)
qed

lemma check_records_eq: "check_records recs = Inr rs \<longleftrightarrow> recs = map Some rs \<and> (\<forall>r \<in> set rs. r_Id r \<noteq> [])"
proof (induction recs arbitrary: rs)
  case (Cons rec recs)
  then show ?case by (cases rs) (auto split: option.splits sum.splits)
qed auto

lemma TenantInterceptor_cases:
  obtains st where "TenantInterceptor ret vals h = ret st"
    | tenant where "TenantInterceptor ret vals h = h (Some tenant)" "vals = [tenant]" "valid_name tenant"
proof (cases "\<exists>tenant. vals = [tenant] \<and> valid_name tenant")
  case True
  then obtain tenant where "vals = [tenant]" "valid_name tenant" by blast
  moreover from this have "tenant \<noteq> []" by (auto simp: ValidateName_def)
  ultimately show ?thesis using that(2) by (simp add: TenantInterceptor_def withTenant_def)
next
  case False
  then have "\<exists>st. TenantInterceptor ret vals h = ret st"
    by (cases vals) (auto simp: TenantInterceptor_def split: sum.split)
  then show ?thesis using that(1) by blast
qed

text \<open>The calls that a checked request makes, with the answer \<open>r\<close> and the state \<open>s'\<close> that they lead to.\<close>

definition upsert_call :: "ctx \<Rightarrow> UpsertRequest \<Rightarrow> 's \<Rightarrow> u32 rpc \<Rightarrow> 's \<Rightarrow> 's IngesterI \<Rightarrow> bool" where
  "upsert_call c req s r s' ing \<longleftrightarrow> (\<exists>ns b rs err. ns = named_or DefaultNamespace (ur_Namespace req) \<and> valid_name ns
     \<and> b = named_or DefaultBranch (ur_Branch req) \<and> valid_name b \<and> ur_Records req = map Some rs \<and> (\<forall>x \<in> set rs. r_Id x \<noteq> [])
     \<and> in_Upsert ing c ns b rs s = Some (err, s') \<and> (case err of None \<Rightarrow> r = Inr (of_nat (length rs)) | Some e \<Rightarrow> \<exists>st. r = Inl st))"

definition delete_call :: "ctx \<Rightarrow> DeleteRequest \<Rightarrow> 's \<Rightarrow> u32 rpc \<Rightarrow> 's \<Rightarrow> 's IngesterI \<Rightarrow> bool" where
  "delete_call c req s r s' ing \<longleftrightarrow> (\<exists>ns b err. ns = named_or DefaultNamespace (dr_Namespace req) \<and> valid_name ns
     \<and> b = named_or DefaultBranch (dr_Branch req) \<and> valid_name b \<and> [] \<notin> set (dr_Ids req)
     \<and> in_Delete ing c ns b (dr_Ids req) s = Some (err, s')
     \<and> (case err of None \<Rightarrow> r = Inr (of_nat (length (dr_Ids req))) | Some e \<Rightarrow> \<exists>st. r = Inl st))"

definition fork_call :: "ctx \<Rightarrow> ForkRequest \<Rightarrow> 's \<Rightarrow> unit rpc \<Rightarrow> 's \<Rightarrow> 's IngesterI \<Rightarrow> bool" where
  "fork_call c req s r s' ing \<longleftrightarrow> (\<exists>ns b err. ns = named_or DefaultNamespace (fr_Namespace req) \<and> valid_name ns
     \<and> b = named_or DefaultBranch (fr_SourceBranch req) \<and> valid_name b \<and> valid_name (fr_TargetBranch req) \<and> b \<noteq> fr_TargetBranch req
     \<and> in_Fork ing c ns b (fr_TargetBranch req) s = Some (err, s') \<and> (case err of None \<Rightarrow> r = Inr () | Some e \<Rightarrow> r = Inl (fork_status e)))"

definition routed :: "string list \<Rightarrow> (string \<rightharpoonup> 's IngesterI) \<Rightarrow> ('s IngesterI \<Rightarrow> bool) \<Rightarrow> bool" where
  "routed vals ings P \<longleftrightarrow> (\<exists>tenant ing. vals = [tenant] \<and> valid_name tenant \<and> ings tenant = Some ing \<and> P ing)"

lemma interceptor_routes:
  assumes "TenantInterceptor deny vals h = res" and "\<And>st. deny st = res \<Longrightarrow> Q"
    and "\<And>val. h val = res \<Longrightarrow> Q \<or> (\<exists>ing. ings (TenantFrom val) = Some ing \<and> P ing)"
  shows "Q \<or> routed vals ings P"
proof (cases rule: TenantInterceptor_cases [of deny vals h])
  case (1 st)
  then show ?thesis using assms(1,2) by metis
next
  case (2 tenant)
  then show ?thesis using assms(1) assms(3) [of "Some tenant"] by (auto simp: routed_def TenantFrom_def)
qed

lemma Upsert_reaches:
  assumes "IngestServer_Upsert ings val c (Some req) s = Some (r, s')"
  shows "s' = s \<and> (\<forall>n. r = Inr n \<longrightarrow> ur_Records req = [])
    \<or> (\<exists>ing. ings (TenantFrom val) = Some ing \<and> upsert_call c req s r s' ing)"
proof (cases "resolve_target ings val (ur_Namespace req) (ur_Branch req)")
  case (Inr x)
  obtain ing ns b where x: "x = (ing, ns, b)" by (cases x)
  note tgt = Inr [unfolded x] and names = iffD1 [OF resolve_target_eq Inr [unfolded x]]
  show ?thesis
  proof (cases "ur_Records req = [] \<or> (\<exists>st. check_records (ur_Records req) = Inl st)")
    case True
    with assms tgt show ?thesis by (auto simp: IngestServer_Upsert_def split: if_splits)
  next
    case False
    then obtain rs where rs: "ur_Records req \<noteq> []" "check_records (ur_Records req) = Inr rs" by (cases "check_records (ur_Records req)") auto
    obtain err s1 where call: "in_Upsert ing c ns b rs s = Some (err, s1)"
      using assms tgt rs by (cases "in_Upsert ing c ns b rs s") (auto simp: IngestServer_Upsert_def)
    have "s1 = s'" "case err of None \<Rightarrow> r = Inr (of_nat (length rs)) | Some e \<Rightarrow> \<exists>st. r = Inl st"
      using assms tgt rs call rs(2) [unfolded check_records_eq] by (auto simp: IngestServer_Upsert_def split: option.splits)
    with call names rs(2) [unfolded check_records_eq] show ?thesis unfolding upsert_call_def by blast
  qed
qed (use assms in \<open>auto simp: IngestServer_Upsert_def\<close>)

lemma Delete_reaches:
  assumes "IngestServer_Delete ings val c (Some req) s = Some (r, s')"
  shows "s' = s \<and> (\<forall>n. r = Inr n \<longrightarrow> dr_Ids req = [])
    \<or> (\<exists>ing. ings (TenantFrom val) = Some ing \<and> delete_call c req s r s' ing)"
proof (cases "resolve_target ings val (dr_Namespace req) (dr_Branch req)")
  case (Inr x)
  obtain ing ns b where x: "x = (ing, ns, b)" by (cases x)
  note tgt = Inr [unfolded x] and names = iffD1 [OF resolve_target_eq Inr [unfolded x]]
  show ?thesis
  proof (cases "dr_Ids req = [] \<or> [] \<in> set (dr_Ids req)")
    case True
    with assms tgt show ?thesis by (auto simp: IngestServer_Delete_def list_ex_iff split: if_splits)
  next
    case False
    then have ids: "dr_Ids req \<noteq> []" "[] \<notin> set (dr_Ids req)" "\<not> list_ex (\<lambda>docID. docID = []) (dr_Ids req)" by (auto simp: list_ex_iff)
    obtain err s1 where call: "in_Delete ing c ns b (dr_Ids req) s = Some (err, s1)"
      using assms tgt ids by (cases "in_Delete ing c ns b (dr_Ids req) s") (auto simp: IngestServer_Delete_def)
    have "s1 = s'" "case err of None \<Rightarrow> r = Inr (of_nat (length (dr_Ids req))) | Some e \<Rightarrow> \<exists>st. r = Inl st"
      using assms tgt ids call by (auto simp: IngestServer_Delete_def split: option.splits)
    with call names ids show ?thesis unfolding delete_call_def by blast
  qed
qed (use assms in \<open>auto simp: IngestServer_Delete_def\<close>)

lemma Fork_reaches:
  assumes "IngestServer_Fork ings val c (Some req) s = Some (r, s')"
  shows "s' = s \<and> (\<exists>st. r = Inl st)
    \<or> (\<exists>ing. ings (TenantFrom val) = Some ing \<and> fork_call c req s r s' ing)"
  using assms unfolding IngestServer_Fork_def
  by (auto simp: fork_call_def resolve_eq split: option.splits sum.splits if_splits prod.splits)

text \<open>
  C40. Only checked requests reach an ingester, and only the one of their tenant. A request that passes the interceptor either leaves everything as it was, and then it
  failed or had nothing to do, or the header named exactly one tenant with a valid name, and the ingester of that tenant was called with valid names of a
  namespace and a branch (the defaults if the request had none), with records and identifiers that are not empty, and with two different
  branches for a fork; and the answer is a success exactly if that call succeeded.
\<close>

theorem requests_checked:
  "(\<forall>r s'. TenantInterceptor (\<lambda>st. Some (Inl st, s)) vals (\<lambda>val. IngestServer_Upsert ings val c (Some ureq) s) = Some (r, s') \<longrightarrow>
       s' = s \<and> (\<forall>n. r = Inr n \<longrightarrow> ur_Records ureq = []) \<or> routed vals ings (upsert_call c ureq s r s'))
   \<and> (\<forall>r s'. TenantInterceptor (\<lambda>st. Some (Inl st, s)) vals (\<lambda>val. IngestServer_Delete ings val c (Some dreq) s) = Some (r, s') \<longrightarrow>
       s' = s \<and> (\<forall>n. r = Inr n \<longrightarrow> dr_Ids dreq = []) \<or> routed vals ings (delete_call c dreq s r s'))
   \<and> (\<forall>r s'. TenantInterceptor (\<lambda>st. Some (Inl st, s)) vals (\<lambda>val. IngestServer_Fork ings val c (Some freq) s) = Some (r, s') \<longrightarrow>
       s' = s \<and> (\<exists>st. r = Inl st) \<or> routed vals ings (fork_call c freq s r s'))"
proof (intro conjI allI impI, goal_cases)
  case (1 r s')
  show ?case by (rule interceptor_routes [OF 1]) (auto dest: Upsert_reaches)
next
  case (2 r s')
  show ?case by (rule interceptor_routes [OF 2]) (auto dest: Delete_reaches)
next
  case (3 r s')
  show ?case by (rule interceptor_routes [OF 3]) (auto dest: Fork_reaches)
qed

text \<open>An ingester that lists its calls.\<close>

definition ledger :: "(string \<times> string \<times> string list) list IngesterI" where
  "ledger = \<lparr>in_Upsert = \<lambda>c ns b rs s. Some (None, s @ [(ns, b, map r_Id rs)]), in_Delete = \<lambda>c ns b ids s. Some (None, s @ [(ns, b, ids)]),
     in_Fork = \<lambda>c ns src tgt s. Some (Some ErrNotFound, s)\<rparr>"

definition upsert_a :: UpsertRequest where
  "upsert_a = \<lparr>ur_Namespace = [], ur_Records = [Some \<lparr>r_Id = ''x'', r_Vectors = fmempty, r_Attributes = fmempty\<rparr>], ur_Branch = ''dev''\<rparr>"

theorem requests_checked_witness:
  "TenantInterceptor (\<lambda>st. Some (Inl st, [])) [''acme''] (\<lambda>val. IngestServer_Upsert [''acme'' \<mapsto> ledger] val 0 (Some upsert_a) []) =
      Some (Inr 1, [(''default'', ''dev'', [''x''])])
   \<and> routed [''acme''] [''acme'' \<mapsto> ledger] (upsert_call 0 upsert_a [] (Inr 1) [(''default'', ''dev'', [''x''])])"
proof -
  have v: "ValidateName ''acme'' = Inr ()" "ValidateName ''default'' = Inr ()" "ValidateName ''dev'' = Inr ()" by code_simp+
  have run: "TenantInterceptor (\<lambda>st. Some (Inl st, [])) [''acme''] (\<lambda>val. IngestServer_Upsert [''acme'' \<mapsto> ledger] val 0 (Some upsert_a) []) =
      Some (Inr 1, [(''default'', ''dev'', [''x''])])"
    by (simp add: TenantInterceptor_def v withTenant_def TenantFrom_def IngestServer_Upsert_def resolve_target_def resolveNamespace_def resolveBranch_def
        upsert_a_def ledger_def DefaultNamespace_def DefaultBranch_def Let_def)
  have "ur_Records upsert_a \<noteq> []" by (simp add: upsert_a_def)
  with run requests_checked [of "[]" "[''acme'']" "[''acme'' \<mapsto> ledger]" 0 upsert_a] show ?thesis by blast
qed

end
