(* ===== verification/Tenants.thy ===== *)
theory Tenants
  imports Cas Namespace
begin

text \<open>
  \<open>src/namespace/tenant.go\<close>: the file that lists the tenants, one object updated by compare-and-swap, and the map of
  stores of \<open>src/namespace/registry.go\<close>. \<open>encoding/json\<close> on lists of strings is a codec. \<open>WriteTenantsJSON\<close> drops the generation of
  its \<open>Put\<close>; here it is the value that \<open>AddTenant\<close> ignores. \<open>NewRegistry\<close> gets the entries of its map in the order in which they are visited.
\<close>

subsection \<open>tenant.go\<close>

definition TenantsFile :: string where "TenantsFile = ''tenants.json''"

definition ReadTenantsJSON :: "'s Store \<Rightarrow> string list codec \<Rightarrow> ctx \<Rightarrow> 's \<Rightarrow> (string list \<times> string) result \<times> 's" where
  "ReadTenantsJSON S cd c s =
     (case Store_Get S c TenantsFile s of
        (Inl err, s') \<Rightarrow> (if errors_is err ErrNotFound then Inr ([], []) else Inl err, s')
      | (Inr ro, s') \<Rightarrow> (decode_object cd ''namespace: read tenants'' ''namespace: unmarshal tenants'' ro, s'))"

definition WriteTenantsJSON :: "'s Store \<Rightarrow> string list codec \<Rightarrow> ctx \<Rightarrow> string list \<Rightarrow> string \<Rightarrow> 's \<Rightarrow> string result \<times> 's" where
  "WriteTenantsJSON S cd c tenants expectedGen s =
     (case marshal cd tenants of
        Inl err \<Rightarrow> (Inl (Wrap ''namespace: marshal tenants'' err), s)
      | Inr data \<Rightarrow> Store_Put S c TenantsFile (bytes_Reader data) (match_cond expectedGen) s)"

definition ListTenants :: "'s Store \<Rightarrow> string list codec \<Rightarrow> ctx \<Rightarrow> 's \<Rightarrow> string list result \<times> 's" where
  "ListTenants S cd c s =
     (case ReadTenantsJSON S cd c s of
        (Inl err, s') \<Rightarrow> (Inl (Wrap ''namespace: list tenants'' err), s')
      | (Inr (tenants, _), s') \<Rightarrow> (Inr (if tenants = [] then [DefaultTenant] else tenants), s'))"

definition AddTenant :: "'s Store \<Rightarrow> string list codec \<Rightarrow> ctx \<Rightarrow> string \<Rightarrow> 's \<Rightarrow> (unit result \<times> 's) option" where
  "AddTenant S cd c tenant s =
     (case ValidateName tenant of
        Inl err \<Rightarrow> Some (Inl err, s)
      | Inr _ \<Rightarrow>
          retry (cas_body
            (on_error (\<lambda>err. Inl (Wrap ''namespace: add tenant'' err)) (ReadTenantsJSON S cd c))
            (\<lambda>tenants gen. if tenant \<in> set tenants then Inl (Inr ()) else Inr (tenants @ [tenant]))
            (WriteTenantsJSON S cd c)
            (\<lambda>_ _. Inr ())
            (\<lambda>err. Inl (Wrap ''namespace: write tenants'' err))) s)"

subsection \<open>registry.go\<close>

record 's Registry =
  rg_stores :: "string \<rightharpoonup> 's Store"
  rg_tenants :: "string list"

fun registry_loop :: "(string \<times> 's Store option) list \<Rightarrow> (string \<rightharpoonup> 's Store) \<Rightarrow> string list \<Rightarrow> ((string \<rightharpoonup> 's Store) \<times> string list) result" where
  "registry_loop [] copied tenants = Inr (copied, tenants)"
| "registry_loop ((tenant, store) # stores) copied tenants =
     (case ValidateName tenant of
        Inl err \<Rightarrow> Inl err
      | Inr _ \<Rightarrow>
          (case store of
             None \<Rightarrow> Inl (ErrMsg ''namespace: nil store'')
           | Some st \<Rightarrow> registry_loop stores (copied(tenant \<mapsto> st)) (tenants @ [tenant])))"

definition NewRegistry :: "(string \<times> 's Store option) list \<Rightarrow> 's Registry result" where
  "NewRegistry stores =
     (if stores = [] then Inl (ErrMsg ''namespace: empty stores map'')
      else
        (case registry_loop stores Map.empty [] of
           Inl err \<Rightarrow> Inl err
         | Inr (copied, tenants) \<Rightarrow> Inr \<lparr>rg_stores = copied, rg_tenants = sort tenants\<rparr>))"

definition Registry_Store :: "'s Registry \<Rightarrow> string \<Rightarrow> 's Store option" where
  "Registry_Store r tenant = rg_stores r tenant"

subsection \<open>The list under concurrent updates\<close>

lemma writes_as_tenants: "writes_as S c TenantsFile cd (WriteTenantsJSON S cd c)"
  by (auto simp: writes_as_def WriteTenantsJSON_def rewrap_def split: sum.split prod.split)

context object_store
begin

lemma ReadTenantsJSON_law:
  assumes "codec_ok cd" and "inv s" and "ReadTenantsJSON S cd c s = (r, s')"
  shows "inv s' \<and> evolves s s' \<and> rely (view s) (view s') \<and>
    (case r of
       Inr (x, g) \<Rightarrow> seen (view s') TenantsFile g \<and> meaning cd [] (view s') TenantsFile x
     | Inl e \<Rightarrow> store_err e)"
proof -
  obtain r0 s1 where get: "get_decode S cd ''namespace: read tenants'' ''namespace: unmarshal tenants'' c TenantsFile s = (r0, s1)"
    by fastforce
  note law = get_decode_law [OF assms(1,2) get]
  obtain rg s2 where g: "Store_Get S c TenantsFile s = (rg, s2)" by fastforce
  show ?thesis
  proof (cases rg)
    case (Inl e)
    with get g have "r0 = Inl e" "s1 = s2" by (auto simp: get_decode_def)
    with law assms(3) g Inl show ?thesis
      by (auto simp: ReadTenantsJSON_def seen_def meaning_def split: if_splits)
  next
    case (Inr ro)
    with get g assms(3) have "r = r0" "s' = s1" by (auto simp: get_decode_def ReadTenantsJSON_def)
    with law show ?thesis by (auto split: sum.splits)
  qed
qed

text \<open>A tenant is added behind the others, in one step, to the list as it was at that moment, or it was there.\<close>

lemma AddTenant_spec:
  assumes "codec_ok cd" and "inv s" and "AddTenant S cd c tenant s = Some (r, s')"
  shows "inv s' \<and> evolves s s' \<and>
    (rely\<^sup>*\<^sup>* (view s) (view s') \<and> (r = Inr () \<longrightarrow> (\<exists>ts. meaning cd [] (view s') TenantsFile ts \<and> tenant \<in> set ts))
     \<or> (\<exists>ts g. tenant \<notin> set ts \<and> valid_name tenant \<and> swapped rely cd [] TenantsFile (view s) ts (ts @ [tenant]) g (view s')))"
proof (cases "ValidateName tenant")
  case (Inl err)
  with assms show ?thesis by (auto simp: AddTenant_def evolves_refl)
next
  case (Inr u)
  then have u: "ValidateName tenant = Inr ()" by simp
  define read where "read = ReadTenantsJSON S cd c"
  have "reader_ok cd [] TenantsFile (\<lambda>r v. \<exists>e. r = Inl e) (on_error (\<lambda>err. Inl (Wrap ''namespace: add tenant'' err) :: unit result) read)"
    by (rule reader_ok_on_error, unfold read_def, intro allI impI)
      (drule (1) ReadTenantsJSON_law [OF assms(1)], auto split: sum.splits)
  note post = cas_loop_post [OF assms(1) writes_as_tenants this assms(2) assms(3) [unfolded AddTenant_def u sum.case read_def [symmetric]]]
  from post u show ?thesis
    unfolding cas_post_def
  proof (elim conjE disjE exE, goal_cases)
    case (2 y gen)
    then show ?case by (auto split: if_splits)
  next
    case (3 y gen x gen')
    then show ?case by (auto split: if_splits)
  next
    case (5 y gen x e)
    then show ?case by (auto split: if_splits)
  qed auto
qed

end

text \<open>A read consumes one turn of the script, so the loop ends in the world.\<close>

lemma ReadTenantsJSON_world:
  assumes "codec_ok cd" and "world_inv R w" and "ReadTenantsJSON world_Store cd c w = (r, w')"
  shows "world_inv R w' \<and> wd_script w' = tl (wd_script w) \<and>
    (case r of Inl _ \<Rightarrow> True | Inr (y, gen) \<Rightarrow> seen (world_view w') TenantsFile gen)"
proof -
  obtain r0 w0 where get: "Store_Get world_Store c TenantsFile w = (r0, w0)" by fastforce
  with assms(3) have "w0 = w'" by (auto simp: ReadTenantsJSON_def split: sum.splits)
  with world_Store_script(1) [OF get] ws.ReadTenantsJSON_law [OF assms] show ?thesis
    by (auto split: sum.splits)
qed

lemma AddTenant_returns:
  assumes "codec_ok cd" and "world_inv R w"
  shows "\<exists>res. AddTenant world_Store cd c tenant w = Some res"
proof (cases "ValidateName tenant")
  case (Inr u)
  show ?thesis
    unfolding AddTenant_def Inr sum.case
    by (rule cas_loop_returns [OF assms(1) writes_as_tenants assms(2) ReadTenantsJSON_world [OF assms(1)] refl])
qed (simp add: AddTenant_def)

lemma registry_loop_stores:
  assumes "registry_loop stores copied tenants = Inr (m, ts)" and "distinct (map fst stores)"
  shows "ts = tenants @ map fst stores \<and> (\<forall>t \<in> set (map fst stores). valid_name t)
    \<and> m = copied ++ (\<lambda>t. Option.bind (map_of stores t) (\<lambda>st. st))"
  using assms
proof (induction stores copied tenants rule: registry_loop.induct)
  case (2 tenant store stores copied tenants)
  then obtain u st where st: "ValidateName tenant = Inr u" "store = Some st"
    "registry_loop stores (copied(tenant \<mapsto> st)) (tenants @ [tenant]) = Inr (m, ts)" by (auto split: sum.splits option.splits)
  have "map_of stores tenant = None" using 2(3) by (simp add: map_of_eq_None_iff)
  with 2(1) [OF st(1,2,3)] 2(3) st show ?case by (auto simp: map_add_def fun_eq_iff split: option.splits)
qed (simp add: map_add_def)

text \<open>A registry has the stores it was given, under valid names, and lists its tenants in order.\<close>

lemma NewRegistry_stores:
  assumes "NewRegistry stores = Inr r" and "distinct (map fst stores)"
  shows "sorted (rg_tenants r) \<and> set (rg_tenants r) = fst ` set stores \<and> (\<forall>t \<in> set (rg_tenants r). valid_name t)
    \<and> (\<forall>t. Registry_Store r t = Option.bind (map_of stores t) (\<lambda>st. st))"
  using assms registry_loop_stores [of stores Map.empty "[]"]
  by (force simp: NewRegistry_def Registry_Store_def split: if_splits sum.splits)

end
