(* ===== verification/Spec2Isabelle.thy ===== *)
theory Spec2Isabelle
  imports Recordio Log_Properties Catalog_Properties Flush_Properties Loader_Properties Grpcapi Tenants
begin

text \<open>
  \<^bold>\<open>cloudy-neigh\<close> is a vector store whose only durable state is an object store. Writers append batches of mutations to a
  log of objects, one log per namespace; flushers turn the log into immutable segments and list them in one manifest per branch;
  readers load the segments of a branch into a table in memory and search it with SIMD distance kernels. The processes never
  talk to each other: all agreement is by conditional writes on single objects. This library models the program from the bytes
  of a record to the hits of a search.

  \<^bold>\<open>Reading the models.\<close> A Go function is a HOL function of the same name (with its package or type first where the name
  alone would clash); a struct is a record, an enumeration or interface with known cases a datatype; an error is a value of
  \<open>gerr\<close> and a fallible function returns \<open>'a result = gerr + 'a\<close> or \<open>gerr option\<close>; a panic is an error value of its own or
  \<open>None\<close> where the text says so. Integers keep their width (\<open>u64\<close>, \<open>u32\<close>, bytes as \<open>8 word\<close>) wherever arithmetic can wrap. A store call
  takes and returns the state of the store. Loops are structural recursion, or \<open>function\<close> with a measure; the retry loops, which end
  only if the other processes let them, are \<open>partial_function (option)\<close>, and that they return is proved (C8, C18, C23). There is no
  fuel in the models. What a \<open>select\<close> receives is a list of events, and a process with no event left waits.

  \<^bold>\<open>Foundations.\<close>
  \<^item> \<open>Prelude\<close>: bytes, errors and \<open>errors.Is\<close>, results, little-endian integers, shared lemmas.
  \<^item> \<open>Paths\<close>, \<open>Sha256\<close>, \<open>Floats\<close>: the parts of the language and its library that the program computes with: \<open>path.Join\<close> and
    \<open>path.Clean\<close>, SHA-256 and hexadecimal, and IEEE 754 arithmetic on bit patterns with rounding to nearest.
  \<^item> \<open>Messages\<close> and the first part of \<open>Segment\<close>: the protocol messages of \<open>src/proto\<close>.

  \<^bold>\<open>RecordIO\<close> (\<open>src/recordio\<close>). \<open>Crc\<close> has the masked checksum, \<open>Recordio_Writer\<close> the buffered writer over a device that may
  write short or fail, \<open>Recordio_Scanner\<close> the scanner with \<open>Scan\<close> and \<open>Skip\<close> over a reader that may read short or fail, \<open>Recordio\<close>
  the properties of the format: what is written is read back (C1), a torn or cut stream gives a prefix and an error (C2, C4), one
  changed byte never gives a wrong record (C3), \<open>Skip\<close> and \<open>Scan\<close> agree (C5), the scan loop is exact (C6).

  \<^bold>\<open>Object store\<close> (\<open>src/objectstore\<close>). \<open>Objectstore\<close> has the \<open>Store\<close> interface as a record of operations and its contract as the locale
  \<open>object_store\<close>: conditional puts, generations that are never reused, ordered listings, and a relation that says what other processes may have
  done between two calls. \<open>Memstore\<close> is the in-memory store, \<open>Generation\<close> its generation strings (and those of the local store).
  \<open>World\<close> puts that store among other processes: a \<open>world\<close> is a store with a finite script of turns, each of them what the
  others write before a call and whether the call is lost before or after its effect, cut while it is read, or its context
  cancelled. The locale is interpreted on the world, so every property about a world covers all interleavings at the granularity of store calls
  and all placements of faults; the script is finite because the retry loops end only when the others pause.

  \<^bold>\<open>Log\<close> (\<open>src/logstream/log.go\<close>). \<open>Logkeys\<close> has keys and their parser (C12), \<open>Logstream\<close> the operations, \<open>Log_Contract\<close> the log as a list
  of batches (\<open>log_is\<close>) with the lemmas that hold in every \<open>object_store\<close>, \<open>Log_Properties\<close> the refinement in the world: \<open>Append\<close>
  appends atomically (C7) and returns (C8), \<open>Read\<close> returns what was appended (C9, C10), the search for the end is logarithmic (C11).

  \<^bold>\<open>Namespaces and branches\<close> (\<open>src/namespace\<close>). \<open>Namespace\<close> has names and the key layout, \<open>Cas\<close> the read-modify-write loop that the
  catalog, the branch list and the manifests share, with what it guarantees in every \<open>object_store\<close>, \<open>Branches\<close> and \<open>Catalog\<close> the two catalogs and the
  cache. \<open>Catalog_Properties\<close>: keys never meet (C13), updates are atomic and none is lost (C14, C17, C20, C21), namespaces are permanent (C15, C16),
  the loops end (C18), the cache is never contradicted (C19).

  \<^bold>\<open>Ingestion\<close> (\<open>src/manifest\<close>, \<open>src/segment\<close>, \<open>src/ingest\<close>). \<open>Manifest\<close> and \<open>Segment\<close> have the two kinds of objects, \<open>Ingester\<close> the writers of
  the log with \<open>Fork\<close> and its rollback, \<open>Flusher\<close> the streams from discovery to shutdown. \<open>Flush_Contract\<close> says how log, segments,
  manifests and branch list are related (\<open>flush_inv\<close>) and what flushers may do to each other (\<open>flush_rely\<close>); \<open>Flush_Steps\<close> and \<open>Flush_Stream\<close> show, in
  locales over \<open>object_store\<close>, that each step and each run keeps it; \<open>Flush_Properties\<close> interprets them in the world: a
  stream flushes its whole log (C22), never loops (C23), and the segments of a branch hold its documents once each and in order (C24).

  \<^bold>\<open>Vectors\<close> (\<open>src/vector\<close>). \<open>Vector_Format\<close> has half precision (C25 to C27), \<open>Vector_Kernels\<close> the plain, portable, AVX-512 and assembly
  kernels and the choice of a variant, \<open>Vector_Properties\<close> that all of them compute the same exact value on integer vectors whose
  sums stay below \<open>2 ^ 24\<close>, the range in which \<open>float32\<close> is exact (C28, C29; the locale \<open>term_kernel\<close> is the argument they share), and the
  range of the cosine distance (C30).

  \<^bold>\<open>Queries\<close> (\<open>src/query\<close>). \<open>Table\<close> is the column table of \<open>table.go\<close>, \<open>Topk\<close> the bounded heap of a search over \<open>container/heap\<close> (the locale
  \<open>comparator\<close> is the order it relies on). \<open>Table_Properties\<close>: a table is a map of documents and the operations act on it as such (C31 to C33);
  \<open>Search_Properties\<close>: a search returns the best hits in order (C34), and no table that can be built makes an operation panic (C35).
  \<open>Loader\<close> has the loader that follows a manifest (\<open>loader.go\<close>) and the engine that keeps a loader per branch (\<open>engine.go\<close>).
  \<open>Loader_Properties\<close> closes the circle: what the log of a namespace holds is what a loaded table holds (C36, on top of \<open>flush_inv\<close> and of the documents of
  \<open>Table_Properties\<close>), loading step by step equals loading at once (C37), what a failed pass publishes (C38), and that nothing stored makes the
  engine panic (C39). A loader's properties C36 to C38 are about a store that nobody writes during the pass; C39 holds for any store whatsoever.

  \<^bold>\<open>Service\<close> (\<open>src/grpcapi\<close>). \<open>Grpcapi\<close> has the interceptor and the handlers over the interfaces of ingesters and engines, and shows
  that only checked requests reach the ingester of their own tenant (C40). \<open>Tenants\<close> has the tenants file of \<open>src/namespace/tenant.go\<close>, with the same
  guarantees as the other catalogs, and the registry of stores.

  \<^bold>\<open>Parameters.\<close> Protocol-buffer encoding (\<open>proto\<close>, \<open>protojson\<close>) is a \<open>codec\<close>: a pair of functions of which the properties assume, where
  they need it, that decoding undoes encoding (\<open>codec_ok\<close>). \<open>proto.Equal\<close>, the clock, the values of the tenant header and the error of a gRPC trailer are arguments. What the processor does to a
  product before an addition is an argument of type \<open>machine\<close>, so that the properties hold with and without fused operations. SHA-256 is
  computed; that no two contents a namespace ever stores collide is a hypothesis of the flusher's properties (\<open>ctx_ok\<close>).

  \<^bold>\<open>Not modelled.\<close> The file operations of the local store, the Google Cloud store and the choice between them: they are calls of the file system
  and of a service, for which the contract \<open>object_store\<close> stands. \<open>LoadRegistry\<close>, which opens stores from a configuration file. The gRPC server
  itself, the command-line programs, which only start the parts above, and the benchmarks. Logging and durations have no effect on results and are
  left out everywhere.
\<close>

end
